(* ===== verification/Prelude.thy ===== *)
theory Prelude
  imports Main "HOL-Library.Word"
begin

unbundle bit_operations_syntax

text \<open>
  Shared types, the result type of operations that may stop the kernel, and the
  generic facts on lists and machine words that the component theories use.

  Machine integers keep their width: \<open>u8\<close>, \<open>u16\<close> and \<open>u32\<close> are the \<open>uint8_t\<close>,
  \<open>uint16_t\<close> and \<open>uint32_t\<close> of \<open>src/src/stddef.h\<close>, so every addition wraps where the C
  code's addition wraps.  \<open>panic()\<close> never returns, so an operation that can reach it
  yields a value of \<open>'a res\<close>: \<open>Inl\<close> of the reason, or \<open>Inr\<close> of the result.  The other
  reasons are a null pointer followed, the stack used up, an access outside of a C array
  (undefined behaviour) and a division by zero (a processor exception).
\<close>

section \<open>Types\<close>

type_synonym u8 = "8 word"
type_synonym u16 = "16 word"
type_synonym u32 = "32 word"
type_synonym s32 = int

datatype error =
    Panic string
  | AssertFailed string
  | NullDereference
  | StackExhausted
  | OutOfBounds
  | DivideError

type_synonym 'a res = "error + 'a"

definition bind_res :: "'a res \<Rightarrow> ('a \<Rightarrow> 'b res) \<Rightarrow> 'b res" where
  "bind_res r f = (case r of Inl e \<Rightarrow> Inl e | Inr x \<Rightarrow> f x)"

definition assert_k :: "bool \<Rightarrow> string \<Rightarrow> unit res" where
  "assert_k c msg = (if c then Inr () else Inl (AssertFailed msg))"

named_theorems res_simps "rewriting of results to the branch taken"
named_theorems mem_simps "reads of memory after writes"

lemma bind_res_Inl [simp, res_simps]: "bind_res (Inl e) f = Inl e"
  by (simp add: bind_res_def)

lemma bind_res_Inr [simp, res_simps]: "bind_res (Inr x) f = f x"
  by (simp add: bind_res_def)

lemma bind_res_eq_Inr [res_simps]:
  "bind_res r f = Inr y \<longleftrightarrow> (\<exists>x. r = Inr x \<and> f x = Inr y)"
  by (cases r) simp_all

lemma bind_res_eq_Inl [res_simps]:
  "bind_res r f = Inl e \<longleftrightarrow> r = Inl e \<or> (\<exists>x. r = Inr x \<and> f x = Inl e)"
  by (cases r) simp_all

lemma assert_k_eq_Inr [simp, res_simps]: "assert_k c msg = Inr u \<longleftrightarrow> c"
  by (simp add: assert_k_def)

lemma assert_k_eq_Inl [simp, res_simps]:
  "assert_k c msg = Inl e \<longleftrightarrow> \<not> c \<and> e = AssertFailed msg"
  by (auto simp: assert_k_def)

lemma assert_k_True [simp]: "assert_k True msg = Inr ()"
  by (simp add: assert_k_def)

lemma assert_k_False [simp]: "assert_k False msg = Inl (AssertFailed msg)"
  by (simp add: assert_k_def)

section \<open>Words\<close>

text \<open>
  Addresses are words; the proofs about layouts work on their natural-number values.
  The lemmas below move between the two where nothing wraps.
\<close>

lemma word32_size: "2 ^ LENGTH(32) = (4294967296::nat)"
  by simp

lemma unat_lt_32 [simp]: "unat (x::u32) < 4294967296"
  using unsigned_less [of x] by simp

lemma unat_le_32 [simp]: "unat (x::u32) \<le> 4294967295"
  using unat_lt_32 [of x] by linarith

lemma unat_minus_one_32 [simp]: "unat (- 1 :: u32) = 4294967295"
  by (simp add: unsigned_minus_1_eq_mask mask_eq_exp_minus_1)

lemma unat_of_nat32: "n < 4294967296 \<Longrightarrow> unat (of_nat n :: u32) = n"
  by (simp add: unat_of_nat take_bit_nat_eq_self)

lemma of_nat32_eq_iff:
  "m < 4294967296 \<Longrightarrow> n < 4294967296 \<Longrightarrow> (of_nat m :: u32) = of_nat n \<longleftrightarrow> m = n"
  by (metis unat_of_nat32)

lemma unat_add32: "unat (a::u32) + unat b < 4294967296 \<Longrightarrow> unat (a + b) = unat a + unat b"
  by (simp add: unat_word_ariths)

lemma unat_sub32: "unat (b::u32) \<le> unat a \<Longrightarrow> unat (a - b) = unat a - unat b"
  by (simp add: unat_sub word_le_nat_alt)

lemma unat_sub32_wrap:
  "unat (a::u32) < unat b \<Longrightarrow> unat (a - b) = 4294967296 + unat a - unat b"
  by (simp add: unat_sub_if')

lemma unat_mult4: "4 * unat (a::u32) < 4294967296 \<Longrightarrow> unat (4 * a) = 4 * unat a"
  by (simp add: unat_word_ariths)

lemma of_nat32_unat [simp]: "(of_nat (unat (x::u32)) :: u32) = x"
  by simp

lemma u32_nat_cases:
  fixes x :: u32
  obtains n where "x = of_nat n" "n < 4294967296" "unat x = n"
  by (metis of_nat32_unat unat_lt_32)

text \<open>A word below \<open>2 ^ 31\<close> reads the same as a signed and as an unsigned number.\<close>

lemma sint_small:
  assumes "unat (x::u32) < 2147483648"
  shows "sint x = int (unat x)"
proof -
  have "uint x < 2147483648" using assms by (simp flip: of_nat_less_numeral_iff [where 'a = int])
  moreover have "- 2147483648 \<le> uint x" by (rule order_trans [OF _ uint_ge_0]) simp
  ultimately have "signed_take_bit 31 (uint x) = uint x"
    by (simp add: signed_take_bit_int_eq_self_iff)
  then show ?thesis by (simp add: sint_uint)
qed

end
