(* ===== verification/Memory.thy ===== *)
theory Memory
  imports Prelude
begin

text \<open>
  The machine's memory: a byte for every 32-bit address, read and written in
  little-endian words as the i386 does.  Every C object the model places at an address
  (bitset words, index arrays, page tables, block headers and footers, the video buffer)
  lives in this one memory, so overlapping objects really overlap.
\<close>

type_synonym memory = "u32 \<Rightarrow> u8"

definition load16 :: "memory \<Rightarrow> u32 \<Rightarrow> u16" where
  "load16 m a = ucast (m a) OR push_bit 8 (ucast (m (a + 1)))"

definition store16 :: "memory \<Rightarrow> u32 \<Rightarrow> u16 \<Rightarrow> memory" where
  "store16 m a v = m(a := ucast v, a + 1 := ucast (drop_bit 8 v))"

definition load32 :: "memory \<Rightarrow> u32 \<Rightarrow> u32" where
  "load32 m a =
     ucast (m a) OR push_bit 8 (ucast (m (a + 1)))
     OR push_bit 16 (ucast (m (a + 2))) OR push_bit 24 (ucast (m (a + 3)))"

definition store32 :: "memory \<Rightarrow> u32 \<Rightarrow> u32 \<Rightarrow> memory" where
  "store32 m a v =
     m(a := ucast v, a + 1 := ucast (drop_bit 8 v),
       a + 2 := ucast (drop_bit 16 v), a + 3 := ucast (drop_bit 24 v))"

lemma word32_of_bytes:
  "ucast (ucast v :: u8) OR push_bit 8 (ucast (ucast (drop_bit 8 v) :: u8))
     OR push_bit 16 (ucast (ucast (drop_bit 16 v) :: u8)) OR push_bit 24 (ucast (ucast (drop_bit 24 v) :: u8))
   = (v :: u32)"
  (is "?w = v")
proof (rule bit_word_eqI)
  fix n assume n: "n < LENGTH(32)"
  then consider "n < 8" | "8 \<le> n" "n < 16" | "16 \<le> n" "n < 24" | "24 \<le> n" "n < 32"
    by fastforce
  then show "bit ?w n \<longleftrightarrow> bit v n"
    by cases (auto simp: bit_simps)
qed

lemma load32_zero [simp]: "load32 (\<lambda>_. 0) a = 0"
  by (simp add: load32_def)

lemma load32_store32_same [simp, mem_simps]: "load32 (store32 m a v) a = v"
  by (simp add: load32_def store32_def word32_of_bytes)

lemma load16_store16_same [simp, mem_simps]: "load16 (store16 m a v) a = v"
  by (rule bit_word_eqI) (auto simp: load16_def store16_def bit_simps)

section \<open>Footprints\<close>

text \<open>
  \<open>bytes a n\<close> is the set of the \<open>n\<close> addresses from \<open>a\<close> on, going round at the top of
  the address space as the hardware's address arithmetic does.
\<close>

definition bytes :: "u32 \<Rightarrow> nat \<Rightarrow> u32 set" where
  "bytes a n = {x. unat (x - a) < n}"

lemma in_bytes [simp]: "x \<in> bytes a n \<longleftrightarrow> unat (x - a) < n"
  by (simp add: bytes_def)

lemma unat_minus_swap:
  assumes "(a::u32) \<noteq> b"
  shows "unat (a - b) = 4294967296 - unat (b - a)"
proof (cases "unat a < unat b")
  case True
  then show ?thesis using unat_sub32_wrap [of a b] unat_sub32 [of a b] by simp
next
  case False
  have "unat a \<noteq> unat b" using assms by (simp add: word_unat_eq_iff)
  then have lt: "unat b < unat a" using False by linarith
  show ?thesis using unat_sub32_wrap [OF lt] unat_sub32 [of b a] lt unat_lt_32 [of a] by linarith
qed

lemma bytes_disjoint:
  assumes "n \<le> unat (b - a)" "k \<le> unat (a - b)"
  shows "bytes a n \<inter> bytes b k = {}"
proof (rule ccontr)
  assume "bytes a n \<inter> bytes b k \<noteq> {}"
  then obtain x where x: "unat (x - a) < n" "unat (x - b) < k" by auto
  have eq: "x - a = (x - b) + (b - a)" by simp
  have ne: "unat (b - a) \<noteq> 0" using x assms by linarith
  have d: "unat (a - b) = 4294967296 - unat (b - a)"
    by (rule unat_minus_swap) (use ne in auto)
  have lt: "unat (x - a) < unat (b - a)" "unat (x - b) < unat (a - b)"
    using x assms by linarith+
  then have "unat (x - b) + unat (b - a) < 4294967296" using d by linarith
  then have "unat (x - a) = unat (x - b) + unat (b - a)"
    unfolding eq by (rule unat_add32)
  then show False using lt by linarith
qed

lemma bytes_mono: "n \<le> k \<Longrightarrow> bytes a n \<subseteq> bytes a k"
  by auto

lemma in_bytes_nat:
  assumes "p + n \<le> 4294967296" "q < 4294967296"
  shows "(of_nat q :: u32) \<in> bytes (of_nat p) n \<longleftrightarrow> p \<le> q \<and> q < p + n"
proof (cases "n = 0")
  case False
  then have p: "unat (of_nat p :: u32) = p" "unat (of_nat q :: u32) = q"
    using assms by (simp_all add: unat_of_nat32)
  show ?thesis
  proof (cases "p \<le> q")
    case True
    then have "unat (of_nat q - of_nat p :: u32) = q - p"
      using p by (simp add: unat_sub32)
    then show ?thesis using True by auto
  next
    case False
    then have "unat (of_nat q - of_nat p :: u32) = 4294967296 + q - p"
      using p by (simp add: unat_sub32_wrap)
    then show ?thesis using False assms by auto
  qed
qed auto

lemma bytes_disjoint_nat:
  assumes "p + n \<le> q \<or> q + k \<le> p" "p + n \<le> 4294967296" "q + k \<le> 4294967296"
  shows "bytes (of_nat p) n \<inter> bytes (of_nat q) k = {}"
proof (rule ccontr)
  assume "bytes (of_nat p) n \<inter> bytes (of_nat q) k \<noteq> {}"
  then obtain x where x: "x \<in> bytes (of_nat p) n" "x \<in> bytes (of_nat q) k" by blast
  obtain r where r: "x = of_nat r" "r < 4294967296" by (rule u32_nat_cases)
  show False using x r assms in_bytes_nat [of p n r] in_bytes_nat [of q k r] by auto
qed

lemma store32_outside: "x \<notin> bytes a 4 \<Longrightarrow> store32 m a v x = m x"
  unfolding store32_def by (auto simp: fun_upd_def)

lemma load32_cong: "(\<And>x. x \<in> bytes a 4 \<Longrightarrow> m x = m' x) \<Longrightarrow> load32 m a = load32 m' a"
  unfolding load32_def by simp

lemma load32_store32_apart:
  assumes "bytes a 4 \<inter> bytes b 4 = {}"
  shows "load32 (store32 m a v) b = load32 m b"
  using assms by (intro load32_cong store32_outside) blast

lemma load32_store32_cyclic:
  "4 \<le> unat (b - a) \<Longrightarrow> 4 \<le> unat (a - b) \<Longrightarrow> load32 (store32 m a v) b = load32 m b"
  by (intro load32_store32_apart bytes_disjoint)

lemma load32_store32_nat [mem_simps]:
  assumes "p + 4 \<le> q \<or> q + 4 \<le> p" "p + 4 \<le> 4294967296" "q + 4 \<le> 4294967296"
  shows "load32 (store32 m (of_nat p) v) (of_nat q) = load32 m (of_nat q)"
  by (rule load32_store32_apart [OF bytes_disjoint_nat [OF assms]])

section \<open>Arrays of 32-bit words\<close>

text \<open>
  The value of the C array of \<open>n\<close> words at \<open>base\<close>.  \<open>base[i]\<close> is the word at
  \<open>base + 4 * i\<close>.
\<close>

definition words_at :: "memory \<Rightarrow> u32 \<Rightarrow> nat \<Rightarrow> u32 list" where
  "words_at m base n = map (\<lambda>i. load32 m (base + 4 * of_nat i)) [0..<n]"

lemma length_words_at [simp]: "length (words_at m base n) = n"
  by (simp add: words_at_def)

lemma nth_words_at [simp]: "i < n \<Longrightarrow> words_at m base n ! i = load32 m (base + 4 * of_nat i)"
  by (simp add: words_at_def)

lemma words_at_Suc: "words_at m base (Suc n) = words_at m base n @ [load32 m (base + 4 * of_nat n)]"
  by (simp add: words_at_def)

lemma words_at_take: "k \<le> n \<Longrightarrow> take k (words_at m base n) = words_at m base k"
  by (simp add: words_at_def take_map)

lemma elem_distance:
  assumes "i \<noteq> j" "i < n" "j < n" "4 * n \<le> 4294967296"
  shows "4 \<le> unat ((base + 4 * of_nat j) - (base + 4 * of_nat i) :: u32)"
proof -
  have e: "(base + 4 * of_nat j) - (base + 4 * of_nat i) = of_nat (4 * j) - (of_nat (4 * i) :: u32)"
    by simp
  have u: "unat (of_nat (4 * j) :: u32) = 4 * j" "unat (of_nat (4 * i) :: u32) = 4 * i"
    by (rule unat_of_nat32, use assms in linarith)+
  show ?thesis
  proof (cases "i < j")
    case True
    then have "unat (of_nat (4 * j) - of_nat (4 * i) :: u32) = 4 * j - 4 * i"
      by (subst unat_sub32) (simp_all only: u)
    then show ?thesis using True unfolding e by linarith
  next
    case False
    then have "unat (of_nat (4 * j) - of_nat (4 * i) :: u32) = 4294967296 + 4 * j - 4 * i"
      using assms by (subst unat_sub32_wrap) (simp_all only: u)
    then show ?thesis using assms False unfolding e by linarith
  qed
qed

lemma elem_bytes:
  assumes "j < n" "4 * n \<le> 4294967296"
  shows "bytes (base + 4 * of_nat j) 4 \<subseteq> bytes base (4 * n)"
proof
  fix x assume "x \<in> bytes (base + 4 * of_nat j) 4"
  then have x: "unat (x - (base + 4 * of_nat j)) < 4" by simp
  have u: "unat (of_nat (4 * j) :: u32) = 4 * j"
    using assms by (intro unat_of_nat32) simp
  have e: "x - base = (x - (base + 4 * of_nat j)) + of_nat (4 * j)" by simp
  have "unat (x - (base + 4 * of_nat j)) + unat (of_nat (4 * j) :: u32) < 4294967296"
    unfolding u using assms x by linarith
  then have "unat ((x - (base + 4 * of_nat j)) + of_nat (4 * j))
      = unat (x - (base + 4 * of_nat j)) + 4 * j"
    by (subst unat_add32) (simp_all only: u)
  then show "x \<in> bytes base (4 * n)" using x assms(1) unfolding in_bytes e by linarith
qed

lemma words_at_store:
  assumes "i < n" "4 * n \<le> 4294967296"
  shows "words_at (store32 m (base + 4 * of_nat i) v) base n = (words_at m base n)[i := v]"
proof (rule nth_equalityI)
  fix j assume "j < length (words_at (store32 m (base + 4 * of_nat i) v) base n)"
  then have j: "j < n" by simp
  show "words_at (store32 m (base + 4 * of_nat i) v) base n ! j = (words_at m base n)[i := v] ! j"
  proof (cases "j = i")
    case True
    then show ?thesis using j by simp
  next
    case False
    have "load32 (store32 m (base + 4 * of_nat i) v) (base + 4 * of_nat j)
        = load32 m (base + 4 * of_nat j)"
      using False j assms by (intro load32_store32_cyclic elem_distance) auto
    then show ?thesis using False j assms by simp
  qed
qed simp

lemma words_at_frame:
  assumes "bytes base (4 * n) \<inter> bytes a 4 = {}" "4 * n \<le> 4294967296"
  shows "words_at (store32 m a v) base n = words_at m base n"
proof (rule nth_equalityI)
  fix j assume "j < length (words_at (store32 m a v) base n)"
  then have j: "j < n" by simp
  have "bytes (base + 4 * of_nat j) 4 \<subseteq> bytes base (4 * n)"
    using assms(2) j by (intro elem_bytes)
  then have "load32 (store32 m a v) (base + 4 * of_nat j) = load32 m (base + 4 * of_nat j)"
    using assms by (intro load32_store32_apart) blast
  then show "words_at (store32 m a v) base n ! j = words_at m base n ! j" using j by simp
qed simp

lemma words_at_outside:
  assumes "i < n" "4 * n \<le> 4294967296" "x \<notin> bytes base (4 * n)"
  shows "store32 m (base + 4 * of_nat i) v x = m x"
  using assms elem_bytes [of i n base] by (intro store32_outside) blast

section \<open>Memory by number\<close>

text \<open>
  The same reads and writes with the address as a number, for proofs about layouts: no
  address there wraps, and arithmetic decides which words overlap.
\<close>

definition word_at :: "memory \<Rightarrow> nat \<Rightarrow> u32" where
  "word_at m p = load32 m (of_nat p)"

definition put_at :: "memory \<Rightarrow> nat \<Rightarrow> u32 \<Rightarrow> memory" where
  "put_at m p v = store32 m (of_nat p) v"

definition same_outside :: "nat set \<Rightarrow> memory \<Rightarrow> memory \<Rightarrow> bool" where
  "same_outside R m m' \<longleftrightarrow> (\<forall>p<4294967296. p \<notin> R \<longrightarrow> m' (of_nat p) = m (of_nat p))"

lemma word_at_put_at_same [simp, mem_simps]: "word_at (put_at m p v) p = v"
  by (simp add: word_at_def put_at_def)

lemma word_at_put_at [simp, mem_simps]:
  "p + 4 \<le> q \<or> q + 4 \<le> p \<Longrightarrow> p + 4 \<le> 4294967296 \<Longrightarrow> q + 4 \<le> 4294967296 \<Longrightarrow>
     word_at (put_at m p v) q = word_at m q"
  by (simp add: word_at_def put_at_def load32_store32_nat)

lemma same_outside_refl [simp]: "same_outside R m m"
  by (simp add: same_outside_def)

lemma same_outside_trans:
  "same_outside R m m' \<Longrightarrow> same_outside S m' m'' \<Longrightarrow> same_outside (R \<union> S) m m''"
  by (simp add: same_outside_def)

lemma same_outside_mono: "same_outside R m m' \<Longrightarrow> R \<subseteq> S \<Longrightarrow> same_outside S m m'"
  by (auto simp: same_outside_def)

lemma same_outside_trans_in:
  "same_outside R m m' \<Longrightarrow> same_outside R m' m'' \<Longrightarrow> same_outside R m m''"
  by (simp add: same_outside_def)

lemma same_outside_put_at:
  assumes "p + 4 \<le> 4294967296" "{p..<p + 4} \<subseteq> R"
  shows "same_outside R m (put_at m p v)"
  unfolding same_outside_def put_at_def
proof (intro allI impI)
  fix q :: nat assume q: "q < 4294967296" "q \<notin> R"
  then have "(of_nat q :: u32) \<notin> bytes (of_nat p) 4"
    using assms in_bytes_nat [of p 4 q] by (auto simp: subset_iff)
  then show "store32 m (of_nat p) v (of_nat q) = m (of_nat q)" by (rule store32_outside)
qed

lemma same_outside_put_chain:
  "same_outside R m m' \<Longrightarrow> p + 4 \<le> 4294967296 \<Longrightarrow> {p..<p + 4} \<subseteq> R \<Longrightarrow>
     same_outside R m (put_at m' p v)"
  by (rule same_outside_trans_in [OF _ same_outside_put_at])

lemma same_outside_byte: "same_outside R m m' \<Longrightarrow> unat x \<notin> R \<Longrightarrow> m' x = m x"
  unfolding same_outside_def by (metis of_nat32_unat unat_lt_32)

lemma same_outsideI: "(\<And>x. unat x \<notin> R \<Longrightarrow> m' x = m x) \<Longrightarrow> same_outside R m m'"
  by (simp add: same_outside_def unat_of_nat32)

lemma same_outside_word:
  assumes "same_outside R m m'" "{q..<q + 4} \<inter> R = {}" "q + 4 \<le> 4294967296"
  shows "word_at m' q = word_at m q"
  unfolding word_at_def
proof (rule load32_cong)
  fix x :: u32 assume x: "x \<in> bytes (of_nat q) 4"
  obtain r where r: "x = of_nat r" "r < 4294967296" "unat x = r" by (rule u32_nat_cases)
  then have "q \<le> r" "r < q + 4" using x assms(3) in_bytes_nat [of q 4 r] by auto
  then have "unat x \<notin> R" using assms(2) r by auto
  with assms(1) show "m' x = m x" by (rule same_outside_byte)
qed

lemma same_outside_words:
  assumes "same_outside R m m'" "{unat a..<unat a + 4 * n} \<inter> R = {}"
    "unat a + 4 * n \<le> 4294967296"
  shows "words_at m' a n = words_at m a n"
proof (rule nth_equalityI)
  fix i assume "i < length (words_at m' a n)"
  then have i: "i < n" by simp
  have "{unat a + 4 * i..<unat a + 4 * i + 4} \<subseteq> {unat a..<unat a + 4 * n}" using i by auto
  then have "{unat a + 4 * i..<unat a + 4 * i + 4} \<inter> R = {}" using assms(2) by blast
  then have "word_at m' (unat a + 4 * i) = word_at m (unat a + 4 * i)"
    using assms i by (intro same_outside_word [OF assms(1)]) auto
  then show "words_at m' a n ! i = words_at m a n ! i" using i by (simp add: word_at_def)
qed simp

lemma bytes_no_wrap:
  assumes "unat a + n \<le> 4294967296"
  shows "x \<in> bytes a n \<longleftrightarrow> unat x \<in> {unat a..<unat a + n}"
  using in_bytes_nat [of "unat a" n "unat x"] assms by simp

end
