(* ===== verification/Strings.thy ===== *)
theory Strings
  imports Memory
begin

text \<open>
  The byte and string routines of \<open>src/src/string.c\<close>: \<open>memset\<close>, \<open>memcpy\<close>,
  \<open>is_digit\<close>, \<open>strlen\<close>, \<open>strcmp\<close>.  The formatted output of the same file is in
  theory \<open>Printf\<close>.  A counted loop is a recursion over its count; a loop that runs until it
  meets a NUL byte is a partial function, \<open>None\<close> when it never meets one.
\<close>

section \<open>memset and memcpy\<close>

fun memset_loop :: "memory \<Rightarrow> u32 \<Rightarrow> u8 \<Rightarrow> nat \<Rightarrow> memory" where
  "memset_loop m ptr val 0 = m"
| "memset_loop m ptr val (Suc n) = memset_loop (m(ptr := val)) (ptr + 1) val n"

definition memset :: "memory \<Rightarrow> u32 \<Rightarrow> u8 \<Rightarrow> u32 \<Rightarrow> memory" where
  "memset m region val sz = memset_loop m region val (unat sz)"

fun memcpy_loop :: "memory \<Rightarrow> u32 \<Rightarrow> u32 \<Rightarrow> nat \<Rightarrow> memory" where
  "memcpy_loop m dest src 0 = m"
| "memcpy_loop m dest src (Suc n) = memcpy_loop (m(dest := m src)) (dest + 1) (src + 1) n"

definition memcpy :: "memory \<Rightarrow> u32 \<Rightarrow> u32 \<Rightarrow> u32 \<Rightarrow> memory" where
  "memcpy m dest src num = memcpy_loop m dest src (unat num)"

text \<open>Moving the start of a byte range one byte up shifts every offset down by one.\<close>

lemma unat_offset_Suc:
  fixes x p :: u32
  assumes "x \<noteq> p"
  shows "unat (x - p) = Suc (unat (x - (p + 1)))"
proof -
  have "x - p \<noteq> 0" using assms by simp
  moreover have "x - (p + 1) = x - p - 1" by simp
  ultimately show ?thesis by (metis unat_gt_0 Suc_pred' unat_minus_one)
qed

lemma memset_loop_apply:
  "n \<le> 4294967295 \<Longrightarrow>
     memset_loop m p val n x = (if unat (x - p) < n then val else m x)"
proof (induction n arbitrary: m p)
  case (Suc n)
  show ?case
  proof (cases "x = p")
    case True
    then show ?thesis using Suc by simp
  next
    case False
    then show ?thesis using Suc unat_offset_Suc [OF False] by simp
  qed
qed simp

lemma memset_apply [mem_simps]:
  "memset m p val sz x = (if x \<in> bytes p (unat sz) then val else m x)"
  using unat_lt_32 [of sz] by (simp add: memset_def memset_loop_apply)

lemma load32_memset_zero [mem_simps]:
  assumes "bytes a 4 \<subseteq> bytes p (unat sz)"
  shows "load32 (memset m p 0 sz) a = 0"
proof -
  have "memset m p 0 sz x = 0" if "x \<in> bytes a 4" for x
    using that assms by (auto simp: memset_apply)
  then have "load32 (memset m p 0 sz) a = load32 (\<lambda>_. 0) a"
    by (intro load32_cong) simp
  then show ?thesis by (simp add: load32_def)
qed

lemma load32_memset_apart [mem_simps]:
  "bytes a 4 \<inter> bytes p (unat sz) = {} \<Longrightarrow> load32 (memset m p val sz) a = load32 m a"
  by (rule load32_cong) (auto simp: memset_apply)

lemma memcpy_loop_apply:
  "n \<le> 4294967295 \<Longrightarrow> n \<le> unat (d - s) \<or> d = s \<Longrightarrow>
     memcpy_loop m d s n x = (if unat (x - d) < n then m (s + (x - d)) else m x)"
proof (induction n arbitrary: m d s)
  case (Suc n)
  have IH: "memcpy_loop (m(d := m s)) (d + 1) (s + 1) n x =
      (if unat (x - (d + 1)) < n then (m(d := m s)) (s + 1 + (x - (d + 1)))
       else (m(d := m s)) x)"
    using Suc.prems by (intro Suc.IH) auto
  show ?case
  proof (cases "x = d")
    case True
    then show ?thesis using IH Suc.prems(1) by simp
  next
    case False
    have off: "unat (x - d) = Suc (unat (x - (d + 1)))" by (rule unat_offset_Suc [OF False])
    have "s + (x - d) \<noteq> d" if lt: "unat (x - d) < Suc n"
    proof
      assume h: "s + (x - d) = d"
      then have "x - d = d - s" by (metis add_diff_cancel_left')
      then show False using Suc.prems(2) lt False h by auto
    qed
    then have "m (s + (x - d)) = (m(d := m s)) (s + (x - d))" if "unat (x - d) < Suc n"
      using that by simp
    moreover have "s + 1 + (x - (d + 1)) = s + (x - d)" by simp
    ultimately show ?thesis using IH off False by (simp del: fun_upd_apply) simp
  qed
qed simp

text \<open>The other overlap: a destination one byte above the source smears the first byte.\<close>

lemma memcpy_loop_smear:
  "n \<le> 4294967294 \<Longrightarrow>
     memcpy_loop m (s + 1) s n x = (if unat (x - (s + 1)) < n then m s else m x)"
proof (induction n arbitrary: m s)
  case (Suc n)
  have IH: "memcpy_loop (m(s + 1 := m s)) (s + 1 + 1) (s + 1) n x =
      (if unat (x - (s + 1 + 1)) < n then (m(s + 1 := m s)) (s + 1) else (m(s + 1 := m s)) x)"
    using Suc.prems by (intro Suc.IH) simp
  show ?case
  proof (cases "x = s + 1")
    case True
    then show ?thesis using IH Suc.prems by simp
  next
    case False
    then show ?thesis using IH unat_offset_Suc [OF False] by simp
  qed
qed simp

lemma memcpy_smear:
  assumes "sz \<noteq> - 1"
  shows "memcpy m (s + 1) s sz x = (if x \<in> bytes (s + 1) (unat sz) then m s else m x)"
proof -
  have "unat sz \<noteq> 4294967295" using assms by (metis unat_minus_one_32 word_unat_eq_iff)
  then have "unat sz \<le> 4294967294" using unat_le_32 [of sz] by linarith
  then show ?thesis by (simp add: memcpy_def memcpy_loop_smear)
qed

lemma memcpy_apply [mem_simps]:
  assumes "unat sz \<le> unat (d - s) \<or> d = s"
  shows "memcpy m d s sz x = (if x \<in> bytes d (unat sz) then m (s + (x - d)) else m x)"
  unfolding memcpy_def
  by (subst memcpy_loop_apply) (use assms unat_lt_32 [of sz] in auto)

text \<open>
  \<open>memcpy(dest, src, num)\<close> copies upwards: unless the destination starts strictly
  inside the source range, afterwards the \<open>num\<close> bytes from \<open>dest\<close> on are the bytes the
  source had before the call, at the same offsets (also when the ranges overlap the other
  way round), and every other byte of memory is unchanged.
\<close>

lemma memcpy_correct:
  assumes "unat num \<le> unat (dest - src) \<or> dest = src"
  shows "(\<forall>i. unat i < unat num \<longrightarrow> memcpy m dest src num (dest + i) = m (src + i))
       \<and> (\<forall>x. x \<notin> bytes dest (unat num) \<longrightarrow> memcpy m dest src num x = m x)"
  using assms by (simp add: memcpy_apply)

section \<open>Strings\<close>

definition is_digit :: "u8 \<Rightarrow> bool" where
  "is_digit c \<longleftrightarrow> 48 \<le> sint c \<and> sint c \<le> 57"

partial_function (option) strlen_loop :: "memory \<Rightarrow> u32 \<Rightarrow> s32 \<Rightarrow> s32 option" where
  "strlen_loop m str len =
     (if m str \<noteq> 0 then strlen_loop m (str + 1) (len + 1) else Some len)"

definition strlen :: "memory \<Rightarrow> u32 \<Rightarrow> s32 option" where
  "strlen m str = strlen_loop m str 0"

partial_function (option) strcmp :: "memory \<Rightarrow> u32 \<Rightarrow> u32 \<Rightarrow> s32 option" where
  "strcmp m a b =
     (if m a \<noteq> 0 \<and> m b \<noteq> 0 \<and> m a = m b then strcmp m (a + 1) (b + 1)
      else Some (sint (m b) - sint (m a)))"

text \<open>\<open>cstr_at m p cs\<close>: a NUL-terminated string with the characters \<open>cs\<close> starts at \<open>p\<close>.\<close>

fun cstr_at :: "memory \<Rightarrow> u32 \<Rightarrow> u8 list \<Rightarrow> bool" where
  "cstr_at m p [] \<longleftrightarrow> m p = 0"
| "cstr_at m p (c # cs) \<longleftrightarrow> m p = c \<and> c \<noteq> 0 \<and> cstr_at m (p + 1) cs"

lemma cstr_at_cong:
  "cstr_at m p cs \<Longrightarrow> (\<And>i. i \<le> length cs \<Longrightarrow> m' (p + of_nat i) = m (p + of_nat i)) \<Longrightarrow>
     cstr_at m' p cs"
proof (induction cs arbitrary: p)
  case Nil
  then show ?case using Nil.prems(2) [of 0] by simp
next
  case (Cons c cs)
  have "m' (p + 1 + of_nat i) = m (p + 1 + of_nat i)" if "i \<le> length cs" for i
    using that Cons.prems(2) [of "Suc i"] by (simp add: add.assoc)
  then show ?case using Cons.prems Cons.prems(2) [of 0] Cons.IH by simp
qed

lemma strlen_loop_cstr: "cstr_at m p cs \<Longrightarrow> strlen_loop m p k = Some (k + int (length cs))"
  by (induction cs arbitrary: p k) (simp_all add: strlen_loop.simps)

lemma cstr_at_exists:
  "m (p + of_nat n) = 0 \<Longrightarrow> \<exists>cs. cstr_at m p cs \<and> length cs \<le> n"
proof (induction n arbitrary: p)
  case 0
  then show ?case by (intro exI [of _ "[]"]) simp
next
  case (Suc n)
  show ?case
  proof (cases "m p = 0")
    case True
    then show ?thesis by (intro exI [of _ "[]"]) simp
  next
    case False
    have "m (p + 1 + of_nat n) = 0" using Suc.prems by (simp add: add.assoc)
    then obtain cs where "cstr_at m (p + 1) cs" "length cs \<le> n" using Suc.IH by blast
    then show ?thesis using False by (intro exI [of _ "m p # cs"]) simp
  qed
qed

lemma strlen_cstr: "cstr_at m p cs \<Longrightarrow> strlen m p = Some (int (length cs))"
  by (simp add: strlen_def strlen_loop_cstr)

lemma strlen_loop_diverges:
  assumes ret: "strlen_loop m p k = Some r"
  shows "\<exists>x. m x = 0"
  by (rule strlen_loop.raw_induct [where P = "\<lambda>m p k r. \<exists>x. m x = 0", OF _ ret])
     (auto split: if_splits)

text \<open>
  \<open>strlen\<close> returns the number of characters before the first NUL byte, and it returns
  at all exactly when memory holds a NUL byte somewhere: the scan goes round the address
  space, so in a memory without one it never ends.
\<close>

lemma strlen_correct:
  "(strlen m p = Some n \<longleftrightarrow> (\<exists>cs. cstr_at m p cs \<and> n = int (length cs)))
   \<and> (strlen m p = None \<longleftrightarrow> (\<forall>x. m x \<noteq> 0))"
proof -
  have ex: "\<exists>cs. cstr_at m p cs" if "m x = 0" for x
    using that cstr_at_exists [of m p "unat (x - p)"] by auto
  have none: "(\<forall>x. m x \<noteq> 0)" if "strlen m p = None"
    using that ex strlen_cstr by (metis option.distinct(1))
  have some: "\<exists>x. m x = 0" if "strlen m p = Some n" for n
    using that strlen_loop_diverges by (auto simp: strlen_def)
  show ?thesis
    using none some ex strlen_cstr by (metis option.exhaust option.inject)
qed

text \<open>
  The order \<open>strcmp\<close> decides: the lexicographic order on signed characters, a string being
  below its proper extensions only where the next character is positive.
\<close>

fun strcmp_spec :: "u8 list \<Rightarrow> u8 list \<Rightarrow> s32" where
  "strcmp_spec [] [] = 0"
| "strcmp_spec [] (d # ds) = sint d"
| "strcmp_spec (c # cs) [] = - sint c"
| "strcmp_spec (c # cs) (d # ds) = (if c = d then strcmp_spec cs ds else sint d - sint c)"

lemma strcmp_cstr:
  "cstr_at m a cs \<Longrightarrow> cstr_at m b ds \<Longrightarrow> strcmp m a b = Some (strcmp_spec cs ds)"
proof (induction cs ds arbitrary: a b rule: strcmp_spec.induct)
  case (4 c cs d ds)
  then show ?case by (subst strcmp.simps) auto
qed (subst strcmp.simps; auto)+

lemma strcmp_spec_zero:
  "0 \<notin> set cs \<Longrightarrow> 0 \<notin> set ds \<Longrightarrow> strcmp_spec cs ds = 0 \<longleftrightarrow> cs = ds"
  by (induction cs ds rule: strcmp_spec.induct)
     (auto simp: signed_eq_0_iff dest: signed_word_eqI)

lemma cstr_at_nonzero: "cstr_at m p cs \<Longrightarrow> 0 \<notin> set cs"
  by (induction cs arbitrary: p) auto

lemma strcmp_spec_append: "c \<noteq> d \<Longrightarrow> strcmp_spec (ps @ c # cs) (ps @ d # ds) = sint d - sint c"
  by (induction ps) auto

text \<open>
  On two strings \<open>strcmp\<close> returns, and it returns 0 exactly when they are equal.  Where
  they first differ in a character, the result is the second string's character less
  the first string's, so its sign is the opposite of the standard function's.
\<close>

lemma strcmp_correct:
  assumes "cstr_at m a cs" "cstr_at m b ds"
  shows "\<exists>r. strcmp m a b = Some r \<and> (r = 0 \<longleftrightarrow> cs = ds)
    \<and> (\<forall>ps c d xs ys. cs = ps @ c # xs \<and> ds = ps @ d # ys \<and> c \<noteq> d \<longrightarrow> r = sint d - sint c)"
proof (intro exI [of _ "strcmp_spec cs ds"] conjI allI impI)
  show "strcmp m a b = Some (strcmp_spec cs ds)" by (rule strcmp_cstr [OF assms])
  show "strcmp_spec cs ds = 0 \<longleftrightarrow> cs = ds"
    by (rule strcmp_spec_zero [OF cstr_at_nonzero [OF assms(1)] cstr_at_nonzero [OF assms(2)]])
  fix ps c d xs ys
  assume h: "cs = ps @ c # xs \<and> ds = ps @ d # ys \<and> c \<noteq> d"
  then show "strcmp_spec cs ds = sint d - sint c" by (simp add: strcmp_spec_append)
qed

end
