(* ===== verification/Bitset.thy ===== *)
theory Bitset
  imports Strings
begin

text \<open>
  The bit set of \<open>src/src/datastructs/bitset.c\<close>: a record of the base pointer and the
  number of words; the words are in memory.  The abstract value \<open>bits\<close> is the set of the
  members' indices.  The locale \<open>slot_store\<close> is what the frame allocator relies on:
  claiming, releasing, testing and searching, and the law each obeys; it is interpreted on
  the bit set's operations.  \<open>bitset_create\<close>, which allocates, is in theory \<open>Kmalloc\<close>.
\<close>

section \<open>Definitions\<close>

record bitset =
  bs_base :: u32
  bs_size :: u32

definition OUTER_INDEX :: "u32 \<Rightarrow> u32" where
  "OUTER_INDEX i = i div 32"

definition INNER_INDEX :: "u32 \<Rightarrow> u32" where
  "INNER_INDEX i = i mod 32"

definition ALL_USED :: u32 where
  "ALL_USED = 0xFFFFFFFF"

definition bs_word :: "bitset \<Rightarrow> u32 \<Rightarrow> u32" where
  "bs_word bs outer = bs_base bs + 4 * outer"

definition bitset_set :: "memory \<Rightarrow> bitset \<Rightarrow> u32 \<Rightarrow> memory" where
  "bitset_set m bs index =
     (let outer = OUTER_INDEX index; inner = INNER_INDEX index
      in if outer \<ge> bs_size bs then m
         else store32 m (bs_word bs outer)
                (load32 m (bs_word bs outer) OR push_bit (unat inner) 1))"

definition bitset_clear :: "memory \<Rightarrow> bitset \<Rightarrow> u32 \<Rightarrow> memory" where
  "bitset_clear m bs index =
     (let outer = OUTER_INDEX index; inner = INNER_INDEX index
      in if outer \<ge> bs_size bs then m
         else store32 m (bs_word bs outer)
                (load32 m (bs_word bs outer) AND NOT (push_bit (unat inner) 1)))"

definition bitset_check_set :: "memory \<Rightarrow> bitset \<Rightarrow> u32 \<Rightarrow> s32" where
  "bitset_check_set m bs index =
     (let outer = OUTER_INDEX index; inner = INNER_INDEX index
      in if outer \<ge> bs_size bs then 0
         else sint (load32 m (bs_word bs outer) AND push_bit (unat inner) 1))"

lemma unat_inc_below:
  assumes "(i::u32) < n"
  shows "unat (i + 1) = Suc (unat i)"
proof -
  have "unat i < 4294967295"
    using assms unat_le_32 [of n] unfolding word_less_nat_alt by linarith
  then show ?thesis by (subst unat_add32) simp_all
qed

function find_free_inner :: "memory \<Rightarrow> bitset \<Rightarrow> u32 \<Rightarrow> u32 \<Rightarrow> u32 option" where
  "find_free_inner m bs outer inner =
     (if inner < 32
      then let index = outer * 32 + inner
           in if bitset_check_set m bs index = 0 then Some index
              else find_free_inner m bs outer (inner + 1)
      else None)"
  by pat_completeness auto
termination
  by (relation "measure (\<lambda>(m, bs, outer, inner). 32 - unat inner)")
     (simp_all add: unat_inc_below, simp add: word_less_nat_alt)

function find_free_outer :: "memory \<Rightarrow> bitset \<Rightarrow> u32 \<Rightarrow> u32" where
  "find_free_outer m bs outer =
     (if outer < bs_size bs
      then if load32 m (bs_word bs outer) \<noteq> ALL_USED
           then case find_free_inner m bs outer 0 of
                  Some index \<Rightarrow> index
                | None \<Rightarrow> find_free_outer m bs (outer + 1)
           else find_free_outer m bs (outer + 1)
      else - 1)"
  by pat_completeness auto
termination
  by (relation "measure (\<lambda>(m, bs, outer). unat (bs_size bs) - unat outer)")
     (simp_all add: unat_inc_below, simp_all add: word_less_nat_alt)

declare find_free_inner.simps [simp del] find_free_outer.simps [simp del]

definition bitset_find_free :: "memory \<Rightarrow> bitset \<Rightarrow> u32" where
  "bitset_find_free m bs = find_free_outer m bs 0"

section \<open>The set a bit set holds\<close>

definition bs_capacity :: "bitset \<Rightarrow> nat" where
  "bs_capacity bs = 32 * unat (bs_size bs)"

definition bs_region :: "bitset \<Rightarrow> u32 set" where
  "bs_region bs = bytes (bs_base bs) (4 * unat (bs_size bs))"

definition bits :: "memory \<Rightarrow> bitset \<Rightarrow> nat set" where
  "bits m bs = {i. i < bs_capacity bs \<and>
     bit (words_at m (bs_base bs) (unat (bs_size bs)) ! (i div 32)) (i mod 32)}"

text \<open>Every index, and the failure value, fit in 32 bits.\<close>

definition bs_wf :: "bitset \<Rightarrow> bool" where
  "bs_wf bs \<longleftrightarrow> unat (bs_size bs) < 134217728"

lemma bits_below: "bits m bs \<subseteq> {..<bs_capacity bs}"
  by (auto simp: bits_def)

lemma unat_OUTER [simp]: "unat (OUTER_INDEX i) = unat i div 32"
  by (simp add: OUTER_INDEX_def unat_div)

lemma unat_INNER [simp]: "unat (INNER_INDEX i) = unat i mod 32"
  by (simp add: INNER_INDEX_def unat_mod)

lemma OUTER_in_range: "OUTER_INDEX i < bs_size bs \<longleftrightarrow> unat i < bs_capacity bs"
  by (simp add: word_less_nat_alt bs_capacity_def div_less_iff_less_mult mult.commute)

lemma bs_word_eq: "bs_word bs (OUTER_INDEX i) = bs_base bs + 4 * of_nat (unat i div 32)"
  unfolding bs_word_def by (metis of_nat32_unat unat_OUTER)

lemma word_load:
  "unat i < bs_capacity bs \<Longrightarrow> load32 m (bs_word bs (OUTER_INDEX i))
     = words_at m (bs_base bs) (unat (bs_size bs)) ! (unat i div 32)"
  by (simp add: bs_word_eq bs_capacity_def div_less_iff_less_mult mult.commute)

lemma word_store:
  assumes "bs_wf bs" "unat i < bs_capacity bs"
  shows "words_at (store32 m (bs_word bs (OUTER_INDEX i)) v) (bs_base bs) (unat (bs_size bs))
    = (words_at m (bs_base bs) (unat (bs_size bs)))[unat i div 32 := v]"
  using assms unfolding bs_word_eq
  by (intro words_at_store) (auto simp: bs_wf_def bs_capacity_def div_less_iff_less_mult mult.commute)

lemma index_split: "i div 32 = j div 32 \<Longrightarrow> i mod 32 = j mod 32 \<longleftrightarrow> i = (j::nat)"
  by (metis div_mult_mod_eq)

text \<open>A one-word update of the words, read back as an update of the set.\<close>

lemma bits_update:
  assumes wf: "bs_wf bs" and i: "unat i < bs_capacity bs"
    and v: "\<And>k. k < 32 \<Longrightarrow> bit v k \<longleftrightarrow>
      (if k = unat i mod 32 then b else bit (load32 m (bs_word bs (OUTER_INDEX i))) k)"
  shows "bits (store32 m (bs_word bs (OUTER_INDEX i)) v) bs
    = (if b then insert (unat i) (bits m bs) else bits m bs - {unat i})"
proof (rule set_eqI)
  fix j
  have "j \<in> bits (store32 m (bs_word bs (OUTER_INDEX i)) v) bs
      \<longleftrightarrow> (if j = unat i then b else j \<in> bits m bs)"
  proof (cases "j < bs_capacity bs \<and> j div 32 = unat i div 32")
    case True
    then have "unat i div 32 < unat (bs_size bs)"
      using i by (simp add: bs_capacity_def div_less_iff_less_mult mult.commute)
    then have "j \<in> bits (store32 m (bs_word bs (OUTER_INDEX i)) v) bs \<longleftrightarrow> bit v (j mod 32)"
      using True by (simp add: bits_def word_store [OF wf i])
    moreover have "j \<in> bits m bs
        \<longleftrightarrow> bit (load32 m (bs_word bs (OUTER_INDEX i))) (j mod 32)"
      using True by (simp add: bits_def word_load [OF i])
    ultimately show ?thesis using True v [of "j mod 32"] index_split [of j "unat i"] by simp
  next
    case False
    have ne: "j \<noteq> unat i" using False i by blast
    show ?thesis
    proof (cases "j < bs_capacity bs")
      case True
      then have "unat i div 32 \<noteq> j div 32" using False by simp
      then show ?thesis using ne
        by (simp only: bits_def mem_Collect_eq word_store [OF wf i] nth_list_update_neq if_False
            simp_thms)
    next
      case False
      then show ?thesis using ne by (simp only: bits_def mem_Collect_eq simp_thms if_False)
    qed
  qed
  then show "j \<in> bits (store32 m (bs_word bs (OUTER_INDEX i)) v) bs
      \<longleftrightarrow> j \<in> (if b then insert (unat i) (bits m bs) else bits m bs - {unat i})"
    by (cases b) (auto simp only: if_True if_False insert_iff Diff_iff empty_iff split: if_splits)
qed

lemma bits_bitset_set:
  assumes "bs_wf bs"
  shows "bits (bitset_set m bs i) bs
    = (if unat i < bs_capacity bs then insert (unat i) (bits m bs) else bits m bs)"
proof (cases "unat i < bs_capacity bs")
  case True
  have "bits (store32 m (bs_word bs (OUTER_INDEX i))
          (load32 m (bs_word bs (OUTER_INDEX i)) OR push_bit (unat (INNER_INDEX i)) 1)) bs
      = (if True then insert (unat i) (bits m bs) else bits m bs - {unat i})"
    using assms True by (intro bits_update) (auto simp: bit_simps)
  then show ?thesis using True OUTER_in_range [of i bs] by (simp add: bitset_set_def Let_def not_le [symmetric])
next
  case False
  then show ?thesis using OUTER_in_range [of i bs] by (simp add: bitset_set_def Let_def not_le [symmetric])
qed

lemma bits_bitset_clear:
  assumes "bs_wf bs"
  shows "bits (bitset_clear m bs i) bs = bits m bs - {unat i}"
proof (cases "unat i < bs_capacity bs")
  case True
  have "bits (store32 m (bs_word bs (OUTER_INDEX i))
          (load32 m (bs_word bs (OUTER_INDEX i)) AND NOT (push_bit (unat (INNER_INDEX i)) 1))) bs
      = (if False then insert (unat i) (bits m bs) else bits m bs - {unat i})"
    using assms True by (intro bits_update) (auto simp: bit_simps)
  then show ?thesis using True OUTER_in_range [of i bs] by (simp add: bitset_clear_def Let_def not_le [symmetric])
next
  case False
  then have "unat i \<notin> bits m bs" using bits_below by blast
  then show ?thesis using False OUTER_in_range [of i bs]
    by (simp add: bitset_clear_def Let_def not_le [symmetric])
qed

lemma bitset_check_set_iff: "bitset_check_set m bs i \<noteq> 0 \<longleftrightarrow> unat i \<in> bits m bs"
proof -
  have "bitset_check_set m bs i \<noteq> 0 \<longleftrightarrow> OUTER_INDEX i < bs_size bs
      \<and> bit (load32 m (bs_word bs (OUTER_INDEX i))) (unat i mod 32)"
    by (simp add: bitset_check_set_def Let_def signed_eq_0_iff not_le [symmetric]
        bit_iff_and_push_bit_not_eq_0)
  then show ?thesis by (auto simp: OUTER_in_range bits_def word_load)
qed

text \<open>An operation writes no byte outside the words of the set.\<close>

lemma bitset_frame:
  assumes "bs_wf bs" "x \<notin> bs_region bs"
  shows "bitset_set m bs i x = m x" "bitset_clear m bs i x = m x"
proof -
  have "store32 m (bs_word bs (OUTER_INDEX i)) v x = m x" if "OUTER_INDEX i < bs_size bs" for v
    using that assms OUTER_in_range [of i bs] unfolding bs_word_eq bs_region_def
    by (intro words_at_outside) (auto simp: bs_wf_def bs_capacity_def div_less_iff_less_mult mult.commute)
  then show "bitset_set m bs i x = m x" "bitset_clear m bs i x = m x"
    by (auto simp: bitset_set_def bitset_clear_def Let_def)
qed

section \<open>The search for a free index\<close>

text \<open>\<open>first_free m bs lo r\<close>: \<open>r\<close> is the least non-member from \<open>lo\<close> on, or \<open>-1\<close> if there is none.\<close>

definition first_free :: "memory \<Rightarrow> bitset \<Rightarrow> nat \<Rightarrow> u32 \<Rightarrow> bool" where
  "first_free m bs lo r \<longleftrightarrow>
     (if {lo..<bs_capacity bs} \<subseteq> bits m bs then r = - 1
      else lo \<le> unat r \<and> unat r < bs_capacity bs \<and> unat r \<notin> bits m bs
           \<and> {lo..<unat r} \<subseteq> bits m bs)"

lemma index_value:
  assumes "bs_wf bs" "outer < bs_size bs" "inner < 32"
  shows "unat (outer * 32 + inner) = unat outer * 32 + unat inner"
proof -
  have o: "unat outer < 134217728" and i: "unat inner < 32"
    using assms by (auto simp: bs_wf_def word_less_nat_alt)
  have m: "unat (outer * 32) = unat outer * 32"
    using o by (simp add: unat_word_ariths)
  have "unat (outer * 32) + unat inner < 4294967296" unfolding m using o i by linarith
  then show ?thesis by (simp add: unat_add32 m)
qed

lemma find_free_inner_spec:
  assumes "bs_wf bs" "outer < bs_size bs" "inner \<le> 32"
  shows "case find_free_inner m bs outer inner of
      Some r \<Rightarrow> unat outer * 32 + unat inner \<le> unat r \<and> unat r < unat outer * 32 + 32
        \<and> unat r \<notin> bits m bs \<and> {unat outer * 32 + unat inner..<unat r} \<subseteq> bits m bs
    | None \<Rightarrow> {unat outer * 32 + unat inner..<unat outer * 32 + 32} \<subseteq> bits m bs"
  using assms
proof (induction m bs outer inner rule: find_free_inner.induct)
  case (1 m bs outer inner)
  show ?case
  proof (cases "inner < 32")
    case False
    then have "unat inner = 32" using 1(4) by (simp add: word_le_nat_alt word_less_nat_alt)
    then show ?thesis using False by (simp add: find_free_inner.simps)
  next
    case True
    note val = index_value [OF 1(2,3) True]
    have inner: "unat inner < 32" using True by (simp add: word_less_nat_alt)
    show ?thesis
    proof (cases "bitset_check_set m bs (outer * 32 + inner) = 0")
      case free: True
      then have "unat (outer * 32 + inner) \<notin> bits m bs"
        using bitset_check_set_iff [of m bs "outer * 32 + inner"] by simp
      then show ?thesis using True free inner val
        by (subst find_free_inner.simps) (simp add: Let_def)
    next
      case used: False
      then have mem: "unat outer * 32 + unat inner \<in> bits m bs"
        using bitset_check_set_iff [of m bs "outer * 32 + inner"] val by simp
      have inc: "unat (inner + 1) = Suc (unat inner)" using True by (rule unat_inc_below)
      then have "inner + 1 \<le> 32" using inner by (simp add: word_le_nat_alt)
      then have IH: "case find_free_inner m bs outer (inner + 1) of
          Some r \<Rightarrow> unat outer * 32 + Suc (unat inner) \<le> unat r \<and> unat r < unat outer * 32 + 32
            \<and> unat r \<notin> bits m bs \<and> {unat outer * 32 + Suc (unat inner)..<unat r} \<subseteq> bits m bs
        | None \<Rightarrow> {unat outer * 32 + Suc (unat inner)..<unat outer * 32 + 32} \<subseteq> bits m bs"
        using 1(1) [OF True refl used 1(2,3)] unfolding inc by blast
      have "{unat outer * 32 + unat inner..<k} \<subseteq>
          insert (unat outer * 32 + unat inner) {unat outer * 32 + Suc (unat inner)..<k}" for k
        by auto
      then have ext: "{unat outer * 32 + Suc (unat inner)..<k} \<subseteq> bits m bs \<Longrightarrow>
          {unat outer * 32 + unat inner..<k} \<subseteq> bits m bs" for k
        using mem by blast
      have "find_free_inner m bs outer inner = find_free_inner m bs outer (inner + 1)"
        using True used by (subst find_free_inner.simps) (simp add: Let_def)
      then show ?thesis using IH ext by (auto split: option.splits)
    qed
  qed
qed

lemma all_used_word:
  assumes "outer < bs_size bs" "load32 m (bs_word bs outer) = ALL_USED"
  shows "{unat outer * 32..<unat outer * 32 + 32} \<subseteq> bits m bs"
proof
  fix i assume i: "i \<in> {unat outer * 32..<unat outer * 32 + 32}"
  have o: "unat outer < unat (bs_size bs)" using assms by (simp add: word_less_nat_alt)
  have d: "i div 32 = unat outer" using i by auto
  have "i < bs_capacity bs" using i o by (simp add: bs_capacity_def)
  moreover have "words_at m (bs_base bs) (unat (bs_size bs)) ! (i div 32) = - 1"
    using assms(2) o by (simp add: d bs_word_def ALL_USED_def)
  ultimately show "i \<in> bits m bs" by (simp add: bits_def)
qed

lemma find_free_outer_spec:
  assumes "bs_wf bs"
  shows "first_free m bs (unat outer * 32) (find_free_outer m bs outer)"
  using assms
proof (induction m bs outer rule: find_free_outer.induct)
  case (1 m bs outer)
  let ?lo = "unat outer * 32"
  show ?case
  proof (cases "outer < bs_size bs")
    case False
    then have "bs_capacity bs \<le> ?lo" by (simp add: bs_capacity_def word_less_nat_alt)
    then show ?thesis using False by (subst find_free_outer.simps) (simp add: first_free_def)
  next
    case True
    have inc: "unat (outer + 1) = Suc (unat outer)" using True by (rule unat_inc_below)
    have cap: "?lo + 32 \<le> bs_capacity bs"
      using True by (simp add: bs_capacity_def word_less_nat_alt)
    have skip: "first_free m bs ?lo r"
      if "{?lo..<?lo + 32} \<subseteq> bits m bs" "first_free m bs (unat (outer + 1) * 32) r" for r
    proof -
      have inc32: "unat (outer + 1) * 32 = ?lo + 32" using inc by simp
      have "{?lo..<k} \<subseteq> {?lo..<?lo + 32} \<union> {?lo + 32..<k}" for k by auto
      then have split: "{?lo..<k} \<subseteq> bits m bs" if "{?lo + 32..<k} \<subseteq> bits m bs" for k
        using that \<open>{?lo..<?lo + 32} \<subseteq> bits m bs\<close> by blast
      show ?thesis
      proof (cases "{?lo + 32..<bs_capacity bs} \<subseteq> bits m bs")
        case True
        then show ?thesis using that(2) split [OF True] by (simp add: first_free_def inc32)
      next
        case False
        then have r: "?lo + 32 \<le> unat r" "unat r < bs_capacity bs" "unat r \<notin> bits m bs"
          "{?lo + 32..<unat r} \<subseteq> bits m bs"
          using that(2) unfolding first_free_def inc32 by auto
        have "unat r \<in> {?lo..<bs_capacity bs}" using r by simp
        then have "\<not> {?lo..<bs_capacity bs} \<subseteq> bits m bs" using r(3) by blast
        then show ?thesis using r split [OF r(4)] by (simp add: first_free_def)
      qed
    qed
    show ?thesis
    proof (cases "load32 m (bs_word bs outer) = ALL_USED")
      case used: True
      then have "find_free_outer m bs outer = find_free_outer m bs (outer + 1)"
        using True by (subst find_free_outer.simps) simp
      then show ?thesis using skip all_used_word [OF True used] 1(2) [OF True] used 1(3)
        by simp
    next
      case word: False
      note spec = find_free_inner_spec [OF 1(3) True, of 0 m]
      show ?thesis
      proof (cases "find_free_inner m bs outer 0")
        case None
        then have "find_free_outer m bs outer = find_free_outer m bs (outer + 1)"
          using True word by (subst find_free_outer.simps) simp
        then show ?thesis using skip spec None 1(1) [OF True word None] 1(3) by simp
      next
        case (Some r)
        then have "find_free_outer m bs outer = r"
          using True word by (subst find_free_outer.simps) simp
        then show ?thesis using spec Some cap by (auto simp: first_free_def subset_iff)
      qed
    qed
  qed
qed

lemma bitset_find_free_spec: "bs_wf bs \<Longrightarrow> first_free m bs 0 (bitset_find_free m bs)"
  using find_free_outer_spec [of bs m 0] by (simp add: bitset_find_free_def)

section \<open>The interface of a store of numbered slots\<close>

locale slot_store =
  fixes inv :: "'s \<Rightarrow> bool"
    and capacity :: "'s \<Rightarrow> nat"
    and taken :: "'s \<Rightarrow> nat set"
    and claim :: "'s \<Rightarrow> u32 \<Rightarrow> 's"
    and release :: "'s \<Rightarrow> u32 \<Rightarrow> 's"
    and search :: "'s \<Rightarrow> u32"
  assumes capacity_32: "inv s \<Longrightarrow> capacity s < 4294967296"
    and taken_below: "inv s \<Longrightarrow> taken s \<subseteq> {..<capacity s}"
    and inv_claim: "inv s \<Longrightarrow> inv (claim s i)"
    and inv_release: "inv s \<Longrightarrow> inv (release s i)"
    and capacity_claim: "inv s \<Longrightarrow> capacity (claim s i) = capacity s"
    and capacity_release: "inv s \<Longrightarrow> capacity (release s i) = capacity s"
    and taken_claim: "inv s \<Longrightarrow> unat i < capacity s \<Longrightarrow> taken (claim s i) = insert (unat i) (taken s)"
    and taken_release: "inv s \<Longrightarrow> taken (release s i) = taken s - {unat i}"
    and search_full: "inv s \<Longrightarrow> taken s = {..<capacity s} \<Longrightarrow> search s = - 1"
    and search_least: "inv s \<Longrightarrow> n < capacity s \<Longrightarrow> n \<notin> taken s \<Longrightarrow>
      unat (search s) \<le> n \<and> unat (search s) \<notin> taken s"
begin

lemma search_iff:
  assumes "inv s"
  shows "search s = - 1 \<longleftrightarrow> taken s = {..<capacity s}"
proof
  assume full: "search s = - 1"
  show "taken s = {..<capacity s}"
  proof (rule ccontr)
    assume "taken s \<noteq> {..<capacity s}"
    then obtain n where n: "n < capacity s" "n \<notin> taken s"
      using taken_below [OF assms] by auto
    then show False using search_least [OF assms n] full capacity_32 [OF assms] by simp
  qed
qed (rule search_full [OF assms])

lemma search_free:
  assumes "inv s" "search s \<noteq> - 1"
  shows "unat (search s) < capacity s" "unat (search s) \<notin> taken s" "{..<unat (search s)} \<subseteq> taken s"
proof -
  obtain n where n: "n < capacity s" "n \<notin> taken s"
    using assms search_iff [OF assms(1)] taken_below [OF assms(1)] by auto
  show "unat (search s) < capacity s" "unat (search s) \<notin> taken s"
    using search_least [OF assms(1) n] n by auto
  show "{..<unat (search s)} \<subseteq> taken s"
  proof
    fix k assume "k \<in> {..<unat (search s)}"
    then have k: "k < unat (search s)" by simp
    then have cap: "k < capacity s" using \<open>unat (search s) < capacity s\<close> by simp
    show "k \<in> taken s" using search_least [OF assms(1) cap] k by (meson not_less)
  qed
qed

text \<open>Taking the slot the search found makes exactly that slot taken.\<close>

lemma claim_search:
  assumes "inv s" "search s \<noteq> - 1"
  shows "taken (claim s (search s)) = insert (unat (search s)) (taken s)"
  using assms search_free by (intro taken_claim)

lemma release_claim:
  assumes "inv s" "search s \<noteq> - 1"
  shows "taken (release (claim s (search s)) (search s)) = taken s"
  using assms search_free [OF assms] by (simp add: taken_release inv_claim claim_search)

end

definition bs_claim :: "memory \<times> bitset \<Rightarrow> u32 \<Rightarrow> memory \<times> bitset" where
  "bs_claim s i = (bitset_set (fst s) (snd s) i, snd s)"

definition bs_release :: "memory \<times> bitset \<Rightarrow> u32 \<Rightarrow> memory \<times> bitset" where
  "bs_release s i = (bitset_clear (fst s) (snd s) i, snd s)"

interpretation bs: slot_store "\<lambda>s. bs_wf (snd s)" "\<lambda>s. bs_capacity (snd s)"
  "\<lambda>s. bits (fst s) (snd s)" bs_claim bs_release "\<lambda>s. bitset_find_free (fst s) (snd s)"
proof (unfold_locales, goal_cases)
  case (1 s)
  then show ?case by (simp add: bs_wf_def bs_capacity_def)
next
  case (2 s)
  show ?case by (rule bits_below)
next
  case (7 s i)
  then show ?case by (simp add: bs_claim_def bits_bitset_set)
next
  case (8 s i)
  then show ?case by (simp add: bs_release_def bits_bitset_clear)
next
  case (9 s)
  then show ?case using bitset_find_free_spec [of "snd s" "fst s"]
    by (simp add: first_free_def lessThan_atLeast0)
next
  case (10 s n)
  then have ff: "first_free (fst s) (snd s) 0 (bitset_find_free (fst s) (snd s))"
    by (simp add: bitset_find_free_spec)
  have "n \<in> {0..<bs_capacity (snd s)}" using 10(2) by simp
  then have "\<not> {0..<bs_capacity (snd s)} \<subseteq> bits (fst s) (snd s)" using 10(3) by blast
  then have r: "unat (bitset_find_free (fst s) (snd s)) \<notin> bits (fst s) (snd s)"
    "{0..<unat (bitset_find_free (fst s) (snd s))} \<subseteq> bits (fst s) (snd s)"
    using ff unfolding first_free_def by auto
  have "unat (bitset_find_free (fst s) (snd s)) \<le> n"
  proof (rule ccontr)
    assume "\<not> unat (bitset_find_free (fst s) (snd s)) \<le> n"
    then have "n \<in> {0..<unat (bitset_find_free (fst s) (snd s))}" by simp
    then show False using r(2) 10(3) by blast
  qed
  then show ?case using r(1) by simp
qed (simp_all add: bs_claim_def bs_release_def)

section \<open>Properties\<close>

text \<open>
  The single-bit operations.  Seen as the set of the bits that are 1, \<open>bitset_set\<close>
  adds its index (and does nothing out of range), \<open>bitset_clear\<close> removes it,
  \<open>bitset_check_set\<close> is nonzero exactly on the members, and no byte outside the words
  of the set changes.
\<close>

lemma bitset_bit_operations:
  assumes "bs_wf bs"
  shows "bits (bitset_set m bs i) bs = bits m bs \<union> ({unat i} \<inter> {..<bs_capacity bs})
    \<and> bits (bitset_clear m bs i) bs = bits m bs - {unat i}
    \<and> (bitset_check_set m bs i \<noteq> 0 \<longleftrightarrow> unat i \<in> bits m bs)
    \<and> (\<forall>x. x \<notin> bs_region bs \<longrightarrow> bitset_set m bs i x = m x \<and> bitset_clear m bs i x = m x)"
  using assms by (auto simp: bits_bitset_set bits_bitset_clear bitset_check_set_iff bitset_frame)

text \<open>
  \<open>bitset_find_free\<close> returns the least index that is not set, and \<open>-1\<close> exactly
  when all the bits of all the words are set.  (The index may be one of the bits of the
  last word beyond the number of bits asked for when the set was created.)
\<close>

lemma bitset_find_free_correct:
  assumes "bs_wf bs"
  shows "(bitset_find_free m bs = - 1 \<longleftrightarrow> bits m bs = {..<bs_capacity bs})
    \<and> (bitset_find_free m bs \<noteq> - 1 \<longrightarrow>
         unat (bitset_find_free m bs) < bs_capacity bs
         \<and> unat (bitset_find_free m bs) \<notin> bits m bs
         \<and> {..<unat (bitset_find_free m bs)} \<subseteq> bits m bs)"
  using bs.search_iff [of "(m, bs)"] bs.search_free [of "(m, bs)"] assms by auto

end
