(* ===== verification/OrderedArray.thy ===== *)
theory OrderedArray
  imports Strings "HOL-Library.Multiset"
begin

text \<open>
  The array of pointers kept in order of a comparator: \<open>src/src/datastructs/ordered_array.c\<close>.
  The struct is a record; the elements stay in memory at its \<open>array\<close> pointer.  The abstract
  value \<open>oa_list\<close> is the list of the elements; each operation is shown to be an operation on
  that list.  The comparator interface \<open>keyed_comparator\<close> says that the comparison is by a
  key read from a footprint of the element; the facts of the section hold for each of
  the program's two comparators.
\<close>

section \<open>Definitions\<close>

type_synonym type_t = u32
type_synonym less_than_cmp = "memory \<Rightarrow> type_t \<Rightarrow> type_t \<Rightarrow> bool"

record ordered_array =
  oa_array :: u32
  oa_size :: u32
  oa_max_size :: u32
  oa_comparator :: less_than_cmp

definition standard_less_than_cmp :: less_than_cmp where
  "standard_less_than_cmp m a b \<longleftrightarrow> a < b"

definition oa_slot :: "ordered_array \<Rightarrow> nat \<Rightarrow> u32" where
  "oa_slot this i = oa_array this + 4 * of_nat i"

definition ordered_array_create_at ::
    "memory \<Rightarrow> u32 \<Rightarrow> u32 \<Rightarrow> less_than_cmp option \<Rightarrow> memory \<times> ordered_array" where
  "ordered_array_create_at m place sz cmp =
     (memset m place 0 (4 * sz),
      \<lparr>oa_array = place, oa_size = 0, oa_max_size = sz,
       oa_comparator = (case cmp of None \<Rightarrow> standard_less_than_cmp | Some c \<Rightarrow> c)\<rparr>)"

text \<open>The loop of \<open>ordered_array_changed_element\<close> for the indices \<open>i, i-1, \<dots>, 1\<close>.\<close>

fun changed_loop :: "ordered_array \<Rightarrow> memory \<Rightarrow> nat \<Rightarrow> memory" where
  "changed_loop this m 0 = m"
| "changed_loop this m (Suc j) =
     (let x = load32 m (oa_slot this (Suc j)); y = load32 m (oa_slot this j)
      in changed_loop this
           (if oa_comparator this m x y
            then store32 (store32 m (oa_slot this (Suc j)) y) (oa_slot this j) x
            else m) j)"

definition ordered_array_changed_element :: "memory \<Rightarrow> ordered_array \<Rightarrow> memory" where
  "ordered_array_changed_element m this =
     (let i = sint (oa_size this - 1) in if i > 0 then changed_loop this m (nat i) else m)"

definition ordered_array_insert ::
    "memory \<Rightarrow> ordered_array \<Rightarrow> type_t \<Rightarrow> (memory \<times> ordered_array) res" where
  "ordered_array_insert m this val =
     (if oa_size this + 1 > oa_max_size this
      then Inl (Panic ''Tried to insert into a full ordered_array_t'')
      else let m1 = store32 m (oa_slot this (unat (oa_size this))) val;
               this1 = this\<lparr>oa_size := oa_size this + 1\<rparr>
           in Inr (ordered_array_changed_element m1 this1, this1))"

function remove_loop :: "ordered_array \<Rightarrow> memory \<Rightarrow> s32 \<Rightarrow> s32 \<Rightarrow> memory" where
  "remove_loop this m i n =
     (if i < n
      then remove_loop this
             (store32 m (oa_array this + 4 * of_int i)
                (load32 m (oa_array this + 4 * of_int (i + 1)))) (i + 1) n
      else m)"
  by pat_completeness auto
termination
  by (relation "measure (\<lambda>(this, m, i, n). nat (n - i))") auto

declare remove_loop.simps [simp del]

definition ordered_array_remove ::
    "memory \<Rightarrow> ordered_array \<Rightarrow> u32 \<Rightarrow> (memory \<times> ordered_array) res" where
  "ordered_array_remove m this index =
     (if index \<ge> oa_size this then Inl (Panic ''Array index out of bounds'')
      else let this1 = this\<lparr>oa_size := oa_size this - 1\<rparr>
           in Inr (remove_loop this1 m (sint index) (sint (oa_size this1)), this1))"

definition ordered_array_index :: "memory \<Rightarrow> ordered_array \<Rightarrow> u32 \<Rightarrow> type_t res" where
  "ordered_array_index m this index =
     (if index \<ge> oa_size this then Inl (Panic ''Array index out of bounds'')
      else Inr (load32 m (oa_slot this (unat index))))"

section \<open>The list an array holds\<close>

definition oa_list :: "memory \<Rightarrow> ordered_array \<Rightarrow> type_t list" where
  "oa_list m this = words_at m (oa_array this) (unat (oa_size this))"

definition oa_region :: "ordered_array \<Rightarrow> u32 set" where
  "oa_region this = bytes (oa_array this) (4 * unat (oa_max_size this))"

text \<open>The array fits in the address space and does not hold more than its capacity.\<close>

definition oa_wf :: "ordered_array \<Rightarrow> bool" where
  "oa_wf this \<longleftrightarrow> oa_size this \<le> oa_max_size this \<and> unat (oa_max_size this) < 536870912"

lemma oa_wf_bounds:
  assumes "oa_wf this"
  shows "unat (oa_size this) \<le> unat (oa_max_size this)" "unat (oa_max_size this) < 536870912"
  using assms by (auto simp: oa_wf_def word_le_nat_alt)

lemma length_oa_list [simp]: "length (oa_list m this) = unat (oa_size this)"
  by (simp add: oa_list_def)

lemma ordered_array_index_list:
  assumes "index < oa_size this"
  shows "ordered_array_index m this index = Inr (oa_list m this ! unat index)"
  using assms by (simp add: ordered_array_index_def oa_list_def oa_slot_def word_less_nat_alt
      word_le_nat_alt)

lemma oa_list_store:
  assumes "oa_wf this" "i < unat (oa_size this)"
  shows "oa_list (store32 m (oa_slot this i) v) this = (oa_list m this)[i := v]"
  using assms oa_wf_bounds [OF assms(1)] by (simp add: oa_list_def oa_slot_def words_at_store)

lemma changed_loop_int:
  "(if 0 < int k then changed_loop this m (nat (int k)) else m) = changed_loop this m k"
  by (cases "k = 0") (simp_all only: nat_int of_nat_0_less_iff changed_loop.simps neq0_conv if_True
      if_False not_less_zero)

section \<open>One right-to-left pass over a list\<close>

fun sift :: "('a \<Rightarrow> 'a \<Rightarrow> bool) \<Rightarrow> 'a list \<Rightarrow> nat \<Rightarrow> 'a list" where
  "sift lt xs 0 = xs"
| "sift lt xs (Suc j) =
     sift lt (if lt (xs ! Suc j) (xs ! j) then xs[Suc j := xs ! j, j := xs ! Suc j] else xs) j"

lemma length_sift [simp]: "length (sift lt xs k) = length xs"
  by (induction k arbitrary: xs) simp_all

lemma mset_sift: "k < length xs \<Longrightarrow> mset (sift lt xs k) = mset xs"
  by (induction k arbitrary: xs) (simp_all add: mset_swap)

lemma set_sift: "k < length xs \<Longrightarrow> set (sift lt xs k) = set xs"
  using mset_eq_setD mset_sift by blast

lemma sift_cong:
  "k < length xs \<Longrightarrow> (\<And>x y. x \<in> set xs \<Longrightarrow> y \<in> set xs \<Longrightarrow> lt x y = lt' x y) \<Longrightarrow>
     sift lt xs k = sift lt' xs k"
proof (induction k arbitrary: xs)
  case (Suc j)
  let ?ys = "if lt (xs ! Suc j) (xs ! j) then xs[Suc j := xs ! j, j := xs ! Suc j] else xs"
  have "set ?ys = set xs" using Suc.prems by (auto simp: set_swap)
  then have "sift lt ?ys j = sift lt' ?ys j" using Suc.prems by (intro Suc.IH) auto
  moreover have "lt (xs ! Suc j) (xs ! j) = lt' (xs ! Suc j) (xs ! j)" using Suc.prems by simp
  ultimately show ?case by simp
qed simp

lemma sift_swap_at:
  "sift lt (xs @ x # y # zs) (Suc (length xs)) =
     (if lt y x then sift lt (xs @ y # x # zs) (length xs) else sift lt (xs @ x # y # zs) (length xs))"
  by (simp add: nth_append list_update_append)

text \<open>
  A pass from the end of a list that is in order up to its last element puts that element
  in its place, behind the elements with the same key.
\<close>

lemma sift_sorted:
  fixes key :: "'a \<Rightarrow> 'b::linorder"
  shows "sorted (map key xs) \<Longrightarrow>
    sift (\<lambda>x y. key x < key y) (xs @ v # zs) (length xs) =
      filter (\<lambda>x. key x \<le> key v) xs @ v # filter (\<lambda>x. key v < key x) xs @ zs"
proof (induction xs arbitrary: v zs rule: rev_induct)
  case (snoc y ys)
  have ys: "sorted (map key ys)" and le: "\<forall>x\<in>set ys. key x \<le> key y"
    using snoc.prems by (auto simp: sorted_append)
  show ?case
  proof (cases "key v < key y")
    case True
    then show ?thesis using snoc.IH [OF ys, of v "y # zs"] sift_swap_at [of _ ys y v zs]
      by (simp del: sift.simps(2))
  next
    case False
    have le': "\<forall>x\<in>set ys. key x \<le> key v" using le False by fastforce
    have "filter (\<lambda>x. key y < key x) ys = []" "filter (\<lambda>x. key v < key x) ys = []"
      "filter (\<lambda>x. key x \<le> key y) ys = ys" "filter (\<lambda>x. key x \<le> key v) ys = ys"
      using le le' by (auto simp: filter_empty_conv filter_id_conv not_less)
    then show ?thesis
      using snoc.IH [OF ys, of y "v # zs"] sift_swap_at [of _ ys y v zs] False
      by (simp del: sift.simps(2))
  qed
qed simp

text \<open>Whatever the order was, a full pass brings a least element to the front.\<close>

lemma sift_front:
  fixes key :: "'a \<Rightarrow> 'b::linorder"
  shows "k < length xs \<Longrightarrow> i \<le> k \<Longrightarrow> key (sift (\<lambda>x y. key x < key y) xs k ! 0) \<le> key (xs ! i)"
proof (induction k arbitrary: xs i)
  case (Suc k)
  let ?ys = "if key (xs ! Suc k) < key (xs ! k)
             then xs[Suc k := xs ! k, k := xs ! Suc k] else xs"
  have IH: "key (sift (\<lambda>x y. key x < key y) ?ys k ! 0) \<le> key (?ys ! j)" if "j \<le> k" for j
    using that Suc.prems by (intro Suc.IH) auto
  have "\<exists>j\<le>k. key (?ys ! j) \<le> key (xs ! i)"
  proof (cases "i = Suc k")
    case True
    then show ?thesis using Suc.prems by (intro exI [of _ k]) (auto simp: nth_list_update)
  next
    case False
    then show ?thesis using Suc.prems by (intro exI [of _ i]) (auto simp: nth_list_update)
  qed
  then show ?case using IH by (fastforce intro: order_trans)
qed simp

text \<open>A pass changes nothing where neighbours are in order.\<close>

lemma sift_skip:
  "k \<le> l \<Longrightarrow> (\<And>j. k \<le> j \<Longrightarrow> j < l \<Longrightarrow> \<not> lt (xs ! Suc j) (xs ! j)) \<Longrightarrow>
     sift lt xs l = sift lt xs k"
proof (induction l)
  case (Suc l)
  then show ?case by (cases "k = Suc l") auto
qed simp

lemma sift_id:
  fixes key :: "'a \<Rightarrow> 'b::linorder"
  assumes "sorted (map key (take (Suc k) xs))" "k < length xs"
  shows "sift (\<lambda>x y. key x < key y) xs k = xs"
proof -
  have "\<not> key (xs ! Suc j) < key (xs ! j)" if "j < k" for j
    using sorted_nth_mono [OF assms(1), of j "Suc j"] that assms(2) by (simp add: not_less)
  then have "sift (\<lambda>x y. key x < key y) xs k = sift (\<lambda>x y. key x < key y) xs 0"
    by (intro sift_skip) auto
  then show ?thesis by simp
qed

text \<open>
  An element that is too large for its place moves up by one place only, however far it
  should go: the comparisons above it are made before it arrives.
\<close>

lemma sift_grown:
  fixes key :: "'a \<Rightarrow> 'b::linorder"
  assumes sorted: "sorted (map key (xs @ y # zs))" and grown: "key y < key a"
  shows "sift (\<lambda>x y. key x < key y) (xs @ a # y # zs) (Suc (length xs + length zs))
           = xs @ y # a # zs"
proof -
  let ?lt = "\<lambda>x y. key x < key y"
  let ?n = "Suc (length xs)"
  have "\<not> ?lt ((xs @ a # y # zs) ! Suc j) ((xs @ a # y # zs) ! j)"
    if "?n \<le> j" "j < Suc (length xs + length zs)" for j
  proof -
    from \<open>?n \<le> j\<close> obtain i where i: "j = ?n + i" unfolding le_iff_add by (elim exE)
    have len: "Suc i < length (y # zs)" using that(2) unfolding i by simp
    have "sorted (map key (y # zs))" using sorted by (simp add: sorted_append)
    then have "map key (y # zs) ! i \<le> map key (y # zs) ! Suc i"
      using len by (intro sorted_nth_mono) auto
    then have "key ((y # zs) ! i) \<le> key ((y # zs) ! Suc i)"
      using len by (simp only: nth_map Suc_lessD)
    then show ?thesis unfolding i by (simp add: nth_append not_less)
  qed
  then have "sift ?lt (xs @ a # y # zs) (Suc (length xs + length zs))
      = sift ?lt (xs @ a # y # zs) ?n"
    by (intro sift_skip) auto
  also have "\<dots> = sift ?lt (xs @ y # a # zs) (length xs)"
    using grown by (simp only: sift_swap_at if_True)
  also have "\<dots> = xs @ y # a # zs"
    using sorted by (intro sift_id) (auto simp: sorted_append)
  finally show ?thesis .
qed

section \<open>Removing from the array\<close>

lemma sorted_remove_nth:
  assumes "sorted xs" "i < length xs"
  shows "sorted (take i xs @ drop (Suc i) xs)"
  using assms(1) id_take_nth_drop [OF assms(2)]
  by (metis (no_types) sorted_append sorted_simps(2) list.set_intros(2))

lemma mset_remove_nth:
  assumes "i < length xs"
  shows "mset (take i xs @ drop (Suc i) xs) = mset xs - {#xs ! i#}"
proof -
  have "mset xs = mset (take i xs @ xs ! i # drop (Suc i) xs)"
    using id_take_nth_drop [OF assms] by simp
  then show ?thesis by simp
qed

lemma remove_loop_list:
  assumes "i \<le> n" "4 * Suc n \<le> 4294967296"
  shows "words_at (remove_loop this m (int i) (int n)) (oa_array this) n
           = take i (words_at m (oa_array this) (Suc n)) @ drop (Suc i) (words_at m (oa_array this) (Suc n))
       \<and> (\<forall>x. x \<notin> bytes (oa_array this) (4 * n) \<longrightarrow> remove_loop this m (int i) (int n) x = m x)"
  using assms
proof (induction "n - i" arbitrary: i m)
  case 0
  then have "i = n" by simp
  moreover have "remove_loop this m (int n) (int n) = m" by (simp add: remove_loop.simps)
  ultimately show ?case by (simp add: words_at_take)
next
  case (Suc d)
  then have lt: "i < n" by simp
  let ?base = "oa_array this"
  let ?m1 = "store32 m (?base + 4 * of_nat i) (load32 m (?base + 4 * of_nat (Suc i)))"
  let ?xs = "words_at m ?base (Suc n)"
  have step: "remove_loop this m (int i) (int n) = remove_loop this ?m1 (int (Suc i)) (int n)"
    using lt by (subst remove_loop.simps) (simp add: add.commute)
  have list: "words_at ?m1 ?base (Suc n) = ?xs[i := ?xs ! Suc i]"
    using lt Suc.prems by (subst words_at_store) simp_all
  have out: "?m1 x = m x" if "x \<notin> bytes ?base (4 * n)" for x
    using that lt Suc.prems by (intro words_at_outside) auto
  have IH: "words_at (remove_loop this ?m1 (int (Suc i)) (int n)) ?base n
      = take (Suc i) (words_at ?m1 ?base (Suc n)) @ drop (Suc (Suc i)) (words_at ?m1 ?base (Suc n))
     \<and> (\<forall>x. x \<notin> bytes ?base (4 * n) \<longrightarrow> remove_loop this ?m1 (int (Suc i)) (int n) x = ?m1 x)"
    using Suc by (intro Suc.hyps(1)) auto
  have "take (Suc i) (?xs[i := ?xs ! Suc i]) @ drop (Suc (Suc i)) (?xs[i := ?xs ! Suc i])
      = take i ?xs @ drop (Suc i) ?xs"
    using lt by (simp add: take_Suc_conv_app_nth Cons_nth_drop_Suc [symmetric])
  then show ?case using IH step list out by simp
qed

lemma remove_list:
  assumes "oa_wf this" "index < oa_size this"
  obtains m' this' where
    "ordered_array_remove m this index = Inr (m', this')"
    "this' = this\<lparr>oa_size := oa_size this - 1\<rparr>" "oa_wf this'"
    "oa_list m' this' = take (unat index) (oa_list m this) @ drop (Suc (unat index)) (oa_list m this)"
    "\<And>x. x \<notin> oa_region this \<Longrightarrow> m' x = m x"
proof -
  note b = oa_wf_bounds [OF assms(1)]
  have lt: "unat index < unat (oa_size this)" using assms by (simp add: word_less_nat_alt)
  define n where "n = unat (oa_size this) - 1"
  have n: "unat (oa_size this) = Suc n" using lt by (simp add: n_def)
  have u: "unat (oa_size this - 1) = n" using lt n by (simp add: unat_sub32)
  let ?this1 = "this\<lparr>oa_size := oa_size this - 1\<rparr>"
  let ?m1 = "remove_loop ?this1 m (int (unat index)) (int n)"
  have "sint index = int (unat index)" using lt b by (intro sint_small) simp
  moreover have "sint (oa_size ?this1) = int n"
    using u b n sint_small [of "oa_size this - 1"] by simp
  ultimately have eq: "ordered_array_remove m this index = Inr (?m1, ?this1)"
    using assms(2) by (simp only: ordered_array_remove_def Let_def not_le [symmetric] if_False)
  have 1: "words_at ?m1 (oa_array this) n
      = take (unat index) (words_at m (oa_array this) (Suc n))
        @ drop (Suc (unat index)) (words_at m (oa_array this) (Suc n))"
    and 2: "\<forall>x. x \<notin> bytes (oa_array this) (4 * n) \<longrightarrow> ?m1 x = m x"
    using remove_loop_list [of "unat index" n ?this1 m] lt n b by simp_all
  have "bytes (oa_array this) (4 * n) \<subseteq> oa_region this"
    unfolding oa_region_def using b n by (intro bytes_mono) simp
  then have out: "?m1 x = m x" if "x \<notin> oa_region this" for x using that 2 by blast
  have wf: "oa_wf ?this1" using b n u by (simp add: oa_wf_def word_le_nat_alt)
  have list: "oa_list ?m1 ?this1
      = take (unat index) (oa_list m this) @ drop (Suc (unat index)) (oa_list m this)"
    using 1 u n by (simp add: oa_list_def)
  show ?thesis by (rule that [OF eq refl wf list out])
qed

section \<open>The comparator interface\<close>

locale keyed_comparator =
  fixes cmp :: less_than_cmp
    and key :: "memory \<Rightarrow> type_t \<Rightarrow> u32"
    and reads :: "type_t \<Rightarrow> u32 set"
  assumes cmp_key: "cmp m x y \<longleftrightarrow> key m x < key m y"
    and key_cong: "(\<And>b. b \<in> reads x \<Longrightarrow> m b = m' b) \<Longrightarrow> key m x = key m' x"
begin

text \<open>No element's key lies in the array itself.\<close>

definition separate :: "memory \<Rightarrow> ordered_array \<Rightarrow> bool" where
  "separate m this \<longleftrightarrow> (\<forall>x \<in> set (oa_list m this). reads x \<inter> oa_region this = {})"

lemma key_outside:
  assumes "\<And>b. b \<notin> R \<Longrightarrow> m' b = m b" "reads x \<inter> R = {}"
  shows "key m' x = key m x"
  using assms by (intro key_cong) blast

lemma store_in_region:
  assumes "oa_wf this" "i < unat (oa_max_size this)" "b \<notin> oa_region this"
  shows "store32 m (oa_slot this i) v b = m b"
  using assms oa_wf_bounds [OF assms(1)] unfolding oa_slot_def oa_region_def
  by (intro words_at_outside) auto

lemma changed_loop_list:
  assumes "oa_wf this" "oa_comparator this = cmp" "k < unat (oa_size this)"
    "\<forall>x \<in> set (oa_list m this). reads x \<inter> oa_region this = {}"
    "\<forall>x \<in> set (oa_list m this). key m x = key m0 x"
  shows "oa_list (changed_loop this m k) this
           = sift (\<lambda>x y. key m0 x < key m0 y) (oa_list m this) k
       \<and> (\<forall>b. b \<notin> oa_region this \<longrightarrow> changed_loop this m k b = m b)"
  using assms
proof (induction k arbitrary: m)
  case (Suc j)
  note b = oa_wf_bounds [OF \<open>oa_wf this\<close>]
  let ?x = "load32 m (oa_slot this (Suc j))" and ?y = "load32 m (oa_slot this j)"
  let ?xs = "oa_list m this"
  have xy: "?x = ?xs ! Suc j" "?y = ?xs ! j"
    using Suc.prems by (simp_all add: oa_list_def oa_slot_def)
  have mem: "?x \<in> set ?xs" "?y \<in> set ?xs" unfolding xy using Suc.prems by simp_all
  show ?case
  proof (cases "cmp m ?x ?y")
    case False
    then have "\<not> key m0 ?x < key m0 ?y" using mem Suc.prems by (simp add: cmp_key)
    moreover have "changed_loop this m (Suc j) = changed_loop this m j"
      using False Suc.prems by simp
    ultimately show ?thesis using Suc.IH [of m] Suc.prems xy by simp
  next
    case True
    let ?m1 = "store32 (store32 m (oa_slot this (Suc j)) ?y) (oa_slot this j) ?x"
    have step: "changed_loop this m (Suc j) = changed_loop this ?m1 j"
      using True Suc.prems by simp
    have lt: "key m0 ?x < key m0 ?y" using True mem Suc.prems by (simp add: cmp_key)
    have list: "oa_list ?m1 this = ?xs[Suc j := ?xs ! j, j := ?xs ! Suc j]"
      using Suc.prems unfolding xy [symmetric] by (simp add: oa_list_store)
    have out: "?m1 b = m b" if "b \<notin> oa_region this" for b
      using that Suc.prems b by (simp add: store_in_region)
    have set: "set (oa_list ?m1 this) = set ?xs"
      unfolding list using Suc.prems by (intro set_swap) auto
    have keys: "\<forall>x \<in> set (oa_list ?m1 this). key ?m1 x = key m0 x"
    proof
      fix x assume x: "x \<in> set (oa_list ?m1 this)"
      then have "reads x \<inter> oa_region this = {}" using set Suc.prems by simp
      then have "key ?m1 x = key m x" using out by (intro key_outside)
      then show "key ?m1 x = key m0 x" using x set Suc.prems by simp
    qed
    have "oa_list (changed_loop this ?m1 j) this = sift (\<lambda>x y. key m0 x < key m0 y) (oa_list ?m1 this) j
        \<and> (\<forall>b. b \<notin> oa_region this \<longrightarrow> changed_loop this ?m1 j b = ?m1 b)"
      using Suc.prems set keys by (intro Suc.IH) auto
    then show ?thesis using step lt xy out list by simp
  qed
qed simp

text \<open>The pass of \<open>ordered_array_changed_element\<close> is \<open>sift\<close> on the list.\<close>

lemma changed_element_list:
  assumes "oa_wf this" "oa_comparator this = cmp" "separate m this"
  shows "oa_list (ordered_array_changed_element m this) this
           = sift (\<lambda>x y. key m x < key m y) (oa_list m this) (unat (oa_size this) - 1)
       \<and> (\<forall>b. b \<notin> oa_region this \<longrightarrow> ordered_array_changed_element m this b = m b)"
proof (cases "oa_size this = 0")
  case True
  then show ?thesis by (simp add: ordered_array_changed_element_def)
next
  case False
  have pos: "0 < unat (oa_size this)" using False by (simp add: unat_gt_0)
  have u: "unat (oa_size this - 1) = unat (oa_size this) - 1"
    using pos by (simp add: unat_sub32)
  have "unat (oa_size this - 1) < 2147483648" using u oa_wf_bounds [OF assms(1)] by linarith
  then have "sint (oa_size this - 1) = int (unat (oa_size this) - 1)"
    unfolding u [symmetric] by (rule sint_small)
  then have eq: "ordered_array_changed_element m this = changed_loop this m (unat (oa_size this) - 1)"
    unfolding ordered_array_changed_element_def Let_def by (simp only: changed_loop_int)
  show ?thesis
    unfolding eq using assms pos by (intro changed_loop_list) (auto simp: separate_def)
qed

lemma insert_list:
  assumes "oa_wf this" "oa_comparator this = cmp" "oa_size this < oa_max_size this"
    "separate m this" "reads v \<inter> oa_region this = {}"
  obtains m' this' where
    "ordered_array_insert m this v = Inr (m', this')"
    "this' = this\<lparr>oa_size := oa_size this + 1\<rparr>" "oa_wf this'"
    "oa_list m' this' = sift (\<lambda>x y. key m x < key m y) (oa_list m this @ [v]) (unat (oa_size this))"
    "\<And>b. b \<notin> oa_region this \<Longrightarrow> m' b = m b"
proof -
  note b = oa_wf_bounds [OF assms(1)]
  have lt: "unat (oa_size this) < unat (oa_max_size this)"
    using assms by (simp add: word_less_nat_alt)
  let ?this1 = "this\<lparr>oa_size := oa_size this + 1\<rparr>"
  let ?m1 = "store32 m (oa_slot this (unat (oa_size this))) v"
  have u: "unat (oa_size this + 1) = Suc (unat (oa_size this))"
    using b lt by (subst unat_add32) auto
  have wf1: "oa_wf ?this1" using b lt u by (simp add: oa_wf_def word_le_nat_alt)
  have reg: "oa_region ?this1 = oa_region this" by (simp add: oa_region_def)
  have out: "?m1 x = m x" if "x \<notin> oa_region this" for x
    using that assms(1) lt by (simp add: store_in_region)
  have list1: "oa_list ?m1 ?this1 = oa_list m this @ [v]"
  proof -
    have "words_at ?m1 (oa_array this) (Suc (unat (oa_size this)))
        = (words_at m (oa_array this) (Suc (unat (oa_size this))))[unat (oa_size this) := v]"
      unfolding oa_slot_def using b lt by (intro words_at_store) auto
    then show ?thesis using u
      by (simp add: oa_list_def words_at_Suc list_update_append)
  qed
  have keys: "key ?m1 x = key m x" if "x \<in> set (oa_list ?m1 ?this1)" for x
    by (rule key_outside [OF out]) (use that assms(4,5) list1 in \<open>auto simp: separate_def\<close>)
  have sep1: "separate ?m1 ?this1"
    using assms(4,5) list1 reg by (auto simp: separate_def)
  have full: "\<not> oa_size this + 1 > oa_max_size this"
    using u lt by (simp add: word_less_nat_alt)
  let ?m2 = "ordered_array_changed_element ?m1 ?this1"
  have ins: "ordered_array_insert m this v = Inr (?m2, ?this1)"
    using full by (simp add: ordered_array_insert_def Let_def)
  have 1: "oa_list ?m2 ?this1
      = sift (\<lambda>x y. key ?m1 x < key ?m1 y) (oa_list m this @ [v]) (unat (oa_size this))"
    and 2: "\<forall>b. b \<notin> oa_region this \<longrightarrow> ?m2 b = ?m1 b"
    using changed_element_list [OF wf1 _ sep1] assms(2) list1 u reg by simp_all
  have "sift (\<lambda>x y. key ?m1 x < key ?m1 y) (oa_list m this @ [v]) (unat (oa_size this))
      = sift (\<lambda>x y. key m x < key m y) (oa_list m this @ [v]) (unat (oa_size this))"
    using keys list1 by (intro sift_cong) auto
  then show ?thesis using that ins wf1 1 2 out by auto
qed

text \<open>Into an array in order, insertion keeps the order and adds exactly the element.\<close>

lemma insert_sorted_list:
  assumes "sorted (map (key m) (oa_list m this))"
  shows "sift (\<lambda>x y. key m x < key m y) (oa_list m this @ [v]) (unat (oa_size this))
    = filter (\<lambda>x. key m x \<le> key m v) (oa_list m this) @ v #
      filter (\<lambda>x. key m v < key m x) (oa_list m this)"
  using sift_sorted [OF assms, of v "[]"] by simp

lemma insert_sorted:
  assumes "sorted (map (key m) xs)"
  shows "sorted (map (key m) (filter (\<lambda>x. key m x \<le> key m v) xs @ v #
                              filter (\<lambda>x. key m v < key m x) xs))"
  using assms by (auto simp: sorted_append sorted_filter)

end

interpretation standard_cmp: keyed_comparator standard_less_than_cmp "\<lambda>m x. x" "\<lambda>x. {}"
  by unfold_locales (simp_all add: standard_less_than_cmp_def)

section \<open>Properties\<close>

text \<open>
  C33.  Insertion.  Into an array in ascending order with room for one more,
  \<open>ordered_array_insert\<close> puts the value at its place: the array is again in order,
  holds the value besides what it held, and no byte outside it changes.  A full array
  panics.
\<close>

theorem ordered_array_insert_correct:
  assumes "oa_wf this" "oa_comparator this = standard_less_than_cmp" "sorted (oa_list m this)"
  shows "if oa_size this < oa_max_size this
    then \<exists>m' this'. ordered_array_insert m this v = Inr (m', this') \<and> oa_wf this'
           \<and> sorted (oa_list m' this') \<and> mset (oa_list m' this') = add_mset v (mset (oa_list m this))
           \<and> (\<forall>b. b \<notin> oa_region this \<longrightarrow> m' b = m b)
    else ordered_array_insert m this v = Inl (Panic ''Tried to insert into a full ordered_array_t'')"
proof (cases "oa_size this < oa_max_size this")
  case True
  have sep: "standard_cmp.separate m this" by (simp add: standard_cmp.separate_def)
  obtain m' this' where ins: "ordered_array_insert m this v = Inr (m', this')"
      "this' = this\<lparr>oa_size := oa_size this + 1\<rparr>" "oa_wf this'"
      "oa_list m' this' = sift (\<lambda>x y. x < y) (oa_list m this @ [v]) (unat (oa_size this))"
      "\<And>b. b \<notin> oa_region this \<Longrightarrow> m' b = m b"
    by (rule standard_cmp.insert_list [OF assms(1,2) True sep, of v]) simp_all
  have s: "sorted (map (\<lambda>x. x) (oa_list m this))" using assms(3) by simp
  have "sorted (oa_list m' this')"
    using standard_cmp.insert_sorted [OF s, of v] standard_cmp.insert_sorted_list [OF s, of v]
    unfolding ins(4) by simp
  moreover have "mset (oa_list m' this') = add_mset v (mset (oa_list m this))"
    unfolding ins(4) by (simp add: mset_sift)
  ultimately show ?thesis using ins(1,3,5) True by simp
next
  case False
  have "unat (oa_size this) = unat (oa_max_size this)" "unat (oa_max_size this) < 536870912"
    using False assms(1) by (auto simp: oa_wf_def word_less_nat_alt word_le_nat_alt)
  then have "oa_size this + 1 > oa_max_size this" by (simp add: word_less_nat_alt unat_add32)
  then show ?thesis using False by (simp add: ordered_array_insert_def)
qed

definition sample_array :: ordered_array where
  "sample_array = \<lparr>oa_array = 0x100, oa_size = 2, oa_max_size = 4, oa_comparator = standard_less_than_cmp\<rparr>"

definition sample_array_memory :: "u32 \<Rightarrow> memory" where
  "sample_array_memory a = put_at (put_at (\<lambda>a. 0) 0x100 a) 0x104 20"

lemma sample_array_facts:
  "oa_wf sample_array" "oa_comparator sample_array = standard_less_than_cmp"
  "oa_list (sample_array_memory a) sample_array = [a, 20]" "oa_size sample_array = 2"
proof -
  have "load32 m 0x100 = word_at m 0x100" "load32 m 0x104 = word_at m 0x104" for m
    by (simp_all add: word_at_def)
  then show "oa_list (sample_array_memory a) sample_array = [a, 20]"
    by (simp add: sample_array_def oa_list_def words_at_def upt_rec sample_array_memory_def)
qed (simp_all add: oa_wf_def sample_array_def)

theorem ordered_array_insert_correct_witness:
  "\<exists>m' this'. ordered_array_insert (sample_array_memory 10) sample_array 15 = Inr (m', this')
     \<and> sorted (oa_list m' this') \<and> mset (oa_list m' this') = {#10, 15, 20#}"
proof -
  have s: "sorted (oa_list (sample_array_memory 10) sample_array)" by (simp add: sample_array_facts(3))
  have "oa_size sample_array < oa_max_size sample_array" by (simp add: sample_array_def)
  then show ?thesis
    using ordered_array_insert_correct [OF sample_array_facts(1,2) s, of 15]
    unfolding sample_array_facts(3) by (simp add: add_mset_commute) blast
qed

text \<open>
  Removal.  \<open>ordered_array_remove\<close> with a valid index takes out exactly that
  element and keeps the order of the others; another index panics.
\<close>

lemma ordered_array_remove_correct:
  assumes "oa_wf this"
  shows "if index < oa_size this
    then \<exists>m' this'. ordered_array_remove m this index = Inr (m', this') \<and> oa_wf this'
           \<and> oa_list m' this' = take (unat index) (oa_list m this) @ drop (Suc (unat index)) (oa_list m this)
           \<and> (\<forall>b. b \<notin> oa_region this \<longrightarrow> m' b = m b)
    else ordered_array_remove m this index = Inl (Panic ''Array index out of bounds'')"
proof (cases "index < oa_size this")
  case True
  obtain m' this' where rem: "ordered_array_remove m this index = Inr (m', this')"
      "this' = this\<lparr>oa_size := oa_size this - 1\<rparr>" "oa_wf this'"
      "oa_list m' this' = take (unat index) (oa_list m this) @ drop (Suc (unat index)) (oa_list m this)"
      "\<And>x. x \<notin> oa_region this \<Longrightarrow> m' x = m x"
    by (rule remove_list [OF assms True, of m]) simp_all
  show ?thesis using rem(1,3,4,5) True by simp
next
  case False
  then show ?thesis by (simp add: ordered_array_remove_def not_less)
qed

text \<open>
  One pass is not enough.  When one element of an array in order has become larger
  than its successor, \<open>ordered_array_changed_element\<close> moves it up by exactly one place.
  So if it has become larger than its two successors, the array is not in order
  afterwards.
\<close>

lemma changed_element_one_place:
  assumes "oa_wf this" "oa_comparator this = standard_less_than_cmp"
    and "oa_list m this = xs @ a # y # zs" "sorted (xs @ y # zs)" "y < a"
  shows "oa_list (ordered_array_changed_element m this) this = xs @ y # a # zs"
proof -
  have sep: "standard_cmp.separate m this" by (simp add: standard_cmp.separate_def)
  have "unat (oa_size this) - 1 = Suc (length xs + length zs)"
    using arg_cong [OF assms(3), of length] by simp
  then show ?thesis
    using standard_cmp.changed_element_list [OF assms(1,2) sep] sift_grown [of "\<lambda>x. x" xs y zs a] assms(3-5)
    by simp
qed

end
