(* ===== verification/Machine.thy ===== *)
theory Machine
  imports Bitset OrderedArray
begin

text \<open>
  The state of the memory manager: the byte memory and the global variables of
  \<open>src/src/mm/mem.c\<close>, \<open>src/src/mm/frame.c\<close>, \<open>src/src/mm/paging.c\<close> and \<open>src/src/kheap.c\<close>.
  \<open>kernel_heap\<close> is the pointer, null until the heap is up; \<open>heap_obj\<close> is the one
  \<open>heap_t\<close> object it can point to.  Pointers into memory are addresses.
\<close>

section \<open>Constants\<close>

definition PAGE_SIZE :: u32 where "PAGE_SIZE = 4096"
definition PAGE_ADDR_MASK :: u32 where "PAGE_ADDR_MASK = 0xFFFFF000"

definition KHEAP_START :: u32 where "KHEAP_START = 0x0f000000"
definition KHEAP_MAX_ADDRESS :: u32 where "KHEAP_MAX_ADDRESS = 0x0ffff000"
definition KHEAP_INITIAL_SIZE :: u32 where "KHEAP_INITIAL_SIZE = 0x00010000"
definition KHEAP_INDEX_SIZE :: u32 where "KHEAP_INDEX_SIZE = KHEAP_INITIAL_SIZE div 32"
definition KHEAP_MAGIC :: u32 where "KHEAP_MAGIC = 0xDEADBEEF"

section \<open>State\<close>

record heap_t =
  h_index :: ordered_array
  allocated_start :: u32
  allocated_end :: u32
  max_addr :: u32
  pages_user_mode :: s32
  pages_writeable :: s32

record mm_state =
  mem :: memory
  mem_first_unused :: u32
  mem_total_bytes :: u32
  frames :: bitset
  num_frames :: u32
  kernel_directory :: u32
  current_directory :: u32
  cloning_buffer_page :: u32
  kernel_heap :: u32
  heap_obj :: heap_t

text \<open>
  \<open>kmalloc_ap\<close> as \<open>get_page\<close> calls it: a size, and the virtual and physical
  address of the new block.  \<open>get_page\<close> and the heap call each other through it
  (theory \<open>Kmalloc\<close> closes the cycle).
\<close>

type_synonym allocator = "u32 \<Rightarrow> mm_state \<Rightarrow> ((u32 \<times> u32) \<times> mm_state) res"

section \<open>Page alignment\<close>

lemma and_complement: "(x::u32) AND y = x - (x AND NOT y)"
proof -
  have "(x AND y) + (x AND NOT y) = (x AND y) OR (x AND NOT y)"
    by (rule disjunctive_add_eq_or) (auto simp: bit_eq_iff bit_simps)
  also have "\<dots> = x" by (auto simp: bit_eq_iff bit_simps)
  finally show ?thesis by (simp add: eq_diff_eq)
qed

lemma page_offset_mask: "(x::u32) AND NOT PAGE_ADDR_MASK = x mod 4096"
proof -
  have "NOT PAGE_ADDR_MASK = mask 12" by (simp add: PAGE_ADDR_MASK_def mask_eq_exp_minus_1)
  then show ?thesis
    by (simp only: take_bit_eq_mask [symmetric] take_bit_eq_mod) simp
qed

lemma page_base_mask: "(x::u32) AND PAGE_ADDR_MASK = x - x mod 4096"
  using and_complement [of x PAGE_ADDR_MASK] by (simp add: page_offset_mask)

lemma unat_mod_page [simp]: "unat ((x::u32) mod 4096) = unat x mod 4096"
  by (simp add: unat_mod)

lemma mod_page_0: "(x::u32) mod 4096 = 0 \<longleftrightarrow> unat x mod 4096 = 0"
  using unat_eq_0 [of "x mod 4096"] by simp

text \<open>A number as whole pages and an offset, and its next page boundary.\<close>

lemma page_split:
  fixes n :: nat
  obtains q r where "n = 4096 * q + r" "r < 4096" "n mod 4096 = r"
  by (metis mod_less_divisor mult_div_mod_eq zero_less_numeral)

lemma whole_number:
  fixes n k :: nat
  assumes "n mod k = 0"
  obtains q where "n = k * q"
  using that assms by (auto simp: mod_eq_0_iff_dvd dvd_def)

lemma page_next:
  fixes n :: nat
  shows "(n + 4095) div 4096 * 4096 = (if n mod 4096 = 0 then n else n - n mod 4096 + 4096)"
proof -
  obtain q r where n: "n = 4096 * q + r" "r < 4096" "n mod 4096 = r" by (rule page_split)
  have "(n + 4095) div 4096 = (if r = 0 then q else Suc q)"
    using n by (intro div_nat_eqI) auto
  then show ?thesis using n by simp
qed

text \<open>Rounding up to a page, as \<open>expand\<close>, \<open>heap_create\<close> and the linear allocator do it.\<close>

definition page_round_up :: "u32 \<Rightarrow> u32" where
  "page_round_up x =
     (if x AND NOT PAGE_ADDR_MASK \<noteq> 0 then (x AND PAGE_ADDR_MASK) + PAGE_SIZE else x)"

lemma unat_page_base: "unat ((x::u32) - x mod 4096) = unat x - unat x mod 4096"
  by (subst unat_sub32) simp_all

lemma page_round_up_nat:
  assumes "unat x \<le> 4294963200"
  shows "unat (page_round_up x) = (unat x + 4095) div 4096 * 4096"
proof (cases "unat x mod 4096 = 0")
  case True
  then show ?thesis by (simp add: page_round_up_def page_offset_mask mod_page_0 page_next)
next
  case False
  obtain q r where n: "unat x = 4096 * q + r" "r < 4096" "unat x mod 4096 = r" by (rule page_split)
  then have "unat x - unat x mod 4096 + 4096 < 4294967296" using assms False by simp
  then show ?thesis using False
    by (simp add: page_round_up_def page_offset_mask page_base_mask PAGE_SIZE_def mod_page_0
        page_next unat_add32 unat_page_base)
qed

lemma page_round_up_aligned: "unat (page_round_up x) mod 4096 = 0"
proof (cases "unat x mod 4096 = 0")
  case True
  then show ?thesis by (simp add: page_round_up_def page_offset_mask mod_page_0)
next
  case False
  obtain q r where n: "unat x = 4096 * q + r" "r < 4096" "unat x mod 4096 = r" by (rule page_split)
  have "unat (page_round_up x) = (unat x - unat x mod 4096 + 4096) mod 4294967296"
    using False by (simp add: page_round_up_def page_offset_mask page_base_mask PAGE_SIZE_def
        mod_page_0 unat_word_ariths unat_page_base)
  then show ?thesis using n by (simp add: mod_mod_cancel)
qed

end
