(* ===== verification/Frames.thy ===== *)
theory Frames
  imports Machine
begin

text \<open>
  The physical frame allocator of \<open>src/src/mm/frame.c\<close>: the bit set \<open>frames\<close> has a bit for
  every frame in use.  \<open>init_frames\<close> is in theory \<open>Kmalloc\<close>, where memory can be
  allocated.  The proofs rest on the interpretation \<open>bs\<close> of the slot interface.
\<close>

section \<open>Definitions\<close>

definition frame_alloc :: "mm_state \<Rightarrow> (u32 \<times> mm_state) res" where
  "frame_alloc s =
     (let frame = bitset_find_free (mem s) (frames s)
      in if frame = - 1 then Inl (Panic (''No free frames'' @ [CHR 0x0A]))
         else Inr (frame, s\<lparr>mem := bitset_set (mem s) (frames s) frame\<rparr>))"

definition frame_free :: "mm_state \<Rightarrow> u32 \<Rightarrow> mm_state" where
  "frame_free s frame =
     (if frame \<noteq> 0 then s\<lparr>mem := bitset_clear (mem s) (frames s) frame\<rparr> else s)"

section \<open>The frames in use\<close>

definition used_frames :: "mm_state \<Rightarrow> nat set" where
  "used_frames s = bits (mem s) (frames s)"

definition frames_wf :: "mm_state \<Rightarrow> bool" where
  "frames_wf s \<longleftrightarrow> bs_wf (frames s)"

definition frame_capacity :: "mm_state \<Rightarrow> nat" where
  "frame_capacity s = bs_capacity (frames s)"

lemma frame_alloc_Inr:
  "frame_alloc s = Inr (f, s') \<longleftrightarrow>
     f = bitset_find_free (mem s) (frames s) \<and> f \<noteq> - 1
     \<and> s' = s\<lparr>mem := bitset_set (mem s) (frames s) f\<rparr>"
  by (auto simp: frame_alloc_def Let_def)

lemma frame_alloc_cases:
  assumes "frames_wf s"
  shows "(\<exists>f s'. frame_alloc s = Inr (f, s') \<and> unat f < frame_capacity s \<and> unat f \<notin> used_frames s
            \<and> {..<unat f} \<subseteq> used_frames s \<and> used_frames s' = insert (unat f) (used_frames s)
            \<and> s' = s\<lparr>mem := mem s'\<rparr> \<and> (\<forall>x. x \<notin> bs_region (frames s) \<longrightarrow> mem s' x = mem s x))
       \<or> (frame_alloc s = Inl (Panic (''No free frames'' @ [CHR 0x0A])) \<and> used_frames s = {..<frame_capacity s})"
proof -
  let ?p = "(mem s, frames s)" and ?f = "bitset_find_free (mem s) (frames s)"
  have wf: "bs_wf (snd ?p)" using assms by (simp add: frames_wf_def)
  show ?thesis
  proof (cases "?f = - 1")
    case True
    then show ?thesis using bs.search_iff [OF wf]
      by (simp add: frame_alloc_def used_frames_def frame_capacity_def)
  next
    case False
    then show ?thesis
      using bs.search_free [OF wf] bs.claim_search [OF wf] bitset_frame(1) [of "frames s"] wf
      by (simp add: frame_alloc_def Let_def used_frames_def frame_capacity_def bs_claim_def)
  qed
qed

lemma used_frame_free:
  assumes "frames_wf s"
  shows "used_frames (frame_free s f) = (if f = 0 then used_frames s else used_frames s - {unat f})"
  using assms by (simp add: used_frames_def frame_free_def frames_wf_def bits_bitset_clear)

section \<open>Properties\<close>

definition sample_frames :: mm_state where
  "sample_frames = \<lparr>mem = (\<lambda>a. 0), mem_first_unused = 0, mem_total_bytes = 0,
     frames = \<lparr>bs_base = 0x100, bs_size = 1\<rparr>, num_frames = 32, kernel_directory = 0,
     current_directory = 0, cloning_buffer_page = 0, kernel_heap = 0,
     heap_obj = \<lparr>h_index = \<lparr>oa_array = 0, oa_size = 0, oa_max_size = 0,
         oa_comparator = standard_less_than_cmp\<rparr>,
       allocated_start = 0, allocated_end = 0, max_addr = 0, pages_user_mode = 0, pages_writeable = 0\<rparr>\<rparr>"

lemma sample_frames_free: "frames_wf sample_frames" "used_frames sample_frames = {}"
proof -
  have "words_at (\<lambda>a. 0) 0x100 1 = [0]" by (simp add: words_at_def load32_def)
  then show "used_frames sample_frames = {}"
    by (auto simp: sample_frames_def used_frames_def bits_def bs_capacity_def)
qed (simp add: frames_wf_def bs_wf_def sample_frames_def)

text \<open>
  C34.  Freeing a frame just allocated restores the frames in use, except for frame 0,
  which \<open>frame_free\<close> never gives back.
\<close>

theorem frame_alloc_free:
  assumes "frames_wf s" "frame_alloc s = Inr (f, s')"
  shows "used_frames (frame_free s' f) = (if f = 0 then insert 0 (used_frames s) else used_frames s)"
proof -
  have s': "unat f \<notin> used_frames s" "used_frames s' = insert (unat f) (used_frames s)"
    using frame_alloc_cases [OF assms(1)] assms(2) by auto
  moreover have "frames_wf s'" using assms by (auto simp: frames_wf_def frame_alloc_Inr)
  ultimately show ?thesis by (auto simp: used_frame_free)
qed

theorem frame_alloc_free_witness:
  "\<exists>f s'. frame_alloc sample_frames = Inr (f, s') \<and> used_frames (frame_free s' f) = {0}"
proof -
  have "frame_capacity sample_frames = 32"
    by (simp add: frame_capacity_def bs_capacity_def sample_frames_def)
  then have "used_frames sample_frames \<noteq> {..<frame_capacity sample_frames}"
    using sample_frames_free(2) by (metis lessThan_empty_iff zero_neq_numeral)
  then obtain f s' where f: "frame_alloc sample_frames = Inr (f, s')" "{..<unat f} = {}"
    using frame_alloc_cases [OF sample_frames_free(1)] unfolding sample_frames_free(2) by auto
  then have "f = 0" by (simp add: lessThan_empty_iff unat_eq_zero)
  then show ?thesis
    using frame_alloc_free [OF sample_frames_free(1) f(1)] f(1) sample_frames_free(2) by auto
qed

end
