(* ===== verification/Pages.thy ===== *)
theory Pages
  imports Frames
begin

text \<open>
  Page table entries and the page lookup of \<open>src/src/mm/paging.c\<close>.  A \<open>page_t\<close> is the
  32-bit word its bit fields are packed into (\<open>src/src/mm/paging.h\<close>); a page table is
  1024 of them, a page directory is the struct \<open>page_directory_t\<close> at its address:
  1024 table pointers, their 1024 physical addresses, and the physical address of those.
\<close>

section \<open>The bit fields of a page entry\<close>

definition page_present :: "u32 \<Rightarrow> bool" where "page_present w = bit w 0"
definition page_writeable :: "u32 \<Rightarrow> bool" where "page_writeable w = bit w 1"
definition page_user_mode :: "u32 \<Rightarrow> bool" where "page_user_mode w = bit w 2"
definition page_address :: "u32 \<Rightarrow> u32" where "page_address w = drop_bit 12 w"

definition set_flag :: "nat \<Rightarrow> bool \<Rightarrow> u32 \<Rightarrow> u32" where
  "set_flag n b w = (if b then set_bit n w else unset_bit n w)"

text \<open>Assigning the 20-bit field \<open>address\<close> keeps the low 20 bits of the value.\<close>

definition set_page_address :: "u32 \<Rightarrow> u32 \<Rightarrow> u32" where
  "set_page_address a w = push_bit 12 a OR take_bit 12 w"

lemma bit_take_12: "bit (take_bit 12 (w::u32)) n \<longleftrightarrow> n < 12 \<and> bit w n"
  by (auto simp: bit_simps)

lemma page_address_set_flag [simp]: "n < 12 \<Longrightarrow> page_address (set_flag n b w) = page_address w"
  by (rule bit_word_eqI) (auto simp: page_address_def set_flag_def bit_simps)

lemma page_address_set [simp]: "page_address (set_page_address a w) = take_bit 20 a"
  by (rule bit_word_eqI) (auto simp: page_address_def set_page_address_def bit_simps)

lemma page_flags_set_address [simp]:
  "page_present (set_page_address a w) = page_present w"
  "page_writeable (set_page_address a w) = page_writeable w"
  "page_user_mode (set_page_address a w) = page_user_mode w"
  by (simp_all add: page_present_def page_writeable_def page_user_mode_def set_page_address_def
      bit_simps)

lemma page_flags_set_flag [simp]:
  "page_present (set_flag 0 b w) = b" "page_present (set_flag 1 b w) = page_present w"
  "page_present (set_flag 2 b w) = page_present w"
  "page_writeable (set_flag 0 b w) = page_writeable w" "page_writeable (set_flag 1 b w) = b"
  "page_writeable (set_flag 2 b w) = page_writeable w"
  "page_user_mode (set_flag 0 b w) = page_user_mode w"
  "page_user_mode (set_flag 1 b w) = page_user_mode w" "page_user_mode (set_flag 2 b w) = b"
  by (simp_all add: page_present_def page_writeable_def page_user_mode_def set_flag_def bit_simps)

section \<open>Allocating and freeing the frame of a page\<close>

text \<open>The word of the entry after \<open>page_alloc\<close> has filled it in.\<close>

definition page_filled :: "s32 \<Rightarrow> u32 \<Rightarrow> u32 \<Rightarrow> u32" where
  "page_filled writeable frame w =
     set_page_address frame (set_flag 2 True (set_flag 1 (writeable \<noteq> 0) (set_flag 0 True w)))"

definition page_alloc :: "mm_state \<Rightarrow> u32 \<Rightarrow> s32 \<Rightarrow> s32 \<Rightarrow> mm_state res" where
  "page_alloc s page kernel_mode writeable =
     (if page = 0 then Inl NullDereference
      else if page_address (load32 (mem s) page) \<noteq> 0 then Inr s
      else bind_res (frame_alloc s) (\<lambda>(frame, s1).
        Inr (s1\<lparr>mem := store32 (mem s1) page
                          (page_filled writeable frame (load32 (mem s1) page))\<rparr>)))"

definition page_free :: "mm_state \<Rightarrow> u32 \<Rightarrow> mm_state res" where
  "page_free s page =
     (if page = 0 then Inl NullDereference
      else let s1 = frame_free s (page_address (load32 (mem s) page));
               w = load32 (mem s1) page
           in Inr (s1\<lparr>mem := store32 (mem s1) page (set_flag 0 False (set_page_address 0 w))\<rparr>))"

section \<open>Looking a page up\<close>

definition PAGES_PER_TABLE :: u32 where "PAGES_PER_TABLE = 1024"
definition TABLES_PER_DIRECTORY :: u32 where "TABLES_PER_DIRECTORY = 1024"
definition sizeof_page_table :: u32 where "sizeof_page_table = 4096"
definition sizeof_page_directory :: u32 where "sizeof_page_directory = 8196"

definition dir_table :: "u32 \<Rightarrow> u32 \<Rightarrow> u32" where
  "dir_table dir i = dir + 4 * i"

definition dir_table_physical :: "u32 \<Rightarrow> u32 \<Rightarrow> u32" where
  "dir_table_physical dir i = dir + 4096 + 4 * i"

definition dir_ismeta :: "u32 \<Rightarrow> u32" where
  "dir_ismeta dir = dir + 8192"

definition page_entry :: "u32 \<Rightarrow> u32 \<Rightarrow> u32" where
  "page_entry table i = table + 4 * i"

definition get_page ::
    "allocator \<Rightarrow> mm_state \<Rightarrow> u32 \<Rightarrow> bool \<Rightarrow> u32 \<Rightarrow> (u32 \<times> mm_state) res" where
  "get_page kmalloc_ap s address create_missing dir =
     (let address = address div PAGE_SIZE;
          table_index = address div PAGES_PER_TABLE;
          page_index = address mod PAGES_PER_TABLE;
          slot = dir_table dir table_index
      in if load32 (mem s) slot \<noteq> 0
         then Inr (page_entry (load32 (mem s) slot) page_index, s)
         else if create_missing
         then bind_res (kmalloc_ap sizeof_page_table s) (\<lambda>((table, physical), s1).
                let m1 = store32 (mem s1) slot table;
                    m2 = memset m1 (load32 m1 slot) 0 sizeof_page_table;
                    m3 = store32 m2 (dir_table_physical dir table_index) (physical OR 7)
                in Inr (page_entry (load32 m3 slot) page_index, s1\<lparr>mem := m3\<rparr>))
         else Inr (0, s))"

section \<open>Properties\<close>

lemma page_filled_fields:
  "page_present (page_filled w f x)" "page_writeable (page_filled w f x) \<longleftrightarrow> w \<noteq> 0"
  "page_user_mode (page_filled w f x)" "page_address (page_filled w f x) = take_bit 20 f"
  by (simp_all add: page_filled_def page_flags_set_flag [simplified])

lemma take_bit_20_small: "unat f < 1048576 \<Longrightarrow> take_bit 20 (f :: u32) = f"
  by (rule word_unat_eq_iff [THEN iffD2]) (subst unsigned_take_bit_eq, simp add: take_bit_eq_mod)

text \<open>
  \<open>page_alloc\<close> on an entry whose address is not 0 does nothing.  On another one it
  takes the least free frame, and the entry then is present, has that frame as its
  address, is writeable as asked and is a user-mode page, whatever \<open>kernel_mode\<close> says.
\<close>

lemma page_alloc_correct:
  assumes "frames_wf s" "frame_capacity s \<le> 1048576" "page \<noteq> 0"
    and "bytes page 4 \<inter> bs_region (frames s) = {}" "page_alloc s page kernel_mode writeable = Inr s'"
  shows "if page_address (load32 (mem s) page) \<noteq> 0 then s' = s
    else \<exists>f. unat f \<notin> used_frames s \<and> {..<unat f} \<subseteq> used_frames s
      \<and> used_frames s' = insert (unat f) (used_frames s)
      \<and> page_present (load32 (mem s') page) \<and> page_address (load32 (mem s') page) = f
      \<and> (page_writeable (load32 (mem s') page) \<longleftrightarrow> writeable \<noteq> 0)
      \<and> page_user_mode (load32 (mem s') page)"
proof (cases "page_address (load32 (mem s) page) = 0")
  case False
  then show ?thesis using assms(3,5) by (simp add: page_alloc_def)
next
  case True
  obtain f s1 where f: "frame_alloc s = Inr (f, s1)" and
    s': "s' = s1\<lparr>mem := store32 (mem s1) page (page_filled writeable f (load32 (mem s1) page))\<rparr>"
    using assms(3,5) True by (auto simp: page_alloc_def bind_res_eq_Inr)
  have a: "unat f < frame_capacity s" "unat f \<notin> used_frames s" "{..<unat f} \<subseteq> used_frames s"
    "used_frames s1 = insert (unat f) (used_frames s)" "frames s1 = frames s"
    using frame_alloc_cases [OF assms(1)] f by (auto simp: frame_alloc_Inr)
  have "used_frames s' = used_frames s1"
  proof -
    have "bits (mem s') (frames s) = bits (mem s1) (frames s)"
      unfolding s' bits_def using assms(1,4)
      by (simp add: words_at_frame bs_region_def frames_wf_def bs_wf_def Int_commute)
    then show ?thesis unfolding used_frames_def using a(5) s' by simp
  qed
  moreover have "take_bit 20 f = f" using a(1) assms(2) by (intro take_bit_20_small) simp
  ultimately show ?thesis using True a by (auto simp: s' page_filled_fields intro!: exI [of _ f])
qed


text \<open>
  \<open>page_free\<close> undoes \<open>page_alloc\<close>: the frame is free again (unless it is frame 0)
  and the entry is neither present nor has an address.
\<close>

lemma page_free_correct:
  assumes "frames_wf s" "page \<noteq> 0" "bytes page 4 \<inter> bs_region (frames s) = {}"
  shows "\<exists>s'. page_free s page = Inr s' \<and> \<not> page_present (load32 (mem s') page)
    \<and> page_address (load32 (mem s') page) = 0
    \<and> used_frames s' = (if page_address (load32 (mem s) page) = 0 then used_frames s
        else used_frames s - {unat (page_address (load32 (mem s) page))})"
proof -
  let ?f = "page_address (load32 (mem s) page)"
  let ?s1 = "frame_free s ?f"
  define w where "w = set_flag 0 False (set_page_address 0 (load32 (mem ?s1) page))"
  have eq: "page_free s page = Inr (?s1\<lparr>mem := store32 (mem ?s1) page w\<rparr>)"
    using assms(2) by (simp add: page_free_def Let_def w_def)
  have fr: "frames ?s1 = frames s" by (simp add: frame_free_def)
  have "bits (store32 (mem ?s1) page w) (frames s) = bits (mem ?s1) (frames s)"
    unfolding bits_def using assms(1,3)
    by (simp add: words_at_frame bs_region_def frames_wf_def bs_wf_def Int_commute)
  then have "used_frames (?s1\<lparr>mem := store32 (mem ?s1) page w\<rparr>) = used_frames ?s1"
    by (simp add: used_frames_def fr)
  then show ?thesis using used_frame_free [OF assms(1), of ?f] eq by (simp add: w_def)
qed

section \<open>Entries of a directory\<close>

lemma table_index_bound: "unat ((a :: u32) div PAGE_SIZE div PAGES_PER_TABLE) < 1024"
proof -
  have "unat a div 4096 div 1024 < 1024" using unat_lt_32 [of a] by linarith
  then show ?thesis by (simp add: PAGE_SIZE_def PAGES_PER_TABLE_def unat_div)
qed

lemma dir_slots_nat:
  assumes "unat dir + 8196 \<le> 4294967296" "unat i < 1024"
  shows "dir_table dir i = of_nat (unat dir + 4 * unat i)"
    "dir_table_physical dir i = of_nat (unat dir + 4096 + 4 * unat i)"
  by (simp_all add: dir_table_def dir_table_physical_def)

text \<open>
  Creating a page table.  When the directory has no table for an address,
  \<open>get_page\<close> with \<open>create_missing\<close> allocates one, clears it, enters it in the directory
  with its physical address marked present, user and writeable, and returns the entry
  of the address; from then on \<open>get_page\<close> finds that entry without allocating.
\<close>

lemma get_page_creates:
  assumes "kmalloc_ap sizeof_page_table s = Inr ((table, physical), s1)"
    and "load32 (mem s) (dir_table dir (address div PAGE_SIZE div PAGES_PER_TABLE)) = 0"
    and "table \<noteq> 0" "unat dir + 8196 \<le> 4294967296" "unat table + 4096 \<le> 4294967296"
    and "unat table + 4096 \<le> unat dir \<or> unat dir + 8196 \<le> unat table"
  shows "\<exists>s'. get_page kmalloc_ap s address True dir
        = Inr (page_entry table (address div PAGE_SIZE mod PAGES_PER_TABLE), s')
    \<and> load32 (mem s') (dir_table dir (address div PAGE_SIZE div PAGES_PER_TABLE)) = table
    \<and> load32 (mem s') (dir_table_physical dir (address div PAGE_SIZE div PAGES_PER_TABLE)) = physical OR 7
    \<and> (\<forall>i < 1024. load32 (mem s') (page_entry table (of_nat i)) = 0)
    \<and> (\<forall>alloc create. get_page alloc s' address create dir
        = Inr (page_entry table (address div PAGE_SIZE mod PAGES_PER_TABLE), s'))"
proof -
  let ?t = "address div PAGE_SIZE div PAGES_PER_TABLE"
  let ?p = "address div PAGE_SIZE mod PAGES_PER_TABLE"
  let ?m1 = "store32 (mem s1) (dir_table dir ?t) table"
  let ?m2 = "memset ?m1 table 0 sizeof_page_table"
  let ?m3 = "store32 ?m2 (dir_table_physical dir ?t) (physical OR 7)"
  note t = table_index_bound [of address]
  note slots = dir_slots_nat [OF assms(4) t]
  have sz: "unat sizeof_page_table = 4096" by (simp add: sizeof_page_table_def)
  have tab: "table = of_nat (unat table)" by simp
  have slot2: "load32 ?m2 (dir_table dir ?t) = table"
  proof -
    have "bytes (dir_table dir ?t) 4 \<inter> bytes (of_nat (unat table)) 4096 = {}"
      unfolding slots using assms(4-6) t by (intro bytes_disjoint_nat) auto
    then show ?thesis by (simp add: load32_memset_apart sz)
  qed
  have slot3: "load32 ?m3 (dir_table dir ?t) = table"
  proof -
    have "load32 ?m3 (dir_table dir ?t) = load32 ?m2 (dir_table dir ?t)"
      unfolding slots using assms(4) t by (intro load32_store32_nat) auto
    then show ?thesis using slot2 by simp
  qed
  have entry: "load32 ?m3 (page_entry table (of_nat i)) = 0" if i: "i < 1024" for i
  proof -
    have e: "page_entry table (of_nat i) = of_nat (unat table + 4 * i)" by (simp add: page_entry_def)
    have "load32 ?m3 (page_entry table (of_nat i)) = load32 ?m2 (page_entry table (of_nat i))"
      unfolding slots e using assms(4-6) t i by (intro load32_store32_nat) auto
    also have "\<dots> = 0"
    proof (rule load32_memset_zero)
      show "bytes (page_entry table (of_nat i)) 4 \<subseteq> bytes table (unat sizeof_page_table)"
        using elem_bytes [of i 1024 table] i by (simp add: page_entry_def sz)
    qed
    finally show ?thesis .
  qed
  have slot1: "load32 ?m1 (dir_table dir ?t) = table" by simp
  have eq: "get_page kmalloc_ap s address True dir = Inr (page_entry table ?p, s1\<lparr>mem := ?m3\<rparr>)"
    using assms(1,2) slot3 unfolding get_page_def Let_def by (simp add: slot1)
  have again: "get_page alloc (s1\<lparr>mem := ?m3\<rparr>) address create dir = Inr (page_entry table ?p, s1\<lparr>mem := ?m3\<rparr>)"
    for alloc create
    using slot3 assms(3) unfolding get_page_def Let_def by simp
  show ?thesis
    by (rule exI [of _ "s1\<lparr>mem := ?m3\<rparr>"]) (use eq slot3 entry again in simp)
qed

end
