(* ===== verification/Kheap.thy ===== *)
theory Kheap
  imports Pages
begin

text \<open>
  The kernel heap of \<open>src/src/kheap.c\<close>, as written: blocks with a header in front and a
  footer behind, holes listed in an ordered array by size.  Every access is an access of
  the byte memory, in the order the code makes them, so a pointer that aliases another
  block is seen as the machine sees it.  The functions take the page-table allocator they
  reach through \<open>get_page\<close> as their first argument; \<open>Kmalloc\<close> passes the kernel's own.
\<close>

section \<open>Headers and footers\<close>

text \<open>
  \<open>header_t\<close> is the magic number, \<open>is_hole\<close> and the size (12 bytes); \<open>footer_t\<close> is the
  magic number and a pointer to the header (8 bytes).
\<close>

definition sizeof_header :: u32 where "sizeof_header = 12"
definition sizeof_footer :: u32 where "sizeof_footer = 8"

definition hdr_magic :: "memory \<Rightarrow> u32 \<Rightarrow> u32" where "hdr_magic m p = load32 m p"
definition hdr_is_hole :: "memory \<Rightarrow> u32 \<Rightarrow> u32" where "hdr_is_hole m p = load32 m (p + 4)"
definition hdr_size :: "memory \<Rightarrow> u32 \<Rightarrow> u32" where "hdr_size m p = load32 m (p + 8)"
definition ftr_magic :: "memory \<Rightarrow> u32 \<Rightarrow> u32" where "ftr_magic m p = load32 m p"
definition ftr_header :: "memory \<Rightarrow> u32 \<Rightarrow> u32" where "ftr_header m p = load32 m (p + 4)"

definition set_hdr_is_hole :: "memory \<Rightarrow> u32 \<Rightarrow> u32 \<Rightarrow> memory" where
  "set_hdr_is_hole m p v = store32 m (p + 4) v"
definition set_hdr_size :: "memory \<Rightarrow> u32 \<Rightarrow> u32 \<Rightarrow> memory" where
  "set_hdr_size m p v = store32 m (p + 8) v"
definition set_ftr_header :: "memory \<Rightarrow> u32 \<Rightarrow> u32 \<Rightarrow> memory" where
  "set_ftr_header m p v = store32 m (p + 4) v"

definition write_header :: "memory \<Rightarrow> u32 \<Rightarrow> u32 \<Rightarrow> u32 \<Rightarrow> memory" where
  "write_header m p sz is_hole =
     set_hdr_is_hole (store32 (set_hdr_size m p sz) p KHEAP_MAGIC) p is_hole"

definition write_footer :: "memory \<Rightarrow> u32 \<Rightarrow> u32 \<Rightarrow> memory" where
  "write_footer m p header = set_ftr_header (store32 m p KHEAP_MAGIC) p header"

definition header_t_cmp :: less_than_cmp where
  "header_t_cmp m a b \<longleftrightarrow> hdr_size m a < hdr_size m b"

section \<open>Finding a hole\<close>

definition page_align_get_offset :: "u32 \<Rightarrow> u32" where
  "page_align_get_offset addr0 =
     (let addr = addr0 + sizeof_header
      in if addr AND NOT PAGE_ADDR_MASK \<noteq> 0
         then let offset = PAGE_SIZE - (addr AND NOT PAGE_ADDR_MASK)
              in if offset \<le> sizeof_header + sizeof_footer then offset + PAGE_SIZE else offset
         else 0)"

definition hole_fits :: "memory \<Rightarrow> u32 \<Rightarrow> u32 \<Rightarrow> s32 \<Rightarrow> bool" where
  "hole_fits m header sz page_align \<longleftrightarrow>
     (if page_align \<noteq> 0
      then sint (hdr_size m header) - sint (page_align_get_offset header) \<ge> sint sz
      else hdr_size m header \<ge> sz)"

function find_hole_loop :: "memory \<Rightarrow> ordered_array \<Rightarrow> u32 \<Rightarrow> s32 \<Rightarrow> u32 \<Rightarrow> u32 res" where
  "find_hole_loop m index sz page_align i =
     (if i < oa_size index
      then bind_res (ordered_array_index m index i) (\<lambda>header.
             if hole_fits m header sz page_align then Inr i
             else find_hole_loop m index sz page_align (i + 1))
      else Inr (- 1))"
  by pat_completeness auto
termination
  by (relation "measure (\<lambda>(m, index, sz, page_align, i). unat (oa_size index) - unat i)")
     (simp_all add: unat_inc_below, simp_all add: word_less_nat_alt)

declare find_hole_loop.simps [simp del]

definition find_hole :: "mm_state \<Rightarrow> u32 \<Rightarrow> s32 \<Rightarrow> u32 res" where
  "find_hole s sz page_align = find_hole_loop (mem s) (h_index (heap_obj s)) sz page_align 0"

section \<open>Growing the heap\<close>

text \<open>
  The loop over the new pages.  \<open>new_size\<close> has been rounded to whole pages, so
  \<open>i + PAGE_SIZE\<close> does not wrap while \<open>i < new_size\<close> and the counter can be a number.
\<close>

function map_pages :: "allocator \<Rightarrow> mm_state \<Rightarrow> nat \<Rightarrow> nat \<Rightarrow> mm_state res" where
  "map_pages kmalloc_ap s i new_size =
     (if i < new_size
      then bind_res (get_page kmalloc_ap s (allocated_start (heap_obj s) + of_nat i) True
                       (kernel_directory s)) (\<lambda>(page, s1).
           bind_res (page_alloc s1 page (if pages_user_mode (heap_obj s1) = 0 then 1 else 0)
                       (pages_writeable (heap_obj s1))) (\<lambda>s2.
             map_pages kmalloc_ap s2 (i + 4096) new_size))
      else Inr s)"
  by pat_completeness auto
termination
  by (relation "measure (\<lambda>(kmalloc_ap, s, i, new_size). new_size - i)") auto

declare map_pages.simps [simp del]

definition expand :: "allocator \<Rightarrow> mm_state \<Rightarrow> u32 \<Rightarrow> mm_state res" where
  "expand kmalloc_ap s new_size0 =
     (let new_size = page_round_up new_size0;
          old_size = allocated_end (heap_obj s) - allocated_start (heap_obj s)
      in bind_res (assert_k (new_size > old_size)
                     ''Tried to expand heap to a smaller size'') (\<lambda>_.
         bind_res (assert_k (allocated_start (heap_obj s) + new_size \<le> max_addr (heap_obj s))
                     ''Cannot expand heap: not enough free space available'') (\<lambda>_.
         bind_res (map_pages kmalloc_ap s (unat old_size) (unat new_size)) (\<lambda>s1.
           Inr (s1\<lparr>heap_obj := (heap_obj s1)
                     \<lparr>allocated_end := allocated_start (heap_obj s1) + new_size\<rparr>\<rparr>)))))"

text \<open>Operations of the index of the heap, as operations of the state.\<close>

definition index_insert :: "mm_state \<Rightarrow> u32 \<Rightarrow> mm_state res" where
  "index_insert s header =
     bind_res (ordered_array_insert (mem s) (h_index (heap_obj s)) header) (\<lambda>(m, index).
       Inr (s\<lparr>mem := m, heap_obj := (heap_obj s)\<lparr>h_index := index\<rparr>\<rparr>))"

definition index_remove :: "mm_state \<Rightarrow> u32 \<Rightarrow> mm_state res" where
  "index_remove s i =
     bind_res (ordered_array_remove (mem s) (h_index (heap_obj s)) i) (\<lambda>(m, index).
       Inr (s\<lparr>mem := m, heap_obj := (heap_obj s)\<lparr>h_index := index\<rparr>\<rparr>))"

section \<open>Allocating\<close>

text \<open>The branch of \<open>heap_alloc\<close> taken when no hole fits: grow, and make the new hole.\<close>

definition heap_grow :: "allocator \<Rightarrow> mm_state \<Rightarrow> u32 \<Rightarrow> s32 \<Rightarrow> (u32 \<times> mm_state) res" where
  "heap_grow kmalloc_ap s new_size page_align =
     (let old_length = allocated_end (heap_obj s) - allocated_start (heap_obj s);
          old_allocated_end = allocated_end (heap_obj s)
      in bind_res (expand kmalloc_ap s (old_length + new_size + PAGE_SIZE)) (\<lambda>s1.
         let new_length = allocated_end (heap_obj s1) - allocated_start (heap_obj s1);
             m1 = write_header (mem s1) old_allocated_end (new_length - old_length) 1;
             m2 = write_footer m1 (allocated_end (heap_obj s1) - sizeof_footer) old_allocated_end
         in bind_res (index_insert (s1\<lparr>mem := m2\<rparr>) old_allocated_end) (\<lambda>s2.
            bind_res (find_hole s2 new_size page_align) (\<lambda>hole_index.
            bind_res (assert_k (hole_index \<noteq> - 1) ''Failed to find newly allocated hole'') (\<lambda>_.
              Inr (hole_index, s2))))))"

text \<open>
  The hole in front of a page-aligned block.  \<open>left_header\<close> is the pointer
  \<open>orig_hole_header\<close>, so the last assignment changes the size just written.
\<close>

definition split_front ::
    "mm_state \<Rightarrow> u32 \<Rightarrow> u32 \<Rightarrow> u32 \<Rightarrow> (u32 \<times> u32 \<times> mm_state) res" where
  "split_front s hole_index orig_hole_header orig_hole_size =
     (let offset = page_align_get_offset orig_hole_header;
          new_addr = orig_hole_header + offset
      in bind_res (assert_k (offset > sizeof_header + sizeof_footer)
           ''Hit a known bug in heap_alloc() due to page-aligning.'') (\<lambda>_.
         let left_header = orig_hole_header;
             m1 = write_header (mem s) left_header offset 1;
             m2 = write_footer m1 (new_addr - sizeof_footer) left_header;
             m3 = set_hdr_size m2 orig_hole_header (hdr_size m2 orig_hole_header - offset)
         in bind_res (index_remove (s\<lparr>mem := m3\<rparr>) hole_index) (\<lambda>s1.
            bind_res (index_insert s1 orig_hole_header) (\<lambda>s2.
              Inr (new_addr, orig_hole_size - offset, s2)))))"

text \<open>The block, and the hole behind it when there is room for one.\<close>

definition place_block ::
    "mm_state \<Rightarrow> u32 \<Rightarrow> u32 \<Rightarrow> u32 \<Rightarrow> (u32 \<times> mm_state) res" where
  "place_block s orig_hole_addr orig_hole_size new_size =
     (let m1 = write_header (mem s) orig_hole_addr new_size 0;
          block_footer = orig_hole_addr + new_size - sizeof_footer;
          m2 = write_footer m1 block_footer orig_hole_addr;
          result = orig_hole_addr + sizeof_header
      in bind_res (assert_k (block_footer < allocated_end (heap_obj s))
                     ''Fell over the edge of the heap'') (\<lambda>_.
         if orig_hole_size - new_size > 0
         then bind_res (assert_k (orig_hole_size - new_size > sizeof_header + sizeof_footer)
                ''We have free space in the hole, but not enough to make a new one'') (\<lambda>_.
              let right_header = orig_hole_addr + new_size;
                  m3 = write_header m2 right_header (orig_hole_size - new_size) 1;
                  right_footer = orig_hole_addr + orig_hole_size - sizeof_footer;
                  m4 = write_footer m3 right_footer right_header
              in bind_res (assert_k (right_footer < allocated_end (heap_obj s))
                             ''Fell over the edge of the heap'') (\<lambda>_.
                 bind_res (index_insert (s\<lparr>mem := m4\<rparr>) right_header) (\<lambda>s1.
                   Inr (result, s1))))
         else Inr (result, s\<lparr>mem := m2\<rparr>)))"

text \<open>From the hole chosen to the block returned.\<close>

definition carve :: "mm_state \<Rightarrow> u32 \<Rightarrow> u32 \<Rightarrow> s32 \<Rightarrow> (u32 \<times> mm_state) res" where
  "carve s hole_index new_size0 page_align =
     bind_res (ordered_array_index (mem s) (h_index (heap_obj s)) hole_index) (\<lambda>orig_hole_header.
       let orig_hole_size = hdr_size (mem s) orig_hole_header;
           new_size = (if orig_hole_size - new_size0 \<le> sizeof_header + sizeof_footer
                       then orig_hole_size else new_size0)
       in if page_align \<noteq> 0 \<and> (orig_hole_header + sizeof_header) AND NOT PAGE_ADDR_MASK \<noteq> 0
          then bind_res (split_front s hole_index orig_hole_header orig_hole_size)
                 (\<lambda>(addr, hole_size, s1). place_block s1 addr hole_size new_size)
          else bind_res (index_remove s hole_index)
                 (\<lambda>s1. place_block s1 orig_hole_header orig_hole_size new_size))"

definition heap_alloc :: "allocator \<Rightarrow> mm_state \<Rightarrow> u32 \<Rightarrow> s32 \<Rightarrow> (u32 \<times> mm_state) res" where
  "heap_alloc kmalloc_ap s sz page_align =
     (let new_size = sz + sizeof_header + sizeof_footer
      in bind_res (find_hole s new_size page_align) (\<lambda>hole_index.
         if hole_index = - 1
         then bind_res (heap_grow kmalloc_ap s new_size page_align)
                (\<lambda>(hole_index, s1). carve s1 hole_index new_size page_align)
         else carve s hole_index new_size page_align))"

section \<open>Freeing\<close>

text \<open>Joining the freed block to the hole on its left, if there is one.\<close>

definition merge_left :: "mm_state \<Rightarrow> u32 \<Rightarrow> u32 \<Rightarrow> (u32 \<times> bool \<times> mm_state) res" where
  "merge_left s header footer =
     (let m = mem s; left_footer = header - sizeof_footer
      in if left_footer > allocated_start (heap_obj s) \<and> ftr_magic m left_footer = KHEAP_MAGIC
            \<and> hdr_is_hole m (ftr_header m left_footer) \<noteq> 0
         then bind_res (assert_k (hdr_magic m (ftr_header m left_footer) = KHEAP_MAGIC)
                ''left header magic does not match'') (\<lambda>_.
              let m1 = set_ftr_header m footer (ftr_header m left_footer);
                  left = ftr_header m1 left_footer;
                  m2 = set_hdr_size m1 left (hdr_size m1 left + hdr_size m1 header);
                  header1 = ftr_header m2 left_footer;
                  m3 = ordered_array_changed_element m2 (h_index (heap_obj s))
              in Inr (header1, False, s\<lparr>mem := m3\<rparr>))
         else Inr (header, True, s))"

function index_search :: "memory \<Rightarrow> ordered_array \<Rightarrow> u32 \<Rightarrow> u32 \<Rightarrow> u32 res" where
  "index_search m index header i =
     (if i < oa_size index
      then bind_res (ordered_array_index m index i) (\<lambda>e.
             if e = header then Inr i else index_search m index header (i + 1))
      else Inr i)"
  by pat_completeness auto
termination
  by (relation "measure (\<lambda>(m, index, header, i). unat (oa_size index) - unat i)")
     (simp_all add: unat_inc_below, simp_all add: word_less_nat_alt)

declare index_search.simps [simp del]

text \<open>Joining the hole on the right to it, if there is one.\<close>

definition merge_right :: "mm_state \<Rightarrow> u32 \<Rightarrow> mm_state res" where
  "merge_right s header =
     (let m = mem s; right_header = header + hdr_size m header
      in if right_header < allocated_end (heap_obj s) \<and> hdr_magic m right_header = KHEAP_MAGIC
            \<and> hdr_is_hole m right_header \<noteq> 0
         then let m1 = set_hdr_size m header (hdr_size m header + hdr_size m right_header);
                  footer = header + hdr_size m1 header - sizeof_footer
              in bind_res (assert_k (ftr_magic m1 footer = KHEAP_MAGIC)
                   ''right footer magic does not match'') (\<lambda>_.
                 let m2 = set_ftr_header m1 footer header; index = h_index (heap_obj s)
                 in bind_res (index_search m2 index right_header 0) (\<lambda>i.
                    bind_res (assert_k (i \<noteq> oa_size index)
                      ''Cannot find right hole in index'') (\<lambda>_.
                      index_remove (s\<lparr>mem := m2\<rparr>) i)))
         else Inr s)"

definition heap_free :: "mm_state \<Rightarrow> u32 \<Rightarrow> mm_state res" where
  "heap_free s ptr =
     (if ptr = 0 then Inr s
      else let header = ptr - sizeof_header;
               footer = header + hdr_size (mem s) header - sizeof_footer
           in bind_res (assert_k (hdr_magic (mem s) header = KHEAP_MAGIC)
                ''header magic does not match'') (\<lambda>_.
              bind_res (assert_k (ftr_magic (mem s) footer = KHEAP_MAGIC)
                ''footer magic does not match'') (\<lambda>_.
              bind_res (merge_left (s\<lparr>mem := set_hdr_is_hole (mem s) header 1\<rparr>) header footer)
                (\<lambda>(header1, do_add, s1).
              bind_res (merge_right s1 header1) (\<lambda>s2.
                if do_add then index_insert s2 header1 else Inr s2)))))"

end
