(* ===== verification/KheapLayout.thy ===== *)
theory KheapLayout
  imports Kheap
begin

text \<open>
  The abstract heap: the heap's body as a list of blocks, each with its size and what
  it is, and the invariant that ties such a list to the bytes of memory and to the
  index of holes.  \<open>Raw\<close> is the hole \<open>heap_create\<close> makes, which has no footer; \<open>Lost\<close>
  is the hole \<open>heap_alloc\<close> leaves in front of a page-aligned block, whose header says
  that its size is 0 although its footer closes the whole gap.
\<close>

section \<open>Blocks\<close>

datatype blk = Used | Hole | Raw | Lost

type_synonym block = "nat \<times> blk"

fun total :: "block list \<Rightarrow> nat" where
  "total [] = 0"
| "total (b # bs) = fst b + total bs"

lemma total_append [simp]: "total (xs @ ys) = total xs + total ys"
  by (induction xs) simp_all

text \<open>The bytes of a block of size \<open>n\<close> at \<open>a\<close> that are not its payload.\<close>

definition meta :: "nat \<Rightarrow> nat \<Rightarrow> nat set" where
  "meta a n = {a..<a + 12} \<union> {a + n - 8..<a + n}"

definition block_ok :: "memory \<Rightarrow> nat \<Rightarrow> nat \<Rightarrow> blk \<Rightarrow> bool" where
  "block_ok m a n k \<longleftrightarrow>
     20 \<le> n \<and> word_at m a = KHEAP_MAGIC
     \<and> word_at m (a + 4) = (if k = Used then 0 else 1)
     \<and> word_at m (a + 8) = (if k = Lost then 0 else of_nat n)
     \<and> (if k = Raw then word_at m (a + n - 8) \<noteq> KHEAP_MAGIC
        else word_at m (a + n - 8) = KHEAP_MAGIC \<and> word_at m (a + n - 4) = of_nat a)"

fun layout :: "memory \<Rightarrow> nat \<Rightarrow> block list \<Rightarrow> bool" where
  "layout m a [] \<longleftrightarrow> True"
| "layout m a ((n, k) # bs) \<longleftrightarrow> block_ok m a n k \<and> layout m (a + n) bs"

fun metas :: "nat \<Rightarrow> block list \<Rightarrow> nat set" where
  "metas a [] = {}"
| "metas a ((n, k) # bs) = meta a n \<union> metas (a + n) bs"

text \<open>The addresses of the holes, and the allocated blocks as pairs of payload address and size.\<close>

fun holes_of :: "nat \<Rightarrow> block list \<Rightarrow> u32 list" where
  "holes_of a [] = []"
| "holes_of a ((n, k) # bs) = (if k = Used then [] else [of_nat a]) @ holes_of (a + n) bs"

fun payloads :: "nat \<Rightarrow> block list \<Rightarrow> (nat \<times> nat) list" where
  "payloads a [] = []"
| "payloads a ((n, k) # bs) = (if k = Used then [(a + 12, n - 20)] else []) @ payloads (a + n) bs"

lemma layout_append: "layout m a (xs @ ys) \<longleftrightarrow> layout m a xs \<and> layout m (a + total xs) ys"
  by (induction xs arbitrary: a) (auto simp: add.assoc)

lemma holes_of_append: "holes_of a (xs @ ys) = holes_of a xs @ holes_of (a + total xs) ys"
  by (induction xs arbitrary: a) (auto simp: add.assoc)

lemma payloads_append: "payloads a (xs @ ys) = payloads a xs @ payloads (a + total xs) ys"
  by (induction xs arbitrary: a) (auto simp: add.assoc)

lemma metas_append: "metas a (xs @ ys) = metas a xs \<union> metas (a + total xs) ys"
  by (induction xs arbitrary: a) (auto simp: add.assoc)

lemma meta_within: "20 \<le> n \<Longrightarrow> meta a n \<subseteq> {a..<a + n}"
  by (auto simp: meta_def)

lemma metas_within: "layout m a bs \<Longrightarrow> metas a bs \<subseteq> {a..<a + total bs}"
proof (induction bs arbitrary: a)
  case (Cons b bs)
  obtain n k where b: "b = (n, k)" by fastforce
  with Cons.prems have "20 \<le> n" "layout m (a + n) bs" by (auto simp: block_ok_def)
  then show ?case using Cons.IH [of "a + n"] meta_within [of n a] b by force
qed simp

section \<open>Memory that keeps a layout\<close>

lemma block_ok_frame:
  assumes "block_ok m a n k" "same_outside R m m'" "meta a n \<inter> R = {}" "a + n \<le> 4294967296"
  shows "block_ok m' a n k"
proof -
  have n: "20 \<le> n" using assms by (simp add: block_ok_def)
  have "word_at m' q = word_at m q" if "{q..<q + 4} \<subseteq> meta a n" for q
  proof -
    have "q \<in> meta a n" "q + 3 \<in> meta a n" using that by auto
    then have "q + 3 < a + n" using meta_within [OF n, of a] by auto
    then show ?thesis using that assms by (intro same_outside_word [OF assms(2)]) auto
  qed
  moreover have "{a..<a + 4} \<subseteq> meta a n" "{a + 4..<a + 4 + 4} \<subseteq> meta a n"
    "{a + 8..<a + 8 + 4} \<subseteq> meta a n" "{a + n - 8..<a + n - 8 + 4} \<subseteq> meta a n"
    "{a + n - 4..<a + n - 4 + 4} \<subseteq> meta a n"
    using n by (auto simp: meta_def)
  ultimately show ?thesis using assms(1) by (simp add: block_ok_def)
qed

lemma layout_frame:
  "layout m a bs \<Longrightarrow> same_outside R m m' \<Longrightarrow> metas a bs \<inter> R = {} \<Longrightarrow>
     a + total bs \<le> 4294967296 \<Longrightarrow> layout m' a bs"
proof (induction bs arbitrary: a)
  case (Cons b bs)
  obtain n k where b: "b = (n, k)" by fastforce
  then show ?case using Cons by (auto intro!: block_ok_frame [of m a n k R m'] Cons.IH)
qed simp

lemma layout_frame_region:
  assumes "layout m a bs" "same_outside R m m'" "{a..<a + total bs} \<inter> R = {}"
    "a + total bs \<le> 4294967296"
  shows "layout m' a bs"
  using assms(3) metas_within [OF assms(1)] by (intro layout_frame [OF assms(1,2) _ assms(4)]) blast

text \<open>Replacing some blocks by others that fill the same bytes.\<close>

lemma layout_replace:
  assumes lay: "layout m a (pre @ mid @ post)" and new: "layout m' (a + total pre) mid'"
    and tot: "total mid' = total mid" and same: "same_outside R m m'"
    and R: "{a..<a + total pre} \<inter> R = {}"
      "{a + total pre + total mid..<a + total (pre @ mid @ post)} \<inter> R = {}"
    and top: "a + total (pre @ mid @ post) \<le> 4294967296"
  shows "layout m' a (pre @ mid' @ post)"
proof -
  have "layout m' a pre" using lay top
    by (intro layout_frame_region [OF _ same R(1)]) (auto simp: layout_append)
  moreover have "layout m' (a + total pre + total mid) post" using lay top R(2)
    by (intro layout_frame_region [OF _ same]) (auto simp: layout_append add.assoc)
  ultimately show ?thesis using new tot by (simp add: layout_append add.assoc)
qed

section \<open>Where the holes are\<close>

lemma holes_of_range:
  assumes "layout m a bs" "x \<in> set (holes_of a bs)" "a + total bs \<le> 4294967296"
  shows "a \<le> unat x \<and> unat x + 20 \<le> a + total bs"
  using assms
proof (induction bs arbitrary: a)
  case (Cons b bs)
  obtain n k where b: "b = (n, k)" by fastforce
  have n: "20 \<le> n" using Cons.prems b by (simp add: block_ok_def)
  show ?case
  proof (cases "x \<in> set (holes_of (a + n) bs)")
    case True
    then show ?thesis using Cons.IH [of "a + n"] Cons.prems b by auto
  next
    case False
    then have "x = of_nat a" using Cons.prems b by (auto split: if_splits)
    then show ?thesis using Cons.prems b n by (simp add: unat_of_nat32)
  qed
qed simp

lemma holes_of_split:
  assumes "x \<in> set (holes_of a bs)"
  obtains pre n k post where
    "bs = pre @ (n, k) # post" "k \<noteq> Used" "x = of_nat (a + total pre)"
proof -
  have "\<exists>pre n k post. bs = pre @ (n, k) # post \<and> k \<noteq> Used \<and> x = of_nat (a + total pre)"
    using assms
  proof (induction bs arbitrary: a)
    case (Cons b bs)
    obtain n k where b: "b = (n, k)" by fastforce
    show ?case
    proof (cases "x \<in> set (holes_of (a + n) bs)")
      case True
      then obtain pre n' k' post where "bs = pre @ (n', k') # post" "k' \<noteq> Used"
        "x = of_nat (a + n + total pre)" using Cons.IH by blast
      then show ?thesis using b
        by (intro exI [of _ "b # pre"] exI [of _ n'] exI [of _ k'] exI [of _ post])
           (simp add: add.assoc)
    next
      case False
      then have "k \<noteq> Used" "x = of_nat a" using Cons.prems b by (auto split: if_splits)
      then show ?thesis using b
        by (intro exI [of _ "[]"] exI [of _ n] exI [of _ k] exI [of _ bs]) simp
    qed
  qed simp
  then show ?thesis using that by blast
qed

lemma holes_of_distinct:
  "layout m a bs \<Longrightarrow> a + total bs \<le> 4294967296 \<Longrightarrow> distinct (holes_of a bs)"
proof (induction bs arbitrary: a)
  case (Cons b bs)
  obtain n k where b: "b = (n, k)" by fastforce
  have n: "20 \<le> n" using Cons.prems b by (simp add: block_ok_def)
  have "of_nat a \<notin> set (holes_of (a + n) bs)"
    using holes_of_range [of m "a + n" bs "of_nat a"] Cons.prems b n by (auto simp: unat_of_nat32)
  then show ?case using Cons b by (auto simp: add.assoc)
qed simp

section \<open>Disjoint payloads\<close>

lemma payloads_range:
  "layout m a bs \<Longrightarrow> (p, n) \<in> set (payloads a bs) \<Longrightarrow>
     a + 12 \<le> p \<and> p + n + 8 \<le> a + total bs \<and> {p..<p + n} \<inter> metas a bs = {}"
proof (induction bs arbitrary: a)
  case (Cons b bs)
  obtain n' k where b: "b = (n', k)" by fastforce
  have n': "20 \<le> n'" "layout m (a + n') bs" using Cons.prems b by (auto simp: block_ok_def)
  show ?case
  proof (cases "(p, n) \<in> set (payloads (a + n') bs)")
    case True
    then have IH: "a + n' + 12 \<le> p \<and> p + n + 8 \<le> a + n' + total bs
        \<and> {p..<p + n} \<inter> metas (a + n') bs = {}" using Cons.IH n'(2) by blast
    then have "{p..<p + n} \<inter> meta a n' = {}" using meta_within [OF n'(1), of a] by auto
    then show ?thesis using IH b by auto
  next
    case False
    then have pn: "p = a + 12" "n = n' - 20" using Cons.prems b by (auto split: if_splits)
    then have "{p..<p + n} \<inter> meta a n' = {}" using n' by (auto simp: meta_def)
    moreover have "{p..<p + n} \<inter> metas (a + n') bs = {}"
      using metas_within [OF n'(2)] pn n' by fastforce
    ultimately show ?thesis using b pn n' by auto
  qed
qed simp

end
