(* ===== verification/KheapIndex.thy ===== *)
theory KheapIndex
  imports KheapLayout
begin

text \<open>
  The index of holes seen from the heap: the comparator \<open>header_t_cmp\<close> as an
  interpretation of the comparator interface, insertion and removal as operations of
  the heap's state, and what \<open>find_hole\<close> finds.
\<close>

section \<open>The heap's comparator\<close>

definition header_reads :: "u32 \<Rightarrow> u32 set" where
  "header_reads x = bytes (x + 8) 4"

interpretation hdr_cmp: keyed_comparator header_t_cmp hdr_size header_reads
  by unfold_locales (auto simp: header_t_cmp_def hdr_size_def header_reads_def intro!: load32_cong)

lemma hdr_nat:
  "hdr_magic m (of_nat a) = word_at m a" "hdr_is_hole m (of_nat a) = word_at m (a + 4)"
  "hdr_size m (of_nat a) = word_at m (a + 8)" "ftr_magic m (of_nat a) = word_at m a"
  "ftr_header m (of_nat a) = word_at m (a + 4)"
  by (simp_all add: hdr_magic_def hdr_is_hole_def hdr_size_def ftr_magic_def ftr_header_def word_at_def)

lemma hdr_size_frame:
  assumes "same_outside R m m'" "{unat x + 8..<unat x + 12} \<inter> R = {}" "unat x + 12 \<le> 4294967296"
  shows "hdr_size m' x = hdr_size m x"
proof -
  have e: "unat x + 8 + 4 = unat x + 12" by simp
  have "word_at m' (unat x + 8) = word_at m (unat x + 8)"
    using assms(2,3) by (intro same_outside_word [OF assms(1)]) (simp_all only: e)
  then show ?thesis using hdr_nat(3) [of m "unat x"] hdr_nat(3) [of m' "unat x"] by simp
qed

section \<open>A well-formed index\<close>

definition index_list :: "mm_state \<Rightarrow> u32 list" where
  "index_list s = oa_list (mem s) (h_index (heap_obj s))"

definition index_bytes :: "mm_state \<Rightarrow> nat set" where
  "index_bytes s = {unat (oa_array (h_index (heap_obj s)))
     ..<unat (oa_array (h_index (heap_obj s))) + 4 * unat (oa_max_size (h_index (heap_obj s)))}"

definition index_capacity :: "mm_state \<Rightarrow> nat" where
  "index_capacity s = unat (oa_max_size (h_index (heap_obj s)))"

definition heap_start :: "mm_state \<Rightarrow> nat" where
  "heap_start s = unat (allocated_start (heap_obj s))"

definition heap_end :: "mm_state \<Rightarrow> nat" where
  "heap_end s = unat (allocated_end (heap_obj s))"

text \<open>
  The index lies below the heap's body, which lies below \<open>2 ^ 31\<close>, and its entries
  point to headers in the body.
\<close>

definition index_ok :: "mm_state \<Rightarrow> bool" where
  "index_ok s \<longleftrightarrow>
     oa_wf (h_index (heap_obj s)) \<and> oa_comparator (h_index (heap_obj s)) = header_t_cmp
     \<and> unat (oa_array (h_index (heap_obj s))) + 4 * index_capacity s \<le> heap_start s
     \<and> 8 \<le> heap_start s \<and> heap_start s \<le> heap_end s \<and> heap_end s < 2147483648
     \<and> (\<forall>x \<in> set (index_list s). heap_start s \<le> unat x \<and> unat x + 12 \<le> heap_end s)"

definition index_sorted :: "mm_state \<Rightarrow> bool" where
  "index_sorted s \<longleftrightarrow> sorted (map (hdr_size (mem s)) (index_list s))"

text \<open>\<open>resized s s'\<close>: only memory and the number of entries of the index have changed.\<close>

definition resized :: "mm_state \<Rightarrow> mm_state \<Rightarrow> bool" where
  "resized s s' \<longleftrightarrow>
     (\<exists>m n. s' = s\<lparr>mem := m, heap_obj := (heap_obj s)
                    \<lparr>h_index := (h_index (heap_obj s))\<lparr>oa_size := n\<rparr>\<rparr>\<rparr>)"

lemma resizedI:
  "resized s (s\<lparr>mem := m, heap_obj := (heap_obj s)
                \<lparr>h_index := (h_index (heap_obj s))\<lparr>oa_size := n\<rparr>\<rparr>\<rparr>)"
  by (auto simp: resized_def)

lemma resized_refl [simp]: "resized s s" "resized s (s\<lparr>mem := m\<rparr>)"
  unfolding resized_def
  by (rule exI [of _ "mem s"], rule exI [of _ "oa_size (h_index (heap_obj s))"], simp)
     (rule exI [of _ m], rule exI [of _ "oa_size (h_index (heap_obj s))"], simp)

lemma resized_mem: "resized (s\<lparr>mem := m\<rparr>) (s\<lparr>mem := m'\<rparr>)"
  using resized_refl(2) [of "s\<lparr>mem := m\<rparr>" m'] by simp

lemma resized_trans: "resized s s' \<Longrightarrow> resized s' s'' \<Longrightarrow> resized s s''"
  by (clarsimp simp: resized_def) (intro exI, rule refl)

lemma resized_frame:
  assumes "resized s s'"
  shows "index_bytes s' = index_bytes s" "index_capacity s' = index_capacity s"
    "heap_start s' = heap_start s" "heap_end s' = heap_end s"
    "allocated_end (heap_obj s') = allocated_end (heap_obj s)"
    "allocated_start (heap_obj s') = allocated_start (heap_obj s)"
  using assms
  by (auto simp: resized_def index_bytes_def index_capacity_def heap_start_def heap_end_def)

lemma index_fields_mem [simp]:
  "index_bytes (s\<lparr>mem := m\<rparr>) = index_bytes s" "index_capacity (s\<lparr>mem := m\<rparr>) = index_capacity s"
  "heap_start (s\<lparr>mem := m\<rparr>) = heap_start s" "heap_end (s\<lparr>mem := m\<rparr>) = heap_end s"
  by (simp_all add: index_bytes_def index_capacity_def heap_start_def heap_end_def)

lemma index_list_mem:
  assumes "index_ok s" "same_outside R (mem s) m" "index_bytes s \<inter> R = {}"
  shows "index_list (s\<lparr>mem := m\<rparr>) = index_list s"
proof -
  have b: "unat (oa_size (h_index (heap_obj s))) \<le> index_capacity s"
    using assms(1) oa_wf_bounds by (auto simp: index_ok_def index_capacity_def)
  have "{unat (oa_array (h_index (heap_obj s)))
      ..<unat (oa_array (h_index (heap_obj s))) + 4 * unat (oa_size (h_index (heap_obj s)))}
      \<subseteq> index_bytes s"
    using b by (auto simp: index_bytes_def index_capacity_def)
  then have dis: "{unat (oa_array (h_index (heap_obj s)))
      ..<unat (oa_array (h_index (heap_obj s))) + 4 * unat (oa_size (h_index (heap_obj s)))} \<inter> R = {}"
    using assms(3) by blast
  show ?thesis unfolding index_list_def oa_list_def
    using same_outside_words [OF assms(2) dis] b assms(1) by (simp add: index_ok_def)
qed

lemma index_ok_mem:
  assumes "index_ok s" "same_outside R (mem s) m" "index_bytes s \<inter> R = {}"
  shows "index_ok (s\<lparr>mem := m\<rparr>)"
  using assms(1) index_list_mem [OF assms]
  by (simp add: index_ok_def index_capacity_def heap_start_def heap_end_def)

lemma index_separate:
  assumes "index_ok s" "heap_start s \<le> unat x" "unat x + 12 \<le> heap_end s"
  shows "header_reads x \<inter> oa_region (h_index (heap_obj s)) = {}"
proof -
  have u: "unat (x + 8) = unat x + 8"
    using assms by (subst unat_add32) (auto simp: index_ok_def)
  have "unat (x + 8) + 4 \<le> 4294967296" "unat (oa_array (h_index (heap_obj s)))
      + 4 * unat (oa_max_size (h_index (heap_obj s))) \<le> 4294967296"
    using u assms by (auto simp: index_ok_def index_capacity_def)
  then show ?thesis using assms u
    unfolding header_reads_def oa_region_def
    by (auto simp: bytes_no_wrap index_ok_def index_capacity_def simp del: in_bytes)
qed

lemma region_bytes:
  "index_ok s \<Longrightarrow> b \<notin> oa_region (h_index (heap_obj s)) \<longleftrightarrow> unat b \<notin> index_bytes s"
  unfolding oa_region_def index_bytes_def
  by (subst bytes_no_wrap) (auto simp: index_ok_def index_capacity_def)

lemma length_index_list: "length (index_list s) = unat (oa_size (h_index (heap_obj s)))"
  by (simp add: index_list_def)

text \<open>Writing to the index changes no key of a header in the heap's body.\<close>

lemma hdr_size_index_frame:
  assumes "index_ok s" "same_outside (index_bytes s) (mem s) m" "heap_start s \<le> unat x"
    "unat x + 12 \<le> heap_end s"
  shows "hdr_size m x = hdr_size (mem s) x"
  using assms by (intro hdr_size_frame [OF assms(2)])
     (auto simp: index_ok_def index_bytes_def index_capacity_def)

lemma index_keys_frame:
  assumes "index_ok s" "same_outside (index_bytes s) (mem s) m" "set xs \<subseteq> {x. heap_start s \<le> unat x
    \<and> unat x + 12 \<le> heap_end s}"
  shows "map (hdr_size m) xs = map (hdr_size (mem s)) xs"
  using assms(3) hdr_size_index_frame [OF assms(1,2)] by (intro map_cong) auto

lemma index_entries:
  "index_ok s \<Longrightarrow> set (index_list s) \<subseteq> {x. heap_start s \<le> unat x \<and> unat x + 12 \<le> heap_end s}"
  by (auto simp: index_ok_def)

lemma index_insert_ok:
  assumes ok: "index_ok s" and room: "length (index_list s) < index_capacity s"
    and v: "heap_start s \<le> unat v" "unat v + 12 \<le> heap_end s"
  obtains s' where "index_insert s v = Inr s'" "resized s s'" "index_ok s'"
    "index_list s' = sift (\<lambda>x y. hdr_size (mem s) x < hdr_size (mem s) y)
                       (index_list s @ [v]) (length (index_list s))"
    "same_outside (index_bytes s) (mem s) (mem s')"
    "index_sorted s \<Longrightarrow> index_sorted s'"
proof -
  let ?a = "h_index (heap_obj s)"
  have wf: "oa_wf ?a" "oa_comparator ?a = header_t_cmp" using ok by (auto simp: index_ok_def)
  have lt: "oa_size ?a < oa_max_size ?a"
    using room by (simp add: word_less_nat_alt index_capacity_def length_index_list)
  have sep: "hdr_cmp.separate (mem s) ?a"
    unfolding hdr_cmp.separate_def using ok index_separate [OF ok]
    by (auto simp: index_ok_def index_list_def)
  obtain m' a' where ins: "ordered_array_insert (mem s) ?a v = Inr (m', a')"
    and a': "a' = ?a\<lparr>oa_size := oa_size ?a + 1\<rparr>" "oa_wf a'"
    and list: "oa_list m' a' = sift (\<lambda>x y. hdr_size (mem s) x < hdr_size (mem s) y)
      (oa_list (mem s) ?a @ [v]) (unat (oa_size ?a))"
    and out: "\<And>b. b \<notin> oa_region ?a \<Longrightarrow> m' b = mem s b"
    using hdr_cmp.insert_list [OF wf lt sep index_separate [OF ok v]] by blast
  define s' where "s' = s\<lparr>mem := m', heap_obj := (heap_obj s)\<lparr>h_index := a'\<rparr>\<rparr>"
  have 1: "index_insert s v = Inr s'" using ins by (simp add: index_insert_def s'_def)
  have 2: "resized s s'" unfolding s'_def a' by (rule resizedI)
  have 3: "index_list s' = sift (\<lambda>x y. hdr_size (mem s) x < hdr_size (mem s) y)
      (index_list s @ [v]) (length (index_list s))"
    using list by (simp add: index_list_def s'_def)
  have 4: "same_outside (index_bytes s) (mem s) (mem s')"
    using out region_bytes [OF ok] by (intro same_outsideI) (simp add: s'_def)
  have "set (index_list s') = insert v (set (index_list s))" unfolding 3 by (simp add: set_sift)
  then have 5: "index_ok s'"
    using ok v a' by (auto simp: index_ok_def s'_def index_capacity_def heap_start_def heap_end_def)
  have 6: "index_sorted s'" if "index_sorted s"
  proof -
    have sorted: "sorted (map (hdr_size (mem s)) (oa_list (mem s) ?a))"
      using that by (simp add: index_sorted_def index_list_def)
    have "set (index_list s') \<subseteq> {x. heap_start s \<le> unat x \<and> unat x + 12 \<le> heap_end s}"
      using index_entries [OF ok] v unfolding 3 by (auto simp: set_sift)
    then have "map (hdr_size (mem s')) (index_list s') = map (hdr_size (mem s)) (index_list s')"
      by (rule index_keys_frame [OF ok 4])
    moreover have "sorted (map (hdr_size (mem s)) (index_list s'))"
      unfolding 3 length_index_list unfolding index_list_def hdr_cmp.insert_sorted_list [OF sorted]
      by (rule hdr_cmp.insert_sorted [OF sorted])
    ultimately show ?thesis unfolding index_sorted_def by (simp only:)
  qed
  show ?thesis by (rule that [OF 1 2 5 3 4 6])
qed

lemma index_insert_full:
  assumes "index_ok s" "length (index_list s) = index_capacity s"
  shows "index_insert s v = Inl (Panic ''Tried to insert into a full ordered_array_t'')"
proof -
  let ?a = "h_index (heap_obj s)"
  have "unat (oa_size ?a) = unat (oa_max_size ?a)" "unat (oa_max_size ?a) < 536870912"
    using assms oa_wf_bounds [of ?a] by (auto simp: index_ok_def index_capacity_def length_index_list)
  then have "oa_size ?a + 1 > oa_max_size ?a" by (simp add: word_less_nat_alt unat_add32)
  then show ?thesis by (simp add: index_insert_def ordered_array_insert_def)
qed

lemma index_remove_ok:
  assumes ok: "index_ok s" and i: "unat i < length (index_list s)"
  obtains s' where "index_remove s i = Inr s'" "resized s s'" "index_ok s'"
    "index_list s' = take (unat i) (index_list s) @ drop (Suc (unat i)) (index_list s)"
    "same_outside (index_bytes s) (mem s) (mem s')"
    "index_sorted s \<Longrightarrow> index_sorted s'"
proof -
  let ?a = "h_index (heap_obj s)"
  have wf: "oa_wf ?a" "i < oa_size ?a"
    using ok i by (auto simp: index_ok_def length_index_list word_less_nat_alt)
  obtain m' a' where rem: "ordered_array_remove (mem s) ?a i = Inr (m', a')"
    and a': "a' = ?a\<lparr>oa_size := oa_size ?a - 1\<rparr>" "oa_wf a'"
    and list: "oa_list m' a' = take (unat i) (oa_list (mem s) ?a) @ drop (Suc (unat i)) (oa_list (mem s) ?a)"
    and out: "\<And>b. b \<notin> oa_region ?a \<Longrightarrow> m' b = mem s b"
    using remove_list [OF wf] by blast
  define s' where "s' = s\<lparr>mem := m', heap_obj := (heap_obj s)\<lparr>h_index := a'\<rparr>\<rparr>"
  have 1: "index_remove s i = Inr s'" using rem by (simp add: index_remove_def s'_def)
  have 2: "resized s s'" unfolding s'_def a' by (rule resizedI)
  have 3: "index_list s' = take (unat i) (index_list s) @ drop (Suc (unat i)) (index_list s)"
    using list by (simp add: index_list_def s'_def)
  have 4: "same_outside (index_bytes s) (mem s) (mem s')"
    using out region_bytes [OF ok] by (intro same_outsideI) (simp add: s'_def)
  have "set (index_list s') \<subseteq> set (index_list s)"
    unfolding 3 by (auto dest: in_set_takeD in_set_dropD)
  then have 5: "index_ok s'" using ok a'
    by (auto simp: index_ok_def s'_def index_capacity_def heap_start_def heap_end_def)
  have 6: "index_sorted s'" if "index_sorted s"
  proof -
    have "set (index_list s') \<subseteq> {x. heap_start s \<le> unat x \<and> unat x + 12 \<le> heap_end s}"
      using index_entries [OF ok] \<open>set (index_list s') \<subseteq> set (index_list s)\<close> by blast
    then have "map (hdr_size (mem s')) (index_list s') = map (hdr_size (mem s)) (index_list s')"
      by (rule index_keys_frame [OF ok 4])
    moreover have "sorted (map (hdr_size (mem s)) (index_list s'))"
      using that i sorted_remove_nth [of "map (hdr_size (mem s)) (index_list s)" "unat i"]
      unfolding 3 by (simp add: index_sorted_def take_map drop_map)
    ultimately show ?thesis unfolding index_sorted_def by (simp only:)
  qed
  show ?thesis by (rule that [OF 1 2 5 3 4 6])
qed

section \<open>The search for a hole\<close>

lemma find_hole_loop_spec:
  assumes "oa_wf index" "unat i \<le> unat (oa_size index)"
  obtains (none) "find_hole_loop m index sz pa i = Inr (- 1)"
      "\<And>j. unat i \<le> j \<Longrightarrow> j < unat (oa_size index) \<Longrightarrow> \<not> hole_fits m (oa_list m index ! j) sz pa"
  | (some) r where "find_hole_loop m index sz pa i = Inr r" "unat i \<le> unat r"
      "unat r < unat (oa_size index)" "hole_fits m (oa_list m index ! unat r) sz pa"
      "\<And>j. unat i \<le> j \<Longrightarrow> j < unat r \<Longrightarrow> \<not> hole_fits m (oa_list m index ! j) sz pa"
proof -
  have "(find_hole_loop m index sz pa i = Inr (- 1)
        \<and> (\<forall>j. unat i \<le> j \<and> j < unat (oa_size index) \<longrightarrow> \<not> hole_fits m (oa_list m index ! j) sz pa))
      \<or> (\<exists>r. find_hole_loop m index sz pa i = Inr r \<and> unat i \<le> unat r
        \<and> unat r < unat (oa_size index) \<and> hole_fits m (oa_list m index ! unat r) sz pa
        \<and> (\<forall>j. unat i \<le> j \<and> j < unat r \<longrightarrow> \<not> hole_fits m (oa_list m index ! j) sz pa))"
    using assms
  proof (induction m index sz pa i rule: find_hole_loop.induct)
    case (1 m index sz pa i)
    show ?case
    proof (cases "i < oa_size index")
      case False
      then have "find_hole_loop m index sz pa i = Inr (- 1)"
        by (subst find_hole_loop.simps) simp
      then show ?thesis using False by (intro disjI1) (auto simp: word_less_nat_alt)
    next
      case True
      note idx = ordered_array_index_list [OF True, of m]
      have inc: "unat (i + 1) = Suc (unat i)" using True by (rule unat_inc_below)
      show ?thesis
      proof (cases "hole_fits m (oa_list m index ! unat i) sz pa")
        case fits: True
        then have "find_hole_loop m index sz pa i = Inr i"
          using True idx by (subst find_hole_loop.simps) simp
        then show ?thesis using fits True by (auto simp: word_less_nat_alt)
      next
        case nofit: False
        have eq: "find_hole_loop m index sz pa i = find_hole_loop m index sz pa (i + 1)"
          using True idx nofit by (subst find_hole_loop.simps) simp
        have "unat (i + 1) \<le> unat (oa_size index)" using True inc by (simp add: word_less_nat_alt)
        note IH = 1(1) [OF True nofit 1(2) this]
        have skip: "\<not> hole_fits m (oa_list m index ! j) sz pa"
          if "unat i \<le> j" "Suc (unat i) \<le> j \<Longrightarrow> \<not> hole_fits m (oa_list m index ! j) sz pa" for j
          using that nofit by (cases "j = unat i") auto
        show ?thesis using IH skip unfolding eq inc by (metis Suc_leD)
      qed
    qed
  qed
  then show ?thesis using none some by blast
qed

lemma find_hole_cases:
  assumes "index_ok s"
  obtains (none) "find_hole s sz pa = Inr (- 1)"
      "\<And>x. x \<in> set (index_list s) \<Longrightarrow> \<not> hole_fits (mem s) x sz pa"
  | (some) r where "find_hole s sz pa = Inr r" "r \<noteq> - 1" "unat r < length (index_list s)"
      "hole_fits (mem s) (index_list s ! unat r) sz pa"
      "\<And>j. j < unat r \<Longrightarrow> \<not> hole_fits (mem s) (index_list s ! j) sz pa"
proof -
  let ?a = "h_index (heap_obj s)"
  have wf: "oa_wf ?a" using assms by (simp add: index_ok_def)
  show ?thesis
  proof (rule find_hole_loop_spec [of ?a 0 "mem s" sz pa])
    assume "find_hole_loop (mem s) ?a sz pa 0 = Inr (- 1)"
      "\<And>j. unat 0 \<le> j \<Longrightarrow> j < unat (oa_size ?a) \<Longrightarrow> \<not> hole_fits (mem s) (oa_list (mem s) ?a ! j) sz pa"
    then show ?thesis by (intro none) (auto simp: find_hole_def index_list_def in_set_conv_nth)
  next
    fix r assume r: "find_hole_loop (mem s) ?a sz pa 0 = Inr r" "unat r < unat (oa_size ?a)"
      "hole_fits (mem s) (oa_list (mem s) ?a ! unat r) sz pa"
      "\<And>j. unat 0 \<le> j \<Longrightarrow> j < unat r \<Longrightarrow> \<not> hole_fits (mem s) (oa_list (mem s) ?a ! j) sz pa"
    then have "r \<noteq> - 1" using oa_wf_bounds [OF wf] by auto
    then show ?thesis using r by (intro some) (auto simp: find_hole_def index_list_def)
  qed (use wf in auto)
qed

end
