(* ===== verification/KheapAlloc.thy ===== *)
theory KheapAlloc
  imports KheapIndex
begin

text \<open>
  The heap invariant and the correctness of \<open>heap_alloc\<close> on a hole that is already in
  the heap: the block returned, the hole left behind it, what memory keeps.
\<close>

section \<open>The invariant\<close>

definition heap_inv :: "mm_state \<Rightarrow> block list \<Rightarrow> bool" where
  "heap_inv s bs \<longleftrightarrow>
     index_ok s \<and> heap_start s + total bs = heap_end s \<and> layout (mem s) (heap_start s) bs
     \<and> mset (index_list s) = mset (holes_of (heap_start s) bs)
     \<and> (\<forall>b \<in> set (tl bs). snd b \<noteq> Raw)"

lemma heap_invD:
  assumes "heap_inv s bs"
  shows "index_ok s" "heap_start s + total bs = heap_end s" "layout (mem s) (heap_start s) bs"
    "mset (index_list s) = mset (holes_of (heap_start s) bs)" "heap_end s < 2147483648"
  using assms by (auto simp: heap_inv_def index_ok_def)

lemma index_below_body:
  "index_ok s \<Longrightarrow> heap_start s \<le> a \<Longrightarrow> index_bytes s \<inter> {a..<b} = {}"
  by (auto simp: index_ok_def index_bytes_def index_capacity_def)

section \<open>Writing a block\<close>

lemma write_header_nat:
  "write_header m (of_nat a) v h = put_at (put_at (put_at m (a + 8) v) a KHEAP_MAGIC) (a + 4) h"
  by (simp add: write_header_def set_hdr_is_hole_def set_hdr_size_def put_at_def)

lemma write_footer_nat:
  "write_footer m (of_nat f) h = put_at (put_at m f KHEAP_MAGIC) (f + 4) h"
  by (simp add: write_footer_def set_ftr_header_def put_at_def)

definition write_block :: "memory \<Rightarrow> nat \<Rightarrow> nat \<Rightarrow> u32 \<Rightarrow> memory" where
  "write_block m a n h =
     write_footer (write_header m (of_nat a) (of_nat n) h) (of_nat (a + n - 8)) (of_nat a)"

lemma write_block_puts:
  assumes "n = k + 20"
  shows "write_block m a n h =
    put_at (put_at (put_at (put_at (put_at m (a + 8) (of_nat n)) a KHEAP_MAGIC) (a + 4) h)
      (a + k + 12) KHEAP_MAGIC) (a + k + 16) (of_nat a)"
proof -
  have f: "a + n - 8 = a + k + 12" "a + k + 12 + 4 = a + k + 16" using assms by auto
  show ?thesis by (simp only: write_block_def write_header_nat f write_footer_nat)
qed

lemma write_block_words:
  assumes "n = k + 20" "a + n \<le> 4294967296"
  shows "word_at (write_block m a n h) a = KHEAP_MAGIC" "word_at (write_block m a n h) (a + 4) = h"
    "word_at (write_block m a n h) (a + 8) = of_nat n"
    "word_at (write_block m a n h) (a + k + 12) = KHEAP_MAGIC"
    "word_at (write_block m a n h) (a + k + 16) = of_nat a"
  unfolding write_block_puts [OF assms(1)] using assms by simp_all

lemma write_block_ok:
  assumes "20 \<le> n" "a + n \<le> 4294967296"
  shows "block_ok (write_block m a n 0) a n Used" "block_ok (write_block m a n 1) a n Hole"
    "same_outside (meta a n) m (write_block m a n h)"
proof -
  obtain k where k: "n = k + 20" using assms(1) by (metis le_Suc_ex add.commute)
  have f: "a + n - 8 = a + k + 12" "a + n - 4 = a + k + 16" using k by auto
  show "block_ok (write_block m a n 0) a n Used" "block_ok (write_block m a n 1) a n Hole"
    using assms(1) write_block_words [OF k assms(2)] by (simp_all add: block_ok_def f)
  show "same_outside (meta a n) m (write_block m a n h)"
    unfolding write_block_puts [OF k]
    by (intro same_outside_put_chain same_outside_refl) (use assms k in \<open>auto simp: meta_def\<close>)
qed

lemma footer_address:
  "8 \<le> a + n \<Longrightarrow> (of_nat a + of_nat n - 8 :: u32) = of_nat (a + n - 8)"
  by (simp add: of_nat_diff)

lemma of_nat_less_u32:
  "a < 4294967296 \<Longrightarrow> b < 4294967296 \<Longrightarrow> (of_nat a :: u32) < of_nat b \<longleftrightarrow> a < b"
  by (simp add: word_less_nat_alt unat_of_nat32)

text \<open>The hole behind the block, if the chosen hole is larger than the block.\<close>

definition remainder :: "nat \<Rightarrow> nat \<Rightarrow> block list" where
  "remainder hsz n = (if n < hsz then [(hsz - n, Hole)] else [])"

lemma total_remainder [simp]: "n \<le> hsz \<Longrightarrow> total (remainder hsz n) = hsz - n"
  by (simp add: remainder_def)

lemma place_block_eq:
  assumes n: "20 \<le> n" "n \<le> hsz" "hsz = n \<or> n + 20 < hsz" and a: "a + hsz \<le> heap_end s"
    and e: "heap_end s < 2147483648"
  shows "place_block s (of_nat a) (of_nat hsz) (of_nat n) =
    (if n < hsz
     then bind_res (index_insert (s\<lparr>mem := write_block (write_block (mem s) a n 0) (a + n) (hsz - n) 1\<rparr>)
                      (of_nat (a + n))) (\<lambda>s1. Inr (of_nat (a + 12), s1))
     else Inr (of_nat (a + 12), s\<lparr>mem := write_block (mem s) a n 0\<rparr>))"
proof -
  have foot: "(of_nat a + of_nat n - 8 :: u32) = of_nat (a + n - 8)"
    "(of_nat a + of_nat hsz - 8 :: u32) = of_nat (a + hsz - 8)"
    using n by (auto intro: footer_address)
  have edge: "allocated_end (heap_obj s) = of_nat (heap_end s)" by (simp add: heap_end_def)
  have below: "(of_nat (a + n - 8) :: u32) < of_nat (heap_end s)"
    "(of_nat (a + hsz - 8) :: u32) < of_nat (heap_end s)"
    by (rule of_nat_less_u32 [THEN iffD2]; use n a e in linarith)+
  have diff: "(of_nat hsz - of_nat n :: u32) = of_nat (hsz - n)" using n by (simp add: of_nat_diff)
  have pos: "(of_nat (hsz - n) :: u32) > 0 \<longleftrightarrow> n < hsz"
    using of_nat_less_u32 [of 0 "hsz - n"] a e by simp
  have big: "n < hsz \<Longrightarrow> (of_nat (hsz - n) :: u32) > 20"
    using of_nat_less_u32 [of 20 "hsz - n"] n a e by simp
  have top: "(a + n) + (hsz - n) - 8 = a + hsz - 8" using n by simp
  show ?thesis
    using below pos big
    unfolding place_block_def Let_def sizeof_header_def sizeof_footer_def foot diff edge
      write_block_def top
    by (simp add: add.commute)
qed

lemma index_list_updated:
  assumes "index_ok s" "same_outside {a..<b} (mem s) m" "heap_start s \<le> a"
  shows "index_ok (s\<lparr>mem := m\<rparr>)" "index_list (s\<lparr>mem := m\<rparr>) = index_list s"
  using index_below_body [OF assms(1,3), of b] assms
  by (auto intro: index_ok_mem index_list_mem)

text \<open>Entries outside the bytes written keep their keys.\<close>

lemma index_sorted_updated:
  assumes ok: "index_ok s" and same: "same_outside {a..<b} (mem s) m" and a: "heap_start s \<le> a"
    and apart: "\<forall>x \<in> set (index_list s). unat x + 12 \<le> a \<or> b \<le> unat x"
    and sorted: "index_sorted s"
  shows "index_sorted (s\<lparr>mem := m\<rparr>)"
proof -
  have "hdr_size m x = hdr_size (mem s) x" if "x \<in> set (index_list s)" for x
    using that apart index_entries [OF ok] ok
    by (intro hdr_size_frame [OF same]) (auto simp: index_ok_def)
  then have "map (hdr_size m) (index_list s) = map (hdr_size (mem s)) (index_list s)"
    by (intro map_cong) auto
  moreover have "mem (s\<lparr>mem := m\<rparr>) = m" by simp
  ultimately show ?thesis
    using sorted index_list_updated(2) [OF ok same a] by (simp only: index_sorted_def)
qed

lemma place_block_ok:
  assumes ok: "index_ok s" and n: "20 \<le> n" "n \<le> hsz" "hsz = n \<or> n + 20 < hsz"
    and a: "heap_start s \<le> a" "a + hsz \<le> heap_end s"
    and room: "n < hsz \<Longrightarrow> length (index_list s) < index_capacity s"
  obtains s' where
    "place_block s (of_nat a) (of_nat hsz) (of_nat n) = Inr (of_nat (a + 12), s')"
    "resized s s'" "index_ok s'" "layout (mem s') a ((n, Used) # remainder hsz n)"
    "mset (index_list s') = mset (index_list s) + mset (holes_of (a + n) (remainder hsz n))"
    "same_outside (index_bytes s \<union> metas a ((n, Used) # remainder hsz n)) (mem s) (mem s')"
    "index_sorted s \<Longrightarrow> \<forall>x \<in> set (index_list s). unat x + 12 \<le> a \<or> a + hsz \<le> unat x \<Longrightarrow>
       index_sorted s'"
proof -
  have e: "heap_end s < 2147483648" using ok by (simp add: index_ok_def)
  note eq = place_block_eq [OF n a(2) e]
  let ?m1 = "write_block (mem s) a n 0"
  have 1: "block_ok ?m1 a n Used" "same_outside (meta a n) (mem s) ?m1"
    using write_block_ok [of n a "mem s"] n a e by auto
  have in1: "same_outside {a..<a + hsz} (mem s) ?m1"
    using 1(2) meta_within [OF n(1), of a] n by (auto elim!: same_outside_mono)
  show ?thesis
  proof (cases "n < hsz")
    case False
    then have rem: "remainder hsz n = []" by (simp add: remainder_def)
    show ?thesis
    proof (rule that)
      show "place_block s (of_nat a) (of_nat hsz) (of_nat n)
          = Inr (of_nat (a + 12), s\<lparr>mem := ?m1\<rparr>)"
        unfolding eq using False by simp
      show "same_outside (index_bytes s \<union> metas a ((n, Used) # remainder hsz n)) (mem s)
          (mem (s\<lparr>mem := ?m1\<rparr>))"
        using 1(2) by (auto simp: rem elim!: same_outside_mono)
      show "index_sorted (s\<lparr>mem := ?m1\<rparr>)"
        if "index_sorted s" "\<forall>x \<in> set (index_list s). unat x + 12 \<le> a \<or> a + hsz \<le> unat x"
        using index_sorted_updated [OF ok in1 a(1) that(2,1)] .
    qed (use 1 rem index_list_updated [OF ok in1 a(1)] in simp_all)
  next
    case True
    let ?m2 = "write_block ?m1 (a + n) (hsz - n) 1"
    have r: "20 \<le> hsz - n" "(a + n) + (hsz - n) = a + hsz" using n True by auto
    have 2: "block_ok ?m2 (a + n) (hsz - n) Hole" "same_outside (meta (a + n) (hsz - n)) ?m1 ?m2"
      using write_block_ok [of "hsz - n" "a + n" ?m1] r a e by auto
    have in2: "same_outside {a..<a + hsz} (mem s) ?m2"
    proof (rule same_outside_trans_in [OF in1 same_outside_mono [OF 2(2)]])
      show "meta (a + n) (hsz - n) \<subseteq> {a..<a + hsz}"
        using meta_within [OF r(1), of "a + n"] unfolding r(2) by fastforce
    qed
    have used: "block_ok ?m2 a n Used"
    proof (rule block_ok_frame [OF 1(1) 2(2)])
      show "meta a n \<inter> meta (a + n) (hsz - n) = {}"
        using meta_within [OF n(1), of a] meta_within [OF r(1), of "a + n"] by fastforce
    qed (use a e n in auto)
    let ?s2 = "s\<lparr>mem := ?m2\<rparr>"
    note ok2 = index_list_updated [OF ok in2 a(1)]
    have fr: "resized s ?s2" by simp
    note frm = resized_frame [OF fr]
    have u: "unat (of_nat (a + n) :: u32) = a + n" using a n e by (intro unat_of_nat32) auto
    have v: "heap_start ?s2 \<le> unat (of_nat (a + n) :: u32)"
      "unat (of_nat (a + n) :: u32) + 12 \<le> heap_end ?s2"
      unfolding u frm using a n True by auto
    have len: "length (index_list ?s2) < index_capacity ?s2"
      unfolding ok2(2) frm using room [OF True] .
    obtain s' where s': "index_insert ?s2 (of_nat (a + n)) = Inr s'" "resized ?s2 s'" "index_ok s'"
      "index_list s' = sift (\<lambda>x y. hdr_size (mem ?s2) x < hdr_size (mem ?s2) y)
         (index_list ?s2 @ [of_nat (a + n)]) (length (index_list ?s2))"
      "same_outside (index_bytes ?s2) (mem ?s2) (mem s')" "index_sorted ?s2 \<Longrightarrow> index_sorted s'"
      using index_insert_ok [OF ok2(1) len v] by blast
    have rem: "remainder hsz n = [(hsz - n, Hole)]" using True by (simp add: remainder_def)
    have lay2: "layout ?m2 a ((n, Used) # remainder hsz n)"
      using used 2(1) rem by simp
    have same': "same_outside (index_bytes s) ?m2 (mem s')" using s'(5) frm by simp
    show ?thesis
    proof (rule that)
      show "place_block s (of_nat a) (of_nat hsz) (of_nat n) = Inr (of_nat (a + 12), s')"
        unfolding eq using True s'(1) by simp
      show "resized s s'" using resized_trans [OF fr s'(2)] .
      show "index_ok s'" by (rule s'(3))
      show "layout (mem s') a ((n, Used) # remainder hsz n)"
      proof (rule layout_frame_region [OF lay2 same'])
        show "{a..<a + total ((n, Used) # remainder hsz n)} \<inter> index_bytes s = {}"
          using index_below_body [OF ok a(1)] by blast
      qed (use a n e in simp)
      show "mset (index_list s') = mset (index_list s) + mset (holes_of (a + n) (remainder hsz n))"
        unfolding s'(4) ok2(2) rem by (simp add: mset_sift)
      have "same_outside (metas a ((n, Used) # remainder hsz n)) (mem s) ?m2"
        using same_outside_trans [OF 1(2) 2(2)] rem by simp
      then show "same_outside (index_bytes s \<union> metas a ((n, Used) # remainder hsz n)) (mem s) (mem s')"
        by (rule same_outside_mono [OF same_outside_trans [OF _ same']]) blast
      show "index_sorted s'"
        if "index_sorted s" "\<forall>x \<in> set (index_list s). unat x + 12 \<le> a \<or> a + hsz \<le> unat x"
        using s'(6) index_sorted_updated [OF ok in2 a(1) that(2,1)] by blast
    qed
  qed
qed

section \<open>The hole an index entry stands for\<close>

lemma index_entry_hole:
  assumes inv: "heap_inv s bs" and i: "i < length (index_list s)"
  obtains pre sz k post where "bs = pre @ (sz, k) # post" "k \<noteq> Used"
    "index_list s ! i = of_nat (heap_start s + total pre)"
proof -
  have "index_list s ! i \<in> set (holes_of (heap_start s) bs)"
    using i heap_invD(4) [OF inv] mset_eq_setD nth_mem by blast
  then show ?thesis using that by (rule holes_of_split)
qed

lemma block_at:
  assumes inv: "heap_inv s bs" and bs: "bs = pre @ (sz, k) # post"
  shows "block_ok (mem s) (heap_start s + total pre) sz k"
    "heap_start s + total pre + sz + total post = heap_end s"
    "hdr_size (mem s) (of_nat (heap_start s + total pre)) = (if k = Lost then 0 else of_nat sz)"
    "unat (of_nat (heap_start s + total pre) :: u32) = heap_start s + total pre"
proof -
  show ok: "block_ok (mem s) (heap_start s + total pre) sz k"
    using heap_invD(3) [OF inv] by (simp add: bs layout_append)
  show e: "heap_start s + total pre + sz + total post = heap_end s"
    using heap_invD(2) [OF inv] by (simp add: bs)
  show "hdr_size (mem s) (of_nat (heap_start s + total pre)) = (if k = Lost then 0 else of_nat sz)"
    unfolding hdr_nat using ok by (simp add: block_ok_def)
  show "unat (of_nat (heap_start s + total pre) :: u32) = heap_start s + total pre"
    using e heap_invD(5) [OF inv] by (intro unat_of_nat32) linarith
qed

text \<open>Taking the entry of a hole out of the index leaves the other holes.\<close>

lemma index_without:
  assumes inv: "heap_inv s bs" and bs: "bs = pre @ (sz, k) # post" and k: "k \<noteq> Used"
    and i: "i < length (index_list s)" "index_list s ! i = of_nat (heap_start s + total pre)"
    and list: "index_list s1 = take i (index_list s) @ drop (Suc i) (index_list s)"
  shows "mset (index_list s1) = mset (holes_of (heap_start s) pre)
           + mset (holes_of (heap_start s + total pre + sz) post)"
    "\<forall>x \<in> set (index_list s1). unat x + 12 \<le> heap_start s + total pre
       \<or> heap_start s + total pre + sz \<le> unat x"
    "Suc (length (index_list s1)) = length (index_list s)"
proof -
  let ?a = "heap_start s + total pre"
  have "mset (index_list s1) = mset (holes_of (heap_start s) bs) - {#of_nat ?a#}"
    unfolding list mset_remove_nth [OF i(1)] i(2) heap_invD(4) [OF inv] ..
  then show m: "mset (index_list s1) = mset (holes_of (heap_start s) pre)
      + mset (holes_of (?a + sz) post)"
    using k by (simp add: bs holes_of_append)
  have lay: "layout (mem s) (heap_start s) pre" "layout (mem s) (?a + sz) post"
    using heap_invD(3) [OF inv] by (auto simp: bs layout_append)
  have top: "?a + sz + total post = heap_end s" "heap_end s < 2147483648"
    using block_at(2) [OF inv bs] heap_invD(5) [OF inv] .
  show "\<forall>x \<in> set (index_list s1). unat x + 12 \<le> ?a \<or> ?a + sz \<le> unat x"
  proof
    fix x assume "x \<in> set (index_list s1)"
    then have "x \<in> set (holes_of (heap_start s) pre) \<or> x \<in> set (holes_of (?a + sz) post)"
      using m by (metis Un_iff set_mset_mset set_mset_union)
    then show "unat x + 12 \<le> ?a \<or> ?a + sz \<le> unat x"
      using holes_of_range [OF lay(1), of x] holes_of_range [OF lay(2), of x] top by linarith
  qed
  show "Suc (length (index_list s1)) = length (index_list s)" using i(1) by (simp add: list)
qed

text \<open>
  Putting the invariant together again after some blocks of a list have been replaced by
  others over the same bytes.  \<open>heap_core\<close> is the invariant with the entries the index
  has given separately, for the moments at which a hole is not in the index.
\<close>

definition heap_core :: "mm_state \<Rightarrow> block list \<Rightarrow> u32 multiset \<Rightarrow> bool" where
  "heap_core s bs E \<longleftrightarrow>
     index_ok s \<and> heap_start s + total bs = heap_end s \<and> layout (mem s) (heap_start s) bs
     \<and> mset (index_list s) = E \<and> (\<forall>b \<in> set (tl bs). snd b \<noteq> Raw)"

lemma heap_inv_core: "heap_inv s bs \<longleftrightarrow> heap_core s bs (mset (holes_of (heap_start s) bs))"
  by (auto simp: heap_inv_def heap_core_def)

lemma heap_coreD:
  assumes "heap_core s bs E"
  shows "index_ok s" "heap_start s + total bs = heap_end s" "layout (mem s) (heap_start s) bs"
    "mset (index_list s) = E" "heap_end s < 2147483648"
  using assms by (auto simp: heap_core_def index_ok_def)

lemma heap_core_replace:
  assumes inv: "heap_core s (pre @ mid @ post) E" and res: "resized s s'" and ok: "index_ok s'"
    and lay: "layout (mem s') (heap_start s + total pre) mid'" and tot: "total mid' = total mid"
    and list: "mset (index_list s') = E'"
    and same: "same_outside (index_bytes s
        \<union> {heap_start s + total pre..<heap_start s + total pre + total mid}) (mem s) (mem s')"
    and raw: "\<forall>b \<in> set mid'. snd b \<noteq> Raw" and mid: "mid \<noteq> []"
  shows "heap_core s' (pre @ mid' @ post) E'"
proof -
  let ?a = "heap_start s + total pre"
  note fr = resized_frame [OF res]
  have top: "?a + total mid + total post = heap_end s" "heap_end s < 2147483648"
    using heap_coreD(2,5) [OF inv] by auto
  have below: "index_bytes s \<inter> {heap_start s..<b} = {}" for b
    by (rule index_below_body [OF heap_coreD(1) [OF inv] order_refl])
  have "layout (mem s') (heap_start s) (pre @ mid' @ post)"
  proof (rule layout_replace [where mid = mid and m = "mem s"])
    show "layout (mem s) (heap_start s) (pre @ mid @ post)" by (rule heap_coreD(3) [OF inv])
    show "{heap_start s..<?a} \<inter> (index_bytes s \<union> {?a..<?a + total mid}) = {}"
      using below [of ?a] by auto
    have "{?a + total mid..<?a + total mid + total post}
        \<subseteq> {heap_start s..<?a + total mid + total post}" by auto
    then show "{?a + total mid..<heap_start s + total (pre @ mid @ post)}
        \<inter> (index_bytes s \<union> {?a..<?a + total mid}) = {}"
      using below [of "?a + total mid + total post"] by (fastforce simp: add.assoc)
  qed (use lay tot same top in simp_all)
  moreover have "\<forall>b \<in> set (tl (pre @ mid' @ post)). snd b \<noteq> Raw"
  proof (cases pre)
    case Nil
    have "set post \<subseteq> set (tl (mid @ post))" using mid by (cases mid) auto
    then have "\<forall>b \<in> set (mid' @ post). snd b \<noteq> Raw"
      using inv raw Nil by (auto simp: heap_core_def)
    then show ?thesis unfolding Nil by (cases "mid' @ post") auto
  qed (use inv raw in \<open>auto simp: heap_core_def\<close>)
  ultimately show ?thesis
    unfolding heap_core_def fr using ok tot top list by simp
qed

lemma heap_inv_replace:
  assumes inv: "heap_inv s (pre @ (sz, k) # post)" and res: "resized s s'" and ok: "index_ok s'"
    and lay: "layout (mem s') (heap_start s + total pre) mid" and tot: "total mid = sz"
    and list: "mset (index_list s') = mset (holes_of (heap_start s) pre)
      + mset (holes_of (heap_start s + total pre) mid)
      + mset (holes_of (heap_start s + total pre + sz) post)"
    and same: "same_outside (index_bytes s
        \<union> {heap_start s + total pre..<heap_start s + total pre + sz}) (mem s) (mem s')"
    and raw: "\<forall>b \<in> set mid. snd b \<noteq> Raw"
  shows "heap_inv s' (pre @ mid @ post)"
proof -
  have core: "heap_core s (pre @ [(sz, k)] @ post)
      (mset (holes_of (heap_start s) (pre @ (sz, k) # post)))"
    using inv by (simp add: heap_inv_core)
  have list': "mset (index_list s') = mset (holes_of (heap_start s') (pre @ mid @ post))"
    unfolding list resized_frame [OF res] by (simp add: holes_of_append tot add.assoc)
  show ?thesis unfolding heap_inv_core
    by (rule heap_core_replace [OF core res ok lay _ list' _ raw]) (use tot same in simp_all)
qed

section \<open>Carving a block out of a hole\<close>

text \<open>The size a block gets: all of the hole if what is left could not be a block.\<close>

definition block_size :: "nat \<Rightarrow> nat \<Rightarrow> nat" where
  "block_size sz n = (if sz - n \<le> 20 then sz else n)"

lemma carve_plain_ok:
  assumes inv: "heap_inv s (pre @ (sz, k) # post)" and k: "k \<noteq> Used" "k \<noteq> Lost"
    and i: "unat i < length (index_list s)"
      "index_list s ! unat i = of_nat (heap_start s + total pre)"
    and n: "20 \<le> n" "n \<le> sz"
    and pa: "pa = 0 \<or> (heap_start s + total pre + 12) mod 4096 = 0"
  obtains s' where
    "carve s i (of_nat n) pa = Inr (of_nat (heap_start s + total pre + 12), s')"
    "resized s s'"
    "heap_inv s' (pre @ ((block_size sz n, Used) # remainder sz (block_size sz n)) @ post)"
    "same_outside (index_bytes s \<union> metas (heap_start s + total pre)
       ((block_size sz n, Used) # remainder sz (block_size sz n))) (mem s) (mem s')"
    "index_sorted s \<Longrightarrow> index_sorted s'"
proof -
  let ?a = "heap_start s + total pre" and ?n = "block_size sz n"
  let ?mid = "(?n, Used) # remainder sz ?n"
  note at = block_at [OF inv refl]
  have top: "?a + sz + total post = heap_end s" "heap_end s < 2147483648"
    using at(2) heap_invD(5) [OF inv] .
  note ok = heap_invD(1) [OF inv]
  have bn: "20 \<le> ?n" "?n \<le> sz" "sz = ?n \<or> ?n + 20 < sz"
    using n by (auto simp: block_size_def)
  obtain s1 where s1: "index_remove s i = Inr s1" "resized s s1" "index_ok s1"
      "index_list s1 = take (unat i) (index_list s) @ drop (Suc (unat i)) (index_list s)"
      "same_outside (index_bytes s) (mem s) (mem s1)" "index_sorted s \<Longrightarrow> index_sorted s1"
    using index_remove_ok [OF ok i(1)] by blast
  note fr1 = resized_frame [OF s1(2)]
  note without = index_without [OF inv refl k(1) i s1(4)]
  have cap: "length (index_list s) \<le> index_capacity s"
    using ok oa_wf_bounds by (auto simp: index_ok_def index_capacity_def length_index_list)
  have pos: "heap_start s1 \<le> ?a" "?a + sz \<le> heap_end s1" unfolding fr1 using top by auto
  have room: "length (index_list s1) < index_capacity s1" unfolding fr1 using without(3) cap by linarith
  obtain s' where s': "place_block s1 (of_nat ?a) (of_nat sz) (of_nat ?n) = Inr (of_nat (?a + 12), s')"
      "resized s1 s'" "index_ok s'" "layout (mem s') ?a ?mid"
      "mset (index_list s') = mset (index_list s1) + mset (holes_of (?a + ?n) (remainder sz ?n))"
      "same_outside (index_bytes s1 \<union> metas ?a ?mid) (mem s1) (mem s')"
      "index_sorted s1 \<Longrightarrow> \<forall>x \<in> set (index_list s1). unat x + 12 \<le> ?a \<or> ?a + sz \<le> unat x \<Longrightarrow>
         index_sorted s'"
    using place_block_ok [OF s1(3) bn pos room] by blast
  have same: "same_outside (index_bytes s \<union> metas ?a ?mid) (mem s) (mem s')"
    using same_outside_trans [OF s1(5) s'(6)] unfolding fr1 by (rule same_outside_mono) blast
  have d: "(of_nat sz - of_nat n :: u32) = of_nat (sz - n)" using n by (simp add: of_nat_diff)
  have u: "unat (of_nat (sz - n) :: u32) = sz - n" by (rule unat_of_nat32) (use top in linarith)
  have small: "(of_nat sz - of_nat n :: u32) \<le> 20 \<longleftrightarrow> sz - n \<le> 20"
    unfolding d word_le_nat_alt u by simp
  have size': "(if (of_nat sz - of_nat n :: u32) \<le> 12 + 8 then of_nat sz else of_nat n) = (of_nat ?n :: u32)"
    using small by (simp add: block_size_def)
  have fetch: "ordered_array_index (mem s) (h_index (heap_obj s)) i = Inr (of_nat ?a)"
    using i by (subst ordered_array_index_list) (auto simp: word_less_nat_alt length_index_list index_list_def)
  have aligned: "\<not> (pa \<noteq> 0 \<and> (of_nat ?a + 12 :: u32) AND NOT PAGE_ADDR_MASK \<noteq> 0)"
  proof -
    have "unat (of_nat ?a + 12 :: u32) = ?a + 12" using at(4) top n(1) n(2) by (subst unat_add32) auto
    then show ?thesis using pa by (simp only: page_offset_mask mod_page_0) auto
  qed
  have eq: "carve s i (of_nat n) pa = Inr (of_nat (?a + 12), s')"
    using aligned s1(1) s'(1) k(2) at(3)
    unfolding carve_def fetch bind_res_Inr Let_def sizeof_header_def sizeof_footer_def
    by (simp only: size' if_False simp_thms bind_res_Inr)
  show ?thesis
  proof (rule that [OF eq resized_trans [OF s1(2) s'(2)] _ same])
    have "metas ?a ?mid \<subseteq> {?a..<?a + sz}" using metas_within [OF s'(4)] bn by simp
    then have wide: "same_outside (index_bytes s \<union> {?a..<?a + sz}) (mem s) (mem s')"
      by (intro same_outside_mono [OF same]) blast
    show "heap_inv s' (pre @ ?mid @ post)"
    proof (rule heap_inv_replace [OF inv resized_trans [OF s1(2) s'(2)] s'(3,4) _ _ wide])
      show "mset (index_list s') = mset (holes_of (heap_start s) pre) + mset (holes_of ?a ?mid)
          + mset (holes_of (?a + sz) post)"
        unfolding s'(5) without(1) by simp
    qed (use bn in \<open>auto simp: remainder_def\<close>)
    show "index_sorted s'" if "index_sorted s" using s'(7) s1(6) that without(2) by blast
  qed
qed

end
