(* ===== verification/KheapAlign.thy ===== *)
theory KheapAlign
  imports KheapAlloc
begin

text \<open>
  Page-aligned allocation: the offset \<open>page_align_get_offset\<close> computes, and what
  \<open>heap_alloc\<close> does when it has to leave a hole in front of the block.  The hole in front
  ends up with size 0 in its header (a \<open>Lost\<close> block of the layout).
\<close>

section \<open>The offset\<close>

lemma page_align_get_offset_nat:
  assumes "unat x + 4128 < 4294967296"
  shows "unat (page_align_get_offset x) =
    (let r = (unat x + 12) mod 4096
     in if r = 0 then 0 else if 4096 - r \<le> 20 then 8192 - r else 4096 - r)"
proof -
  have u: "unat (x + 12) = unat x + 12" using assms by (subst unat_add32) auto
  define r where "r = (unat x + 12) mod 4096"
  have r: "unat ((x + 12) mod 4096) = r" by (simp add: u r_def)
  have lt: "r < 4096" by (simp add: r_def)
  have sub: "unat (4096 - (x + 12) mod 4096) = 4096 - r" using lt r by (subst unat_sub32) auto
  have add: "unat (4096 - (x + 12) mod 4096 + 4096) = 8192 - r"
    using lt sub by (subst unat_add32) auto
  have le: "4096 - (x + 12) mod 4096 \<le> 20 \<longleftrightarrow> 4096 - r \<le> 20" by (simp add: word_le_nat_alt sub)
  show ?thesis
    unfolding page_align_get_offset_def Let_def sizeof_header_def sizeof_footer_def
      page_offset_mask PAGE_SIZE_def r_def [symmetric]
    using sub add le r by (simp add: mod_page_0 u r_def [symmetric])
qed

lemma page_align_get_offset_aligned:
  assumes "unat x + 4128 < 4294967296"
  shows "(unat x + 12 + unat (page_align_get_offset x)) mod 4096 = 0"
proof -
  obtain q r where n: "unat x + 12 = 4096 * q + r" "r < 4096" "(unat x + 12) mod 4096 = r"
    by (rule page_split)
  define off where "off = (if r = 0 then 0 else if 4096 - r \<le> 20 then 8192 - r else 4096 - r)"
  have off: "unat (page_align_get_offset x) = off"
    using page_align_get_offset_nat [OF assms] n(3) by (simp add: Let_def off_def)
  have "r + off = 0 \<or> r + off = 4096 \<or> r + off = 8192" using n(2) by (auto simp: off_def)
  then show ?thesis unfolding off n(1) by (auto simp: add.assoc)
qed

text \<open>
  \<open>page_align_get_offset\<close>: for a header at \<open>addr\<close> (away from the top of the address
  space) it is 0 exactly when the data of a block at \<open>addr\<close> would start on a page
  boundary; otherwise it is the least offset that leaves room for a header, a footer and
  one byte (more than 20 bytes) and puts the data of the block at \<open>addr + offset\<close> on a
  page boundary.
\<close>

lemma page_align_get_offset_least:
  assumes "unat addr + 4128 < 4294967296"
  shows "(unat (page_align_get_offset addr) = 0 \<longleftrightarrow> (unat addr + 12) mod 4096 = 0)
    \<and> (unat (page_align_get_offset addr) \<noteq> 0 \<longrightarrow>
         20 < unat (page_align_get_offset addr)
         \<and> (unat addr + 12 + unat (page_align_get_offset addr)) mod 4096 = 0
         \<and> (\<forall>d. 20 < d \<and> (unat addr + 12 + d) mod 4096 = 0 \<longrightarrow> unat (page_align_get_offset addr) \<le> d))"
proof -
  obtain q r where n: "unat addr + 12 = 4096 * q + r" "r < 4096" "(unat addr + 12) mod 4096 = r"
    by (rule page_split)
  define off where "off = (if r = 0 then 0 else if 4096 - r \<le> 20 then 8192 - r else 4096 - r)"
  have off: "unat (page_align_get_offset addr) = off"
    using page_align_get_offset_nat [OF assms] n(3) by (simp add: Let_def off_def)
  have least: "off \<le> d" if d: "20 < d" "(4096 * q + r + d) mod 4096 = 0" "r \<noteq> 0" for d
  proof (rule ccontr)
    assume less: "\<not> off \<le> d"
    have "(r + d) mod 4096 = 0" using d(2) by (simp add: add.assoc)
    then have "4096 dvd r + d" by (simp add: mod_eq_0_iff_dvd)
    then obtain j where j: "r + d = 4096 * j" by (elim dvdE)
    have "r + d < 8192" "r + d \<noteq> 0" using less d(3) n(2) by (auto simp: off_def split: if_splits)
    then have "j = 1" using j by linarith
    then show False using less j d(1,3) n(2) by (auto simp: off_def split: if_splits)
  qed
  have "(4096 * q + r + off) mod 4096 = 0"
    using page_align_get_offset_aligned [OF assms] unfolding off n(1) .
  then show ?thesis unfolding off n(3) unfolding n(1) using least n(2) by (auto simp: off_def)
qed

section \<open>Splitting the front off\<close>

lemma lost_block:
  fixes m :: memory
  assumes "20 \<le> off" "a + off \<le> 4294967296"
  defines "m' \<equiv> put_at (write_block m a off 1) (a + 8) 0"
  shows "block_ok m' a off Lost" "same_outside (meta a off) m m'"
proof -
  obtain k where k: "off = k + 20" using assms(1) by (metis le_Suc_ex add.commute)
  have f: "a + off - 8 = a + k + 12" "a + off - 4 = a + k + 16" using k by auto
  show "block_ok m' a off Lost"
    using write_block_words [OF k assms(2), of m 1] assms(2) k
    unfolding m'_def block_ok_def f by simp
  show "same_outside (meta a off) m m'"
    unfolding m'_def using write_block_ok(3) [OF assms(1,2)] assms
    by (intro same_outside_put_chain) (auto simp: meta_def)
qed

text \<open>The second write to the size undoes the first: they go to the same header.\<close>

lemma split_front_memory:
  assumes "20 \<le> off" "a + off \<le> 4294967296"
  shows "set_hdr_size (write_footer (write_header m (of_nat a) (of_nat off) 1)
             (of_nat (a + off) - 8) (of_nat a)) (of_nat a)
           (hdr_size (write_footer (write_header m (of_nat a) (of_nat off) 1)
             (of_nat (a + off) - 8) (of_nat a)) (of_nat a) - of_nat off)
    = put_at (write_block m a off 1) (a + 8) 0"
proof -
  have f: "(of_nat (a + off) - 8 :: u32) = of_nat (a + off - 8)"
    using assms by (simp only: of_nat_diff) simp
  obtain k where k: "off = k + 20" using assms(1) by (metis le_Suc_ex add.commute)
  have "hdr_size (write_block m a off 1) (of_nat a) = of_nat off"
    unfolding hdr_nat using write_block_words [OF k assms(2)] by simp
  then show ?thesis unfolding f write_block_def [symmetric]
    by (simp add: set_hdr_size_def put_at_def)
qed

lemma split_front_ok:
  assumes inv: "heap_inv s (pre @ (sz, k) # post)" and k: "k \<noteq> Used"
    and i: "unat i < length (index_list s)"
      "index_list s ! unat i = of_nat (heap_start s + total pre)"
    and off: "page_align_get_offset (of_nat (heap_start s + total pre)) = of_nat off"
      "20 < off" "off + 20 \<le> sz"
  obtains s' where
    "split_front s i (of_nat (heap_start s + total pre)) (of_nat sz)
       = Inr (of_nat (heap_start s + total pre + off), of_nat (sz - off), s')"
    "resized s s'" "index_ok s'"
    "block_ok (mem s') (heap_start s + total pre) off Lost"
    "mset (index_list s') = mset (index_list s)"
    "same_outside (index_bytes s \<union> meta (heap_start s + total pre) off) (mem s) (mem s')"
    "index_sorted s \<Longrightarrow> index_sorted s'"
proof -
  let ?a = "heap_start s + total pre"
  let ?m = "put_at (write_block (mem s) ?a off 1) (?a + 8) 0"
  let ?s1 = "s\<lparr>mem := ?m\<rparr>"
  note at = block_at [OF inv refl]
  note ok = heap_invD(1) [OF inv]
  have top: "?a + sz + total post = heap_end s" "heap_end s < 2147483648"
    using at(2) heap_invD(5) [OF inv] .
  have bnd: "20 \<le> off" "?a + off \<le> 4294967296" using off top by auto
  note lost = lost_block [OF bnd, of "mem s"]
  have in1: "same_outside {?a..<?a + off} (mem s) ?m"
    using meta_within [OF bnd(1)] by (rule same_outside_mono [OF lost(2)])
  note ok1 = index_list_updated [OF ok in1 le_add1]
  have fr1: "resized s ?s1" by simp
  note frm1 = resized_frame [OF fr1]
  have i1: "unat i < length (index_list ?s1)" unfolding ok1(2) by (rule i(1))
  obtain s2 where s2: "index_remove ?s1 i = Inr s2" "resized ?s1 s2" "index_ok s2"
      "index_list s2 = take (unat i) (index_list ?s1) @ drop (Suc (unat i)) (index_list ?s1)"
      "same_outside (index_bytes ?s1) (mem ?s1) (mem s2)"
    using index_remove_ok [OF ok1(1) i1] by blast
  note frm2 = resized_frame [OF resized_trans [OF fr1 s2(2)]]
  have list2: "index_list s2 = take (unat i) (index_list s) @ drop (Suc (unat i)) (index_list s)"
    using s2(4) ok1(2) by (simp only:)
  note without = index_without [OF inv refl k i list2]
  have cap: "length (index_list s) \<le> index_capacity s"
    using ok oa_wf_bounds by (auto simp: index_ok_def index_capacity_def length_index_list)
  have room: "length (index_list s2) < index_capacity s2"
    unfolding frm2 using without(3) cap by linarith
  have v: "heap_start s2 \<le> unat (of_nat ?a :: u32)" "unat (of_nat ?a :: u32) + 12 \<le> heap_end s2"
    unfolding frm2 at(4) using off top by auto
  obtain s3 where s3: "index_insert s2 (of_nat ?a) = Inr s3" "resized s2 s3" "index_ok s3"
      "index_list s3 = sift (\<lambda>x y. hdr_size (mem s2) x < hdr_size (mem s2) y)
         (index_list s2 @ [of_nat ?a]) (length (index_list s2))"
      "same_outside (index_bytes s2) (mem s2) (mem s3)" "index_sorted s2 \<Longrightarrow> index_sorted s3"
    using index_insert_ok [OF s2(3) room v] by blast
  have same3: "same_outside (index_bytes s) ?m (mem s3)"
    using same_outside_trans_in [of "index_bytes s" ?m "mem s2" "mem s3"] s2(5) s3(5) frm1 frm2 by simp
  have add: "(of_nat ?a + of_nat off :: u32) = of_nat (?a + off)" by (simp only: of_nat_add)
  have diff: "(of_nat sz - of_nat off :: u32) = of_nat (sz - off)" using off by (simp add: of_nat_diff)
  have sum20: "(12 + 8 :: u32) = 20" by simp
  have big: "(20 :: u32) < of_nat off" using of_nat_less_u32 [of 20 off] off top by simp
  have eq: "split_front s i (of_nat ?a) (of_nat sz) = Inr (of_nat (?a + off), of_nat (sz - off), s3)"
    using s2(1) s3(1)
    by (simp only: split_front_def Let_def off(1) sizeof_header_def sizeof_footer_def add diff
      split_front_memory [OF bnd] sum20 big assert_k_True bind_res_Inr)
  have sorted: "index_sorted s3" if "index_sorted s"
  proof -
    have "hdr_size (mem s2) x = hdr_size (mem s) x" if "x \<in> set (index_list s2)" for x
    proof -
      have both: "same_outside (index_bytes s \<union> {?a..<?a + off}) (mem s) (mem s2)"
        using same_outside_trans [OF in1, of "index_bytes s" "mem s2"] s2(5) frm1
        by (simp add: Un_commute)
      have pos: "heap_start s \<le> unat x" "unat x + 12 \<le> heap_end s"
        "unat x + 12 \<le> ?a \<or> ?a + sz \<le> unat x"
        using that without(2) index_entries [OF s2(3)] frm2 by auto
      then have "{unat x + 8..<unat x + 12} \<inter> index_bytes s = {}"
        using index_below_body [OF ok, of "unat x + 8" "unat x + 12"] by auto
      then show ?thesis
        using pos top off by (intro hdr_size_frame [OF both]) auto
    qed
    then have "map (hdr_size (mem s2)) (index_list s2) = map (hdr_size (mem s)) (index_list s2)"
      by (intro map_cong) auto
    moreover have "sorted (map (hdr_size (mem s)) (index_list s2))"
      using that i sorted_remove_nth [of "map (hdr_size (mem s)) (index_list s)" "unat i"]
      unfolding list2 by (simp add: index_sorted_def take_map drop_map)
    ultimately have "index_sorted s2" unfolding index_sorted_def by (simp only:)
    then show ?thesis by (rule s3(6))
  qed
  have lay: "block_ok (mem s3) ?a off Lost"
  proof (rule block_ok_frame [OF lost(1) same3])
    show "meta ?a off \<inter> index_bytes s = {}"
      using meta_within [OF bnd(1), of ?a] index_below_body [OF ok le_add1, of "total pre" "?a + off"]
      by blast
  qed (rule bnd(2))
  have mset3: "mset (index_list s3) = mset (index_list s)"
    unfolding s3(4) using without(1) k heap_invD(4) [OF inv]
    by (simp add: mset_sift holes_of_append)
  have same: "same_outside (index_bytes s \<union> meta ?a off) (mem s) (mem s3)"
    using same_outside_trans [OF lost(2) same3] by (simp add: Un_commute)
  show ?thesis
    by (rule that [OF eq resized_trans [OF resized_trans [OF fr1 s2(2)] s3(2)] s3(3) lay mset3 same sorted])
qed

section \<open>The page-aligned block\<close>

lemma index_apart:
  assumes inv: "heap_inv s (pre @ (sz, k) # post)" and x: "x \<in> set (index_list s)"
  shows "unat x = heap_start s + total pre \<or> unat x + 12 \<le> heap_start s + total pre
    \<or> heap_start s + total pre + sz \<le> unat x"
proof -
  let ?a = "heap_start s + total pre"
  note top = block_at(2) [OF inv refl] heap_invD(5) [OF inv]
  have lay: "layout (mem s) (heap_start s) pre" "layout (mem s) (?a + sz) post"
    using heap_invD(3) [OF inv] by (auto simp: layout_append)
  have "set (index_list s) = set (holes_of (heap_start s) (pre @ (sz, k) # post))"
    using heap_invD(4) [OF inv] by (rule mset_eq_setD)
  then have "x \<in> set (holes_of (heap_start s) pre) \<or> x = of_nat ?a \<or> x \<in> set (holes_of (?a + sz) post)"
    using x by (auto simp: holes_of_append split: if_splits)
  then show ?thesis
    using holes_of_range [OF lay(1), of x] holes_of_range [OF lay(2), of x] top
      block_at(4) [OF inv refl] by force
qed

lemma place_block_gap:
  assumes "20 \<le> n" "n < hsz" "hsz \<le> n + 20" "a + hsz \<le> heap_end s" "heap_end s < 2147483648"
  shows "place_block s (of_nat a) (of_nat hsz) (of_nat n) =
    Inl (AssertFailed ''We have free space in the hole, but not enough to make a new one'')"
proof -
  have foot: "(of_nat a + of_nat n - 8 :: u32) = of_nat (a + n - 8)"
    using assms by (auto intro: footer_address)
  have "(of_nat (a + n - 8) :: u32) < of_nat (heap_end s)"
    by (rule of_nat_less_u32 [THEN iffD2]; use assms in linarith)
  then have below: "of_nat (a + n - 8) < allocated_end (heap_obj s)" by (simp add: heap_end_def)
  have diff: "(of_nat hsz - of_nat n :: u32) = of_nat (hsz - n)" using assms by (simp add: of_nat_diff)
  have pos: "(of_nat (hsz - n) :: u32) > 0" "\<not> (of_nat (hsz - n) :: u32) > 20"
    using of_nat_less_u32 [of 0 "hsz - n"] of_nat_less_u32 [of 20 "hsz - n"] assms by simp_all
  show ?thesis using below pos
    unfolding place_block_def Let_def sizeof_header_def sizeof_footer_def foot diff by simp
qed

text \<open>The reads of \<open>carve\<close> up to the branch for a page-aligned block.\<close>

lemma carve_aligned_eq:
  assumes inv: "heap_inv s (pre @ (sz, k) # post)" and k: "k \<noteq> Used" "k \<noteq> Lost"
    and i: "unat i < length (index_list s)"
      "index_list s ! unat i = of_nat (heap_start s + total pre)"
    and n: "n + 20 < sz" and pa: "pa \<noteq> 0" "(heap_start s + total pre + 12) mod 4096 \<noteq> 0"
  shows "carve s i (of_nat n) pa =
    bind_res (split_front s i (of_nat (heap_start s + total pre)) (of_nat sz))
      (\<lambda>(addr, hole_size, s1). place_block s1 addr hole_size (of_nat n))"
proof -
  let ?a = "heap_start s + total pre"
  note at = block_at [OF inv refl]
  have top: "?a + sz + total post = heap_end s" "heap_end s < 2147483648"
    using at(2) heap_invD(5) [OF inv] .
  have d: "(of_nat sz - of_nat n :: u32) = of_nat (sz - n)" using n by (simp add: of_nat_diff)
  have u: "unat (of_nat (sz - n) :: u32) = sz - n" by (rule unat_of_nat32) (use top in linarith)
  have big: "\<not> (of_nat sz - of_nat n :: u32) \<le> 12 + 8"
    unfolding d word_le_nat_alt u using n by simp
  have fetch: "ordered_array_index (mem s) (h_index (heap_obj s)) i = Inr (of_nat ?a)"
    using i by (subst ordered_array_index_list) (auto simp: word_less_nat_alt length_index_list index_list_def)
  have aligned: "(of_nat ?a + 12 :: u32) AND NOT PAGE_ADDR_MASK \<noteq> 0"
  proof -
    have "unat (of_nat ?a + 12 :: u32) = ?a + 12" using at(4) top n by (subst unat_add32) auto
    then show ?thesis using pa by (simp only: page_offset_mask mod_page_0) auto
  qed
  show ?thesis
    using aligned pa(1) k(2) at(3) big
    unfolding carve_def fetch bind_res_Inr Let_def sizeof_header_def sizeof_footer_def
    by (simp only: if_False if_True simp_thms)
qed

lemma carve_aligned_ok:
  assumes inv: "heap_inv s (pre @ (sz, k) # post)" and k: "k \<noteq> Used" "k \<noteq> Lost"
    and i: "unat i < length (index_list s)"
      "index_list s ! unat i = of_nat (heap_start s + total pre)"
    and pa: "pa \<noteq> 0" "(heap_start s + total pre + 12) mod 4096 \<noteq> 0"
    and off: "off = unat (page_align_get_offset (of_nat (heap_start s + total pre)))"
    and n: "20 \<le> n" "off + n \<le> sz" "sz = off + n \<or> off + n + 20 < sz"
    and room: "off + n < sz \<Longrightarrow> length (index_list s) < index_capacity s"
  obtains s' where
    "carve s i (of_nat n) pa = Inr (of_nat (heap_start s + total pre + off + 12), s')"
    "resized s s'"
    "heap_inv s' (pre @ ((off, Lost) # (n, Used) # remainder (sz - off) n) @ post)"
    "same_outside (index_bytes s \<union> metas (heap_start s + total pre)
       ((off, Lost) # (n, Used) # remainder (sz - off) n)) (mem s) (mem s')"
    "index_sorted s \<Longrightarrow> index_sorted s'"
proof -
  let ?a = "heap_start s + total pre"
  let ?r = "(n, Used) # remainder (sz - off) n"
  note at = block_at [OF inv refl]
  note ok = heap_invD(1) [OF inv]
  have top: "?a + sz + total post = heap_end s" "heap_end s < 2147483648"
    using at(2) heap_invD(5) [OF inv] .
  have big: "20 < off" using page_align_get_offset_nat [of "of_nat ?a"] pa(2) at(4) top
    by (auto simp: off Let_def)
  have offw: "page_align_get_offset (of_nat ?a) = of_nat off" by (simp add: off)
  have offsz: "off + 20 \<le> sz" using n by linarith
  obtain s1 where s1: "split_front s i (of_nat ?a) (of_nat sz)
         = Inr (of_nat (?a + off), of_nat (sz - off), s1)"
      "resized s s1" "index_ok s1" "block_ok (mem s1) ?a off Lost"
      "mset (index_list s1) = mset (index_list s)"
      "same_outside (index_bytes s \<union> meta ?a off) (mem s) (mem s1)"
      "index_sorted s \<Longrightarrow> index_sorted s1"
    using split_front_ok [OF inv k(1) i offw big offsz] by blast
  note fr1 = resized_frame [OF s1(2)]
  have hole: "n \<le> sz - off" "sz - off = n \<or> n + 20 < sz - off" using n by auto
  have pos: "heap_start s1 \<le> ?a + off" "?a + off + (sz - off) \<le> heap_end s1"
    unfolding fr1 using top n by auto
  have len: "length (index_list s1) = length (index_list s)"
    using arg_cong [OF s1(5), of size] by simp
  have room1: "n < sz - off \<Longrightarrow> length (index_list s1) < index_capacity s1"
    unfolding fr1 len using room n by linarith
  obtain s' where s': "place_block s1 (of_nat (?a + off)) (of_nat (sz - off)) (of_nat n)
         = Inr (of_nat (?a + off + 12), s')"
      "resized s1 s'" "index_ok s'" "layout (mem s') (?a + off) ?r"
      "mset (index_list s') = mset (index_list s1) + mset (holes_of (?a + off + n) (remainder (sz - off) n))"
      "same_outside (index_bytes s1 \<union> metas (?a + off) ?r) (mem s1) (mem s')"
      "index_sorted s1 \<Longrightarrow> \<forall>x \<in> set (index_list s1). unat x + 12 \<le> ?a + off
         \<or> ?a + off + (sz - off) \<le> unat x \<Longrightarrow> index_sorted s'"
    using place_block_ok [OF s1(3) n(1) hole pos room1] by blast
  have "n + 20 < sz" using n big by linarith
  note eq0 = carve_aligned_eq [OF inv k i this pa]
  have eq: "carve s i (of_nat n) pa = Inr (of_nat (?a + off + 12), s')"
    unfolding eq0 s1(1) using s'(1) by simp
  have in_r: "metas (?a + off) ?r \<subseteq> {?a + off..<?a + sz}"
    using metas_within [OF s'(4)] n by (simp add: add.assoc)
  have in_l: "meta ?a off \<subseteq> {?a..<?a + off}" using meta_within big by simp
  have same: "same_outside (index_bytes s \<union> metas ?a ((off, Lost) # ?r)) (mem s) (mem s')"
    using same_outside_trans [OF s1(6) s'(6)] unfolding fr1
    by (rule same_outside_mono) auto
  have lost: "block_ok (mem s') ?a off Lost"
  proof (rule block_ok_frame [OF s1(4) s'(6)])
    show "meta ?a off \<inter> (index_bytes s1 \<union> metas (?a + off) ?r) = {}"
      using in_l in_r index_below_body [OF ok le_add1, of "total pre" "?a + off"]
      unfolding fr1 by fastforce
  qed (use top n in linarith)
  show ?thesis
  proof (rule that [OF eq resized_trans [OF s1(2) s'(2)] _ same])
    have wide: "same_outside (index_bytes s \<union> {?a..<?a + sz}) (mem s) (mem s')"
    proof (rule same_outside_mono [OF same])
      have "{?a..<?a + off} \<subseteq> {?a..<?a + sz}" "{?a + off..<?a + sz} \<subseteq> {?a..<?a + sz}" using n by auto
      then show "index_bytes s \<union> metas ?a ((off, Lost) # ?r) \<subseteq> index_bytes s \<union> {?a..<?a + sz}"
        using in_l in_r unfolding metas.simps(2) [of ?a off Lost ?r] by blast
    qed
    show "heap_inv s' (pre @ ((off, Lost) # ?r) @ post)"
    proof (rule heap_inv_replace [OF inv resized_trans [OF s1(2) s'(2)] s'(3) _ _ _ wide])
      show "layout (mem s') ?a ((off, Lost) # ?r)" using lost s'(4) by simp
      show "mset (index_list s') = mset (holes_of (heap_start s) pre)
          + mset (holes_of ?a ((off, Lost) # ?r)) + mset (holes_of (?a + sz) post)"
        unfolding s'(5) s1(5) heap_invD(4) [OF inv] using k by (simp add: holes_of_append)
    qed (use n in \<open>auto simp: remainder_def\<close>)
    show "index_sorted s'" if sorted: "index_sorted s"
    proof (rule s'(7) [OF s1(7) [OF sorted]], rule ballI)
      fix x assume "x \<in> set (index_list s1)"
      then have "x \<in> set (index_list s)" using mset_eq_setD [OF s1(5)] by simp
      from index_apart [OF inv this] show "unat x + 12 \<le> ?a + off \<or> ?a + off + (sz - off) \<le> unat x"
        using big n by linarith
    qed
  qed
qed

lemma carve_aligned_gap:
  assumes inv: "heap_inv s (pre @ (sz, k) # post)" and k: "k \<noteq> Used" "k \<noteq> Lost"
    and i: "unat i < length (index_list s)"
      "index_list s ! unat i = of_nat (heap_start s + total pre)"
    and pa: "pa \<noteq> 0" "(heap_start s + total pre + 12) mod 4096 \<noteq> 0"
    and off: "off = unat (page_align_get_offset (of_nat (heap_start s + total pre)))"
    and n: "20 \<le> n" "off + n < sz" "sz \<le> off + n + 20"
  shows "carve s i (of_nat n) pa =
    Inl (AssertFailed ''We have free space in the hole, but not enough to make a new one'')"
proof -
  let ?a = "heap_start s + total pre"
  note at = block_at [OF inv refl]
  have top: "?a + sz + total post = heap_end s" "heap_end s < 2147483648"
    using at(2) heap_invD(5) [OF inv] .
  have big: "20 < off" using page_align_get_offset_nat [of "of_nat ?a"] pa(2) at(4) top
    by (auto simp: off Let_def)
  have offw: "page_align_get_offset (of_nat ?a) = of_nat off" by (simp add: off)
  have offsz: "off + 20 \<le> sz" using n by linarith
  obtain s1 where s1: "split_front s i (of_nat ?a) (of_nat sz)
         = Inr (of_nat (?a + off), of_nat (sz - off), s1)" "resized s s1"
    using split_front_ok [OF inv k(1) i offw big offsz] by blast
  have "?a + off + (sz - off) \<le> heap_end s1" "heap_end s1 < 2147483648"
    unfolding resized_frame [OF s1(2)] using top n by auto
  moreover have "n < sz - off" "sz - off \<le> n + 20" using n by auto
  ultimately have gap: "place_block s1 (of_nat (?a + off)) (of_nat (sz - off)) (of_nat n) =
      Inl (AssertFailed ''We have free space in the hole, but not enough to make a new one'')"
    by (intro place_block_gap n(1))
  have "n + 20 < sz" using n big by linarith
  note eq0 = carve_aligned_eq [OF inv k i this pa]
  show ?thesis unfolding eq0 s1(1) using gap by simp
qed

end
