(* ===== verification/KheapFree.thy ===== *)
theory KheapFree
  imports KheapAlloc
begin

text \<open>
  The correctness of \<open>heap_free\<close>: joining with the hole on the left, with the hole on the
  right, and the entry in the index.
\<close>

section \<open>Two blocks become one\<close>

lemma joined_block:
  assumes ok: "block_ok m a l Hole" "block_ok m (a + l) n Hole" and e: "a + l + n \<le> 4294967296"
  shows "block_ok (put_at (put_at m (a + l + n - 4) (of_nat a)) (a + 8) (of_nat (l + n))) a (l + n) Hole"
    "same_outside {a..<a + l + n} m (put_at (put_at m (a + l + n - 4) (of_nat a)) (a + 8) (of_nat (l + n)))"
proof -
  have l: "20 \<le> l" "20 \<le> n" using ok by (auto simp: block_ok_def)
  obtain k where k: "n = k + 20" using l(2) by (metis le_Suc_ex add.commute)
  have f: "a + (l + n) - 8 = a + l + k + 12" "a + (l + n) - 4 = a + l + k + 16"
    "a + l + n - 8 = a + l + k + 12" "a + l + n - 4 = a + l + k + 16" using k by auto
  show "block_ok (put_at (put_at m (a + l + n - 4) (of_nat a)) (a + 8) (of_nat (l + n))) a (l + n) Hole"
    using ok l e k unfolding block_ok_def f by simp
  show "same_outside {a..<a + l + n} m (put_at (put_at m (a + l + n - 4) (of_nat a)) (a + 8) (of_nat (l + n)))"
    unfolding f by (intro same_outside_put_chain same_outside_refl) (use l e k in auto)
qed


lemma joined_block_swap:
  assumes ok: "block_ok m a l Hole" "block_ok m (a + l) n Hole" and e: "a + l + n \<le> 4294967296"
  shows "block_ok (put_at (put_at m (a + 8) (of_nat (l + n))) (a + l + n - 4) (of_nat a)) a (l + n) Hole"
    "same_outside {a..<a + l + n} m (put_at (put_at m (a + 8) (of_nat (l + n))) (a + l + n - 4) (of_nat a))"
proof -
  have l: "20 \<le> l" "20 \<le> n" using ok by (auto simp: block_ok_def)
  obtain k where k: "n = k + 20" using l(2) by (metis le_Suc_ex add.commute)
  have f: "a + (l + n) - 8 = a + l + k + 12" "a + (l + n) - 4 = a + l + k + 16"
    "a + l + n - 8 = a + l + k + 12" "a + l + n - 4 = a + l + k + 16" using k by auto
  show "block_ok (put_at (put_at m (a + 8) (of_nat (l + n))) (a + l + n - 4) (of_nat a)) a (l + n) Hole"
    using ok l e k unfolding block_ok_def f by simp
  show "same_outside {a..<a + l + n} m (put_at (put_at m (a + 8) (of_nat (l + n))) (a + l + n - 4) (of_nat a))"
    unfolding f by (intro same_outside_put_chain same_outside_refl) (use l e k in auto)
qed

text \<open>The index, after one pass over it.\<close>

lemma changed_element_ok:
  assumes ok: "index_ok s" and m': "m' = ordered_array_changed_element (mem s) (h_index (heap_obj s))"
  shows "index_ok (s\<lparr>mem := m'\<rparr>)" "same_outside (index_bytes s) (mem s) m'"
    "index_list (s\<lparr>mem := m'\<rparr>) = sift (\<lambda>x y. hdr_size (mem s) x < hdr_size (mem s) y)
       (index_list s) (length (index_list s) - 1)"
    "mset (index_list (s\<lparr>mem := m'\<rparr>)) = mset (index_list s)"
proof -
  let ?a = "h_index (heap_obj s)"
  have wf: "oa_wf ?a" "oa_comparator ?a = header_t_cmp" using ok by (auto simp: index_ok_def)
  have sep: "hdr_cmp.separate (mem s) ?a"
    unfolding hdr_cmp.separate_def using ok index_separate [OF ok]
    by (auto simp: index_ok_def index_list_def)
  note ch = hdr_cmp.changed_element_list [OF wf sep, folded m']
  show list: "index_list (s\<lparr>mem := m'\<rparr>) = sift (\<lambda>x y. hdr_size (mem s) x < hdr_size (mem s) y)
       (index_list s) (length (index_list s) - 1)"
    using ch by (simp add: index_list_def)
  show same: "same_outside (index_bytes s) (mem s) m'"
    using ch region_bytes [OF ok] by (intro same_outsideI) simp
  show ms: "mset (index_list (s\<lparr>mem := m'\<rparr>)) = mset (index_list s)"
    unfolding list by (cases "index_list s") (simp_all add: mset_sift)
  show "index_ok (s\<lparr>mem := m'\<rparr>)"
    using ok mset_eq_setD [OF ms]
    by (simp add: index_ok_def index_capacity_def heap_start_def heap_end_def)
qed

section \<open>The hole on the left\<close>

lemma core_update:
  assumes core: "heap_core s (pre @ mid @ post) E" and mid: "mid \<noteq> []"
    and same: "same_outside {heap_start s + total pre..<heap_start s + total pre + total mid} (mem s) m"
    and lay: "layout m (heap_start s + total pre) mid'" and tot: "total mid' = total mid"
    and raw: "\<forall>b \<in> set mid'. snd b \<noteq> Raw"
  shows "heap_core (s\<lparr>mem := m\<rparr>) (pre @ mid' @ post) E"
    "index_list (s\<lparr>mem := m\<rparr>) = index_list s"
proof -
  note upd = index_list_updated [OF heap_coreD(1) [OF core] same le_add1]
  show "index_list (s\<lparr>mem := m\<rparr>) = index_list s" by (rule upd(2))
  have l: "layout (mem (s\<lparr>mem := m\<rparr>)) (heap_start s + total pre) mid'" using lay by simp
  have e: "mset (index_list (s\<lparr>mem := m\<rparr>)) = E" using upd(2) heap_coreD(4) [OF core] by simp
  have w: "same_outside (index_bytes s
      \<union> {heap_start s + total pre..<heap_start s + total pre + total mid}) (mem s) (mem (s\<lparr>mem := m\<rparr>))"
    using same by (auto elim: same_outside_mono)
  show "heap_core (s\<lparr>mem := m\<rparr>) (pre @ mid' @ post) E"
    by (rule heap_core_replace [OF core resized_refl(2) upd(1) l tot e w raw mid])
qed

text \<open>Changing the index alone keeps the blocks.\<close>

lemma core_index:
  assumes core: "heap_core s bs E" and res: "resized s s'" and ok: "index_ok s'"
    and list: "mset (index_list s') = E'" and same: "same_outside (index_bytes s) (mem s) (mem s')"
  shows "heap_core s' bs E'"
proof -
  have "layout (mem s') (heap_start s) bs"
  proof (rule layout_frame_region [OF heap_coreD(3) [OF core] same])
    show "{heap_start s..<heap_start s + total bs} \<inter> index_bytes s = {}"
      using index_below_body [OF heap_coreD(1) [OF core] order_refl] by blast
  qed (use heap_coreD(2,5) [OF core] in simp)
  then show ?thesis
    using core ok list unfolding heap_core_def resized_frame [OF res] by simp
qed

lemma of_nat_heap_edges:
  "of_nat (heap_start s) = allocated_start (heap_obj s)" "of_nat (heap_end s) = allocated_end (heap_obj s)"
  by (simp_all add: heap_start_def heap_end_def)

lemma set_nat:
  "set_ftr_header m (of_nat a) v = put_at m (a + 4) v" "set_hdr_size m (of_nat a) v = put_at m (a + 8) v"
  "set_hdr_is_hole m (of_nat a) v = put_at m (a + 4) v"
  by (simp_all add: set_ftr_header_def set_hdr_size_def set_hdr_is_hole_def put_at_def)

lemma merge_left_join:
  assumes core: "heap_core s (pre @ (l, Hole) # (n, Hole) # post) E"
  obtains s' where
    "merge_left s (of_nat (heap_start s + total pre + l)) (of_nat (heap_start s + total pre + l + n - 8))
       = Inr (of_nat (heap_start s + total pre), False, s')"
    "resized s s'" "heap_core s' (pre @ (l + n, Hole) # post) E"
    "same_outside (index_bytes s \<union> {heap_start s + total pre..<heap_start s + total pre + l + n})
       (mem s) (mem s')"
proof -
  let ?a = "heap_start s + total pre" and ?m = "mem s"
  let ?m2 = "put_at (put_at ?m (?a + l + n - 4) (of_nat ?a)) (?a + 8) (of_nat (l + n))"
  let ?s2 = "s\<lparr>mem := ?m2\<rparr>"
  let ?m3 = "ordered_array_changed_element ?m2 (h_index (heap_obj s))"
  have core': "heap_core s (pre @ [(l, Hole), (n, Hole)] @ post) E" using core by simp
  have ok: "block_ok ?m ?a l Hole" "block_ok ?m (?a + l) n Hole"
    using heap_coreD(3) [OF core] by (auto simp: layout_append add.assoc)
  have l: "20 \<le> l" "20 \<le> n" using ok by (auto simp: block_ok_def)
  have top: "?a + l + n + total post = heap_end s" "heap_end s < 2147483648"
    using heap_coreD(2,5) [OF core] by auto
  have bnd: "?a + l + n \<le> 4294967296" using top by linarith
  note joined = joined_block [OF ok bnd]
  have lay2: "layout ?m2 ?a [(l + n, Hole)]" using joined(1) by simp
  have same2: "same_outside {?a..<?a + total [(l, Hole), (n, Hole)]} ?m ?m2"
    using joined(2) by (simp add: add.assoc)
  note core2 = core_update [OF core' _ same2 lay2]
  have c2: "heap_core ?s2 (pre @ [(l + n, Hole)] @ post) E" by (rule core2(1)) simp_all
  note ch = changed_element_ok [of ?s2 ?m3, OF heap_coreD(1) [OF c2]]
  have okch: "index_ok (s\<lparr>mem := ?m3\<rparr>)" "same_outside (index_bytes s) ?m2 ?m3"
    "mset (index_list (s\<lparr>mem := ?m3\<rparr>)) = E"
    using ch(1,2,4) heap_coreD(4) [OF c2] resized_frame(1) [OF resized_refl(2)] by simp_all
  obtain j where j: "l = j + 20" using l(1) by (metis le_Suc_ex add.commute)
  obtain k where k: "n = k + 20" using l(2) by (metis le_Suc_ex add.commute)
  have f: "?a + l - 8 = ?a + j + 12" "?a + l - 4 = ?a + j + 16" "?a + j + 12 + 4 = ?a + j + 16"
    "?a + l + n - 8 = ?a + l + k + 12" "?a + l + n - 4 = ?a + l + k + 16"
    "?a + l + k + 12 + 4 = ?a + l + k + 16" using j k by auto
  have lf: "(of_nat (?a + l) - 8 :: u32) = of_nat (?a + j + 12)"
    unfolding f(1) [symmetric] using l by (simp only: of_nat_diff) simp
  have "(of_nat (heap_start s) :: u32) < of_nat (?a + j + 12)"
    by (rule of_nat_less_u32 [THEN iffD2]; use top j in linarith)
  then have big: "allocated_start (heap_obj s) < of_nat (?a + j + 12)"
    unfolding of_nat_heap_edges .
  have words: "word_at ?m (?a + j + 12) = KHEAP_MAGIC" "word_at ?m (?a + j + 16) = of_nat ?a"
    "word_at ?m (?a + 4) = 1" "word_at ?m ?a = KHEAP_MAGIC" "word_at ?m (?a + 8) = of_nat l"
    "word_at ?m (?a + l + 8) = of_nat n"
    using ok unfolding block_ok_def f by simp_all
  have m1: "word_at (put_at ?m (?a + l + k + 16) (of_nat ?a)) (?a + j + 16) = of_nat ?a"
    "word_at (put_at ?m (?a + l + k + 16) (of_nat ?a)) (?a + 8) = of_nat l"
    "word_at (put_at ?m (?a + l + k + 16) (of_nat ?a)) (?a + l + 8) = of_nat n"
    using words bnd j k by simp_all
  have m2: "word_at ?m2 (?a + j + 16) = of_nat ?a"
    unfolding f using words bnd j k by simp
  have m2f: "put_at (put_at ?m (?a + l + k + 16) (of_nat ?a)) (?a + 8) (of_nat l + of_nat n) = ?m2"
    unfolding f by simp
  have puts: "set_ftr_header ?m (of_nat (?a + l + k + 12)) v = put_at ?m (?a + l + k + 16) v"
    "set_hdr_size m (of_nat ?a) v = put_at m (?a + 8) v" for v m
    unfolding f(6) [symmetric] by (rule set_nat)+
  have eq: "merge_left s (of_nat (?a + l)) (of_nat (?a + l + n - 8)) = Inr (of_nat ?a, False, s\<lparr>mem := ?m3\<rparr>)"
    unfolding merge_left_def Let_def sizeof_footer_def lf f(4)
    using big words m1 m2 by (simp only: hdr_nat f(3) puts m2f simp_thms if_True assert_k_True bind_res_Inr) simp
  have same: "same_outside (index_bytes s \<union> {?a..<?a + l + n}) ?m ?m3"
    using same_outside_trans [OF joined(2) okch(2)] by (simp add: Un_commute)
  have "heap_core (s\<lparr>mem := ?m3\<rparr>) (pre @ [(l + n, Hole)] @ post) E"
    by (rule core_index [OF c2 resized_mem okch(1)]) (use okch in simp_all)
  then show ?thesis by (intro that [OF eq resized_refl(2)]) (use same in simp_all)
qed


lemma merge_left_none:
  assumes core: "heap_core s (pre @ (n, k) # post) E"
    and left: "pre = [] \<or> snd (last pre) = Used \<or> snd (last pre) = Raw"
  shows "merge_left s (of_nat (heap_start s + total pre)) footer
    = Inr (of_nat (heap_start s + total pre), True, s)"
proof (cases pre rule: rev_cases)
  case Nil
  have e: "8 \<le> heap_start s" "heap_start s < 2147483648"
    using heap_coreD(1) [OF core] by (auto simp: index_ok_def)
  have "(of_nat (heap_start s) - 8 :: u32) = of_nat (heap_start s - 8)" using e by (simp add: of_nat_diff)
  then have "\<not> (of_nat (heap_start s) - 8 :: u32) > of_nat (heap_start s)"
    using of_nat_less_u32 [of "heap_start s" "heap_start s - 8"] e by simp
  then show ?thesis unfolding merge_left_def Let_def sizeof_footer_def Nil of_nat_heap_edges(1) [symmetric]
    by simp
next
  case (snoc pre' b)
  obtain l kl where b: "b = (l, kl)" by fastforce
  let ?b = "heap_start s + total pre'"
  have ok: "block_ok (mem s) ?b l kl"
    using heap_coreD(3) [OF core] by (simp add: snoc b layout_append)
  have l: "20 \<le> l" using ok by (simp add: block_ok_def)
  obtain j where j: "l = j + 20" using l(1) by (metis le_Suc_ex add.commute)
  have f: "?b + l - 8 = ?b + j + 12" "?b + l - 4 = ?b + j + 16" "?b + j + 12 + 4 = ?b + j + 16"
    using j by auto
  have a: "heap_start s + total pre = ?b + l" by (simp add: snoc b)
  have lf: "(of_nat (?b + l) - 8 :: u32) = of_nat (?b + j + 12)"
    unfolding f(1) [symmetric] using l by (simp only: of_nat_diff) simp
  have no: "word_at (mem s) (?b + j + 12) = KHEAP_MAGIC \<Longrightarrow>
      word_at (mem s) (?b + j + 16) = of_nat ?b \<and> word_at (mem s) (?b + 4) = 0"
    using ok left unfolding block_ok_def f snoc b by auto
  have cond: "\<not> (word_at (mem s) (?b + j + 12) = KHEAP_MAGIC
      \<and> hdr_is_hole (mem s) (word_at (mem s) (?b + j + 16)) \<noteq> 0)"
  proof
    assume at: "word_at (mem s) (?b + j + 12) = KHEAP_MAGIC
      \<and> hdr_is_hole (mem s) (word_at (mem s) (?b + j + 16)) \<noteq> 0"
    then have "hdr_is_hole (mem s) (of_nat ?b) \<noteq> 0" using no by metis
    then show False unfolding hdr_nat using at no by metis
  qed
  show ?thesis unfolding merge_left_def Let_def sizeof_footer_def a lf hdr_nat f(3)
    by (subst if_not_P) (use cond in blast, rule refl)
qed

section \<open>The hole on the right\<close>

lemma index_search_spec:
  assumes "oa_wf index" "unat i \<le> unat (oa_size index)" "header \<in> set (drop (unat i) (oa_list m index))"
  shows "\<exists>r. index_search m index header i = Inr r \<and> r < oa_size index
    \<and> oa_list m index ! unat r = header"
  using assms
proof (induction m index header i rule: index_search.induct)
  case (1 m index header i)
  have i: "i < oa_size index"
  proof (rule ccontr)
    assume "\<not> i < oa_size index"
    then have "unat (oa_size index) \<le> unat i" by (simp add: word_less_nat_alt)
    then show False using 1(4) by simp
  qed
  note idx = ordered_array_index_list [OF i, of m]
  have inc: "unat (i + 1) = Suc (unat i)" using i by (rule unat_inc_below)
  show ?case
  proof (cases "oa_list m index ! unat i = header")
    case True
    then show ?thesis using i idx by (subst index_search.simps) auto
  next
    case False
    have eq: "index_search m index header i = index_search m index header (i + 1)"
      using i idx False by (subst index_search.simps) simp
    have "unat i < length (oa_list m index)" using i by (simp add: word_less_nat_alt)
    then have "drop (unat i) (oa_list m index)
        = oa_list m index ! unat i # drop (Suc (unat i)) (oa_list m index)"
      by (simp add: Cons_nth_drop_Suc)
    then have "header \<in> set (drop (unat (i + 1)) (oa_list m index))" using 1(4) False inc by auto
    moreover have "unat (i + 1) \<le> unat (oa_size index)" using i inc by (simp add: word_less_nat_alt)
    ultimately show ?thesis using 1(1) [OF i False 1(2)] eq by simp
  qed
qed

lemma merge_right_join:
  assumes core: "heap_core s (pre @ (n, Hole) # (r, Hole) # post) E"
    and E: "of_nat (heap_start s + total pre + n) \<in># E"
  obtains s' where
    "merge_right s (of_nat (heap_start s + total pre)) = Inr s'"
    "resized s s'"
    "heap_core s' (pre @ (n + r, Hole) # post) (E - {#of_nat (heap_start s + total pre + n)#})"
    "same_outside (index_bytes s \<union> {heap_start s + total pre..<heap_start s + total pre + n + r})
       (mem s) (mem s')"
proof -
  let ?a = "heap_start s + total pre" and ?m = "mem s" and ?h = "h_index (heap_obj s)"
  let ?m2 = "put_at (put_at ?m (?a + 8) (of_nat (n + r))) (?a + n + r - 4) (of_nat ?a)"
  let ?s2 = "s\<lparr>mem := ?m2\<rparr>"
  have core': "heap_core s (pre @ [(n, Hole), (r, Hole)] @ post) E" using core by simp
  have ok: "block_ok ?m ?a n Hole" "block_ok ?m (?a + n) r Hole"
    using heap_coreD(3) [OF core] by (auto simp: layout_append add.assoc)
  have l: "20 \<le> n" "20 \<le> r" using ok by (auto simp: block_ok_def)
  have top: "?a + n + r + total post = heap_end s" "heap_end s < 2147483648"
    using heap_coreD(2,5) [OF core] by auto
  have bnd: "?a + n + r \<le> 4294967296" using top by linarith
  note joined = joined_block_swap [OF ok bnd]
  have lay2: "layout ?m2 ?a [(n + r, Hole)]" using joined(1) by simp
  have same2: "same_outside {?a..<?a + total [(n, Hole), (r, Hole)]} ?m ?m2"
    using joined(2) by (simp add: add.assoc)
  note core2 = core_update [OF core' _ same2 lay2]
  have c2: "heap_core ?s2 (pre @ [(n + r, Hole)] @ post) E" by (rule core2(1)) simp_all
  note list2 = core2(2)
  have wf: "oa_wf ?h" using heap_coreD(1) [OF core] by (simp add: index_ok_def)
  have "of_nat (?a + n) \<in> set (index_list ?s2)"
    using E heap_coreD(4) [OF c2] by (metis set_mset_mset)
  then have mem: "of_nat (?a + n) \<in> set (drop (unat (0 :: u32)) (oa_list ?m2 ?h))"
    by (simp add: index_list_def)
  obtain i where i: "index_search ?m2 ?h (of_nat (?a + n)) 0 = Inr i" "i < oa_size ?h"
      "oa_list ?m2 ?h ! unat i = of_nat (?a + n)"
    using index_search_spec [OF wf _ mem] by auto
  have i2: "unat i < length (index_list ?s2)" "index_list ?s2 ! unat i = of_nat (?a + n)"
    using i(2,3) by (simp_all add: word_less_nat_alt index_list_def)
  obtain s3 where s3: "index_remove ?s2 i = Inr s3" "resized ?s2 s3" "index_ok s3"
      "index_list s3 = take (unat i) (index_list ?s2) @ drop (Suc (unat i)) (index_list ?s2)"
      "same_outside (index_bytes ?s2) (mem ?s2) (mem s3)"
    using index_remove_ok [OF heap_coreD(1) [OF c2] i2(1)] by blast
  have E3: "mset (index_list s3) = E - {#of_nat (?a + n)#}"
    unfolding s3(4) mset_remove_nth [OF i2(1)] i2(2) heap_coreD(4) [OF c2] ..
  have c3: "heap_core s3 (pre @ (n + r, Hole) # post) (E - {#of_nat (?a + n)#})"
    using core_index [OF c2 s3(2,3) E3 s3(5)] by simp
  obtain k where k: "r = k + 20" using l(2) by (metis le_Suc_ex add.commute)
  have f: "?a + n + r - 8 = ?a + n + k + 12" "?a + n + r - 4 = ?a + n + k + 16"
    "?a + n + k + 12 + 4 = ?a + n + k + 16" using k by auto
  have rh: "(of_nat ?a + of_nat n :: u32) = of_nat (?a + n)" by (simp only: of_nat_add)
  have nr: "(of_nat n + of_nat r :: u32) = of_nat (n + r)" by (simp only: of_nat_add)
  have ft: "(of_nat ?a + of_nat (n + r) - 8 :: u32) = of_nat (?a + n + k + 12)"
    unfolding f(1) [symmetric] using l by (simp only: of_nat_diff) simp
  have "(of_nat (?a + n) :: u32) < of_nat (heap_end s)"
    by (rule of_nat_less_u32 [THEN iffD2]; use top l in linarith)
  then have below: "of_nat (?a + n) < allocated_end (heap_obj s)" unfolding of_nat_heap_edges .
  have words: "word_at ?m (?a + 8) = of_nat n" "word_at ?m (?a + n) = KHEAP_MAGIC"
    "word_at ?m (?a + n + 4) = 1" "word_at ?m (?a + n + 8) = of_nat r"
    "word_at ?m (?a + n + k + 12) = KHEAP_MAGIC"
    using ok unfolding block_ok_def f by simp_all
  have m1: "word_at (put_at ?m (?a + 8) (of_nat (n + r))) (?a + n + k + 12) = KHEAP_MAGIC"
    "word_at (put_at ?m (?a + 8) (of_nat (n + r))) (?a + 8) = of_nat (n + r)"
    using words bnd k l by simp_all
  have "i \<noteq> oa_size ?h" using i(2) by simp
  then have eq: "merge_right s (of_nat ?a) = Inr s3"
    unfolding merge_right_def Let_def sizeof_footer_def hdr_nat words(1) rh
    using below words(2-4) m1 i(1) s3(1)
    by (simp only: hdr_nat set_nat nr ft f simp_thms if_True assert_k_True bind_res_Inr) simp
  have same: "same_outside (index_bytes s \<union> {?a..<?a + n + r}) ?m (mem s3)"
    using same_outside_trans [OF joined(2)] s3(5) by (auto simp: Un_commute)
  show ?thesis by (rule that [OF eq resized_trans [OF resized_refl(2) s3(2)] c3 same])
qed

lemma merge_right_none:
  assumes core: "heap_core s (pre @ (n, Hole) # post) E" and right: "post = [] \<or> snd (hd post) = Used"
  shows "merge_right s (of_nat (heap_start s + total pre)) = Inr s"
proof -
  let ?a = "heap_start s + total pre"
  have ok: "block_ok (mem s) ?a n Hole" using heap_coreD(3) [OF core] by (auto simp: layout_append)
  then have sz: "word_at (mem s) (?a + 8) = of_nat n" by (simp add: block_ok_def)
  have rh: "(of_nat ?a + of_nat n :: u32) = of_nat (?a + n)" by (simp only: of_nat_add)
  show ?thesis
  proof (cases post)
    case Nil
    then have "?a + n = heap_end s" using heap_coreD(2) [OF core] by simp
    then show ?thesis unfolding merge_right_def Let_def hdr_nat sz rh
      by (simp add: of_nat_heap_edges)
  next
    case (Cons b post')
    obtain r k where b: "b = (r, k)" by fastforce
    have "block_ok (mem s) (?a + n) r Used"
      using heap_coreD(3) [OF core] right by (auto simp: Cons b layout_append add.assoc)
    then have "word_at (mem s) (?a + n + 4) = 0" by (simp add: block_ok_def)
    then show ?thesis unfolding merge_right_def Let_def hdr_nat sz rh by (simp only: hdr_nat) simp
  qed
qed


section \<open>Freeing a block\<close>

text \<open>What freeing does to the list of blocks.\<close>

definition join_left :: "block list \<Rightarrow> nat \<Rightarrow> block list \<times> nat" where
  "join_left pre n =
     (if pre \<noteq> [] \<and> snd (last pre) = Hole then (butlast pre, fst (last pre) + n) else (pre, n))"

fun join_right :: "nat \<Rightarrow> block list \<Rightarrow> nat \<times> block list" where
  "join_right n ((r, Hole) # post) = (n + r, post)"
| "join_right n post = (n, post)"

definition free_block :: "block list \<Rightarrow> nat \<Rightarrow> block list \<Rightarrow> block list" where
  "free_block pre n post =
     (let (pre', n1) = join_left pre n; (n2, post') = join_right n1 post in pre' @ (n2, Hole) # post')"

definition not_lost :: "block list \<Rightarrow> bool" where
  "not_lost bs \<longleftrightarrow> (\<forall>b \<in> set bs. snd b \<noteq> Lost)"

lemma merge_left_ok:
  assumes core: "heap_core s (pre @ (n, Hole) # post) (mset (holes_of (heap_start s) pre) + H)"
    and lost: "pre \<noteq> [] \<Longrightarrow> snd (last pre) \<noteq> Lost" and j: "join_left pre n = (pre', n1)"
  obtains s' do_add where
    "merge_left s (of_nat (heap_start s + total pre)) (of_nat (heap_start s + total pre + n - 8))
       = Inr (of_nat (heap_start s + total pre'), do_add, s')"
    "resized s s'" "do_add \<longleftrightarrow> pre' = pre"
    "heap_core s' (pre' @ (n1, Hole) # post) (mset (holes_of (heap_start s) pre')
       + (if do_add then {#} else {#of_nat (heap_start s + total pre')#}) + H)"
    "same_outside (index_bytes s \<union> {heap_start s + total pre'..<heap_start s + total pre' + n1})
       (mem s) (mem s')"
    "total pre' + n1 = total pre + n"
proof (cases "pre \<noteq> [] \<and> snd (last pre) = Hole")
  case True
  define p0 l where "p0 = butlast pre" and "l = fst (last pre)"
  have pre: "pre = p0 @ [(l, Hole)]"
    using True unfolding p0_def l_def by (metis append_butlast_last_id prod.collapse)
  have j': "pre' = p0" "n1 = l + n" using j True by (auto simp: join_left_def p0_def l_def)
  let ?b = "heap_start s + total p0"
  have a: "heap_start s + total pre = ?b + l" by (simp add: pre)
  have core': "heap_core s (p0 @ (l, Hole) # (n, Hole) # post)
      (mset (holes_of (heap_start s) pre) + H)" using core by (simp add: pre)
  have E: "mset (holes_of (heap_start s) pre) + H
      = mset (holes_of (heap_start s) p0) + {#of_nat ?b#} + H"
    by (simp add: pre holes_of_append)
  obtain s' where s': "merge_left s (of_nat (?b + l)) (of_nat (?b + l + n - 8)) = Inr (of_nat ?b, False, s')"
    "resized s s'" "heap_core s' (p0 @ (l + n, Hole) # post) (mset (holes_of (heap_start s) pre) + H)"
    "same_outside (index_bytes s \<union> {?b..<?b + l + n}) (mem s) (mem s')"
    by (rule merge_left_join [OF core'])
  have ne: "p0 \<noteq> pre" by (simp add: pre)
  show ?thesis
  proof (rule that [of False s'])
    show "heap_core s' (pre' @ (n1, Hole) # post) (mset (holes_of (heap_start s) pre')
       + (if False then {#} else {#of_nat (heap_start s + total pre')#}) + H)"
      unfolding j' if_False using s'(3) unfolding E .
    show "total pre' + n1 = total pre + n" by (simp add: pre j')
    show "same_outside (index_bytes s \<union> {heap_start s + total pre'..<heap_start s + total pre' + n1})
       (mem s) (mem s')" using s'(4) by (simp add: j' add.assoc)
  qed (use s'(1,2) ne in \<open>simp_all only: a j' simp_thms\<close>)
next
  case False
  then have j': "pre' = pre" "n1 = n" using j by (auto simp: join_left_def)
  have "pre = [] \<or> snd (last pre) = Used \<or> snd (last pre) = Raw"
    using False lost by (cases "snd (last pre)") auto
  note none = merge_left_none [OF core this]
  show ?thesis using that [of True s] none core j' by simp
qed

lemma merge_right_ok:
  assumes core: "heap_core s (pre @ (n, Hole) # post)
      (H + mset (holes_of (heap_start s + total pre + n) post))"
    and lost: "post \<noteq> [] \<Longrightarrow> snd (hd post) \<noteq> Lost" and j: "join_right n post = (n', post')"
  obtains s' where
    "merge_right s (of_nat (heap_start s + total pre)) = Inr s'"
    "resized s s'"
    "heap_core s' (pre @ (n', Hole) # post') (H + mset (holes_of (heap_start s + total pre + n') post'))"
    "same_outside (index_bytes s \<union> {heap_start s + total pre..<heap_start s + total pre + n'})
       (mem s) (mem s')"
    "n + total post = n' + total post'"
proof (cases "\<exists>r p. post = (r, Hole) # p")
  case True
  then obtain r p where post: "post = (r, Hole) # p" by blast
  have j': "n' = n + r" "post' = p" using j by (simp_all add: post)
  have c: "heap_core s (pre @ (n, Hole) # (r, Hole) # p)
      (H + mset (holes_of (heap_start s + total pre + n) post))" using core by (simp add: post)
  have E: "of_nat (heap_start s + total pre + n) \<in># H + mset (holes_of (heap_start s + total pre + n) post)"
    by (simp add: post)
  have rest: "H + mset (holes_of (heap_start s + total pre + n) post)
      - {#of_nat (heap_start s + total pre + n)#} = H + mset (holes_of (heap_start s + total pre + n') p)"
    by (simp add: post j' add.assoc)
  show ?thesis
    by (rule merge_right_join [OF c E]) (rule that; simp_all add: rest j' post add.assoc del: of_nat_add)
next
  case False
  then have j': "n' = n" "post' = post" using j by (cases "(n, post)" rule: join_right.cases; auto)+
  have "snd (hd post) \<noteq> Raw" if "post \<noteq> []"
    using that core by (cases pre) (auto simp: heap_core_def)
  then have "post = [] \<or> snd (hd post) = Used"
    using False lost by (cases post; cases "snd (hd post)") (auto simp: prod_eq_iff)
  note none = merge_right_none [OF core this]
  show ?thesis using that [of s] none core j' by simp
qed


lemma mem_updated: "mem (s\<lparr>mem := m\<rparr>) = m"
  by simp

lemma used_to_hole:
  assumes inv: "heap_inv s (pre @ (n, Used) # post)"
  defines "m \<equiv> put_at (mem s) (heap_start s + total pre + 4) 1"
  shows "heap_core (s\<lparr>mem := m\<rparr>) (pre @ (n, Hole) # post)
      (mset (holes_of (heap_start s) pre) + mset (holes_of (heap_start s + total pre + n) post))"
    "same_outside {heap_start s + total pre..<heap_start s + total pre + n} (mem s) m"
proof -
  let ?a = "heap_start s + total pre"
  have ok: "block_ok (mem s) ?a n Used" by (rule block_at(1) [OF inv refl])
  then have n: "20 \<le> n" by (simp add: block_ok_def)
  have top: "?a + n + total post = heap_end s" "heap_end s < 2147483648"
    using block_at(2) [OF inv refl] heap_invD(5) [OF inv] .
  show same: "same_outside {?a..<?a + n} (mem s) m"
    unfolding m_def by (intro same_outside_put_chain same_outside_refl) (use n top in auto)
  obtain k where k: "n = k + 20" using n by (metis le_Suc_ex add.commute)
  have f: "?a + n - 8 = ?a + k + 12" "?a + n - 4 = ?a + k + 16" using k by auto
  have lay: "layout m ?a [(n, Hole)]"
    using ok n top k unfolding m_def layout.simps block_ok_def f by simp
  have core: "heap_core s (pre @ [(n, Used)] @ post)
      (mset (holes_of (heap_start s) pre) + mset (holes_of (?a + n) post))"
    using inv by (simp add: heap_inv_core holes_of_append)
  have "heap_core (s\<lparr>mem := m\<rparr>) (pre @ [(n, Hole)] @ post)
      (mset (holes_of (heap_start s) pre) + mset (holes_of (?a + n) post))"
    by (rule core_update(1) [OF core _ _ lay]) (use same in simp_all)
  then show "heap_core (s\<lparr>mem := m\<rparr>) (pre @ (n, Hole) # post)
      (mset (holes_of (heap_start s) pre) + mset (holes_of (?a + n) post))" by simp
qed

lemma heap_free_start:
  assumes inv: "heap_inv s (pre @ (n, Used) # post)"
  shows "heap_free s (of_nat (heap_start s + total pre + 12)) =
    bind_res (merge_left (s\<lparr>mem := put_at (mem s) (heap_start s + total pre + 4) 1\<rparr>)
        (of_nat (heap_start s + total pre)) (of_nat (heap_start s + total pre + n - 8)))
      (\<lambda>(header1, do_add, s1).
        bind_res (merge_right s1 header1) (\<lambda>s2. if do_add then index_insert s2 header1 else Inr s2))"
proof -
  let ?a = "heap_start s + total pre"
  have ok: "block_ok (mem s) ?a n Used" by (rule block_at(1) [OF inv refl])
  have n: "20 \<le> n" using ok by (simp add: block_ok_def)
  have top: "?a + n + total post = heap_end s" "heap_end s < 2147483648"
    using block_at(2) [OF inv refl] heap_invD(5) [OF inv] .
  have "(of_nat (?a + 12) :: u32) \<noteq> of_nat 0"
    using of_nat_less_u32 [of 0 "?a + 12"] n top by simp
  then have nz: "(of_nat (?a + 12) :: u32) \<noteq> 0" unfolding semiring_1_class.of_nat_0 .
  have h: "(of_nat (?a + 12) - 12 :: u32) = of_nat ?a" by simp
  have ft: "(of_nat ?a + of_nat n - 8 :: u32) = of_nat (?a + n - 8)" using n by (intro footer_address) simp
  have words: "word_at (mem s) ?a = KHEAP_MAGIC" "word_at (mem s) (?a + 8) = of_nat n"
    "word_at (mem s) (?a + n - 8) = KHEAP_MAGIC"
    using ok by (simp_all add: block_ok_def)
  show ?thesis
    unfolding heap_free_def Let_def sizeof_header_def sizeof_footer_def h
    using nz by (simp only: hdr_nat words ft set_nat if_False simp_thms assert_k_True bind_res_Inr)
qed

lemma heap_free_ok:
  assumes inv: "heap_inv s (pre @ (n, Used) # post)"
    and lost: "pre \<noteq> [] \<Longrightarrow> snd (last pre) \<noteq> Lost" "post \<noteq> [] \<Longrightarrow> snd (hd post) \<noteq> Lost"
    and j: "join_left pre n = (pre', n1)" "join_right n1 post = (n2, post')"
    and room: "pre' \<noteq> pre \<or> post' \<noteq> post \<or> length (index_list s) < index_capacity s"
  obtains s' where
    "heap_free s (of_nat (heap_start s + total pre + 12)) = Inr s'"
    "resized s s'" "heap_inv s' (pre' @ (n2, Hole) # post')"
    "same_outside (index_bytes s \<union> {heap_start s + total pre'..<heap_start s + total pre' + n2})
       (mem s) (mem s')"
proof -
  let ?a = "heap_start s + total pre" and ?b = "heap_start s + total pre'"
  let ?m = "put_at (mem s) (?a + 4) 1"
  let ?s1 = "s\<lparr>mem := ?m\<rparr>"
  note hole = used_to_hole [OF inv]
  have core1: "heap_core ?s1 (pre @ (n, Hole) # post)
      (mset (holes_of (heap_start ?s1) pre) + mset (holes_of (?a + n) post))"
    using hole(1) by simp
  obtain s2 do_add where left:
    "merge_left ?s1 (of_nat ?a) (of_nat (?a + n - 8)) = Inr (of_nat ?b, do_add, s2)"
    "resized ?s1 s2" "do_add \<longleftrightarrow> pre' = pre"
    "heap_core s2 (pre' @ (n1, Hole) # post) (mset (holes_of (heap_start s) pre')
       + (if do_add then {#} else {#of_nat ?b#}) + mset (holes_of (?a + n) post))"
    "same_outside (index_bytes s \<union> {?b..<?b + n1}) ?m (mem s2)"
    "total pre' + n1 = total pre + n"
    by (rule merge_left_ok [OF core1 lost(1) j(1), unfolded index_fields_mem mem_updated])
  note fr2 = resized_frame [OF resized_trans [OF resized_refl(2) left(2)]]
  define H where "H = mset (holes_of (heap_start s) pre') + (if do_add then {#} else {#of_nat ?b#})"
  have pos: "?a + n = ?b + n1" using left(6) by simp
  have core2: "heap_core s2 (pre' @ (n1, Hole) # post)
      (H + mset (holes_of (heap_start s2 + total pre' + n1) post))"
    using left(4) unfolding H_def fr2 pos .
  obtain s3 where right: "merge_right s2 (of_nat (heap_start s2 + total pre')) = Inr s3" "resized s2 s3"
    "heap_core s3 (pre' @ (n2, Hole) # post') (H + mset (holes_of (heap_start s2 + total pre' + n2) post'))"
    "same_outside (index_bytes s2 \<union> {heap_start s2 + total pre'..<heap_start s2 + total pre' + n2})
       (mem s2) (mem s3)"
    "n1 + total post = n2 + total post'"
    by (rule merge_right_ok [OF core2 lost(2) j(2)])
  have res3: "resized s s3" using resized_trans [OF resized_trans [OF resized_refl(2) left(2)] right(2)] .
  note fr3 = resized_frame [OF res3]
  have core3: "heap_core s3 (pre' @ (n2, Hole) # post') (H + mset (holes_of (?b + n2) post'))"
    using right(3) unfolding fr2 .
  have n12: "n1 \<le> n2" using j(2) by (cases "(n1, post)" rule: join_right.cases) auto
  have le: "total pre' \<le> total pre"
    using j(1) by (cases pre rule: rev_cases) (auto simp: join_left_def split: if_splits)
  have span: "{?a..<?a + n} \<subseteq> {?b..<?b + n2}" "{?b..<?b + n1} \<subseteq> {?b..<?b + n2}"
    using n12 pos le by auto
  have same3: "same_outside (index_bytes s \<union> {?b..<?b + n2}) (mem s) (mem s3)"
  proof (rule same_outside_mono [OF same_outside_trans [OF same_outside_trans [OF hole(2) left(5)] right(4)]])
    show "{?a..<?a + n} \<union> (index_bytes s \<union> {?b..<?b + n1})
        \<union> (index_bytes s2 \<union> {heap_start s2 + total pre'..<heap_start s2 + total pre' + n2})
      \<subseteq> index_bytes s \<union> {?b..<?b + n2}"
      unfolding fr2 using span by blast
  qed
  have holes: "mset (holes_of (heap_start s) (pre' @ (n2, Hole) # post'))
      = mset (holes_of (heap_start s) pre') + {#of_nat ?b#} + mset (holes_of (?b + n2) post')"
    by (simp add: holes_of_append)
  have free: "heap_free s (of_nat (?a + 12)) = (if do_add then index_insert s3 (of_nat ?b) else Inr s3)"
    unfolding heap_free_start [OF inv] left(1) bind_res_Inr prod.case right(1) [unfolded fr2] ..
  show ?thesis
  proof (cases do_add)
    case False
    have "heap_inv s3 (pre' @ (n2, Hole) # post')"
      using core3 False unfolding heap_inv_core H_def fr3 holes by simp
    then show ?thesis by (intro that [OF _ res3 _ same3]) (use free False in simp_all)
  next
    case True
    have H: "H = mset (holes_of (heap_start s) pre')" using True by (simp add: H_def)
    have bnd: "?b + n2 + total post' = heap_end s" "heap_end s < 2147483648"
      using right(5) pos block_at(2) [OF inv refl] heap_invD(5) [OF inv] by auto
    have cap: "length (index_list s) \<le> index_capacity s"
      using heap_invD(1) [OF inv] oa_wf_bounds
      by (auto simp: index_ok_def index_capacity_def length_index_list)
    have "length (index_list s) = length (holes_of (heap_start s) pre) + length (holes_of (?a + n) post)"
      using arg_cong [OF heap_invD(4) [OF inv], of size] by (simp add: holes_of_append)
    moreover have "length (index_list s3) = length (holes_of (heap_start s) pre)
        + length (holes_of (?b + n2) post')"
      using arg_cong [OF heap_coreD(4) [OF core3], of size] left(3) True by (simp add: H)
    moreover have "length (holes_of (?a + n) post) = (if post' = post then 0 else 1)
        + length (holes_of (?b + n2) post')"
      using j(2) pos by (cases "(n1, post)" rule: join_right.cases) (auto simp: add.assoc)
    ultimately have room3: "length (index_list s3) < index_capacity s3"
      unfolding fr3 using room left(3) True cap by (cases "post' = post") auto
    have "20 \<le> n2"
      using heap_coreD(3) [OF core3] by (simp add: layout_append block_ok_def)
    then have "heap_start s3 \<le> unat (of_nat ?b :: u32)" "unat (of_nat ?b :: u32) + 12 \<le> heap_end s3"
      unfolding fr3 using bnd by (simp_all add: unat_of_nat32 del: of_nat_add)
    then obtain s4 where s4: "index_insert s3 (of_nat ?b) = Inr s4" "resized s3 s4" "index_ok s4"
      "index_list s4 = sift (\<lambda>x y. hdr_size (mem s3) x < hdr_size (mem s3) y)
         (index_list s3 @ [of_nat ?b]) (length (index_list s3))"
      "same_outside (index_bytes s3) (mem s3) (mem s4)"
      using index_insert_ok [OF heap_coreD(1) [OF core3] room3] by blast
    have E: "mset (index_list s4) = mset (holes_of (heap_start s) (pre' @ (n2, Hole) # post'))"
      unfolding s4(4) holes using heap_coreD(4) [OF core3] by (simp add: mset_sift H)
    have res4: "resized s s4" by (rule resized_trans [OF res3 s4(2)])
    have "heap_inv s4 (pre' @ (n2, Hole) # post')"
      using core_index [OF core3 s4(2,3) E s4(5)] unfolding heap_inv_core resized_frame(3) [OF res4] .
    moreover have "same_outside (index_bytes s \<union> {?b..<?b + n2}) (mem s) (mem s4)"
      using same_outside_trans [OF same3 s4(5)] unfolding fr3 by (simp add: Un_commute Un_left_commute)
    ultimately show ?thesis by (intro that [OF _ res4]) (use free True s4(1) in simp_all)
  qed
qed


text \<open>A block that cannot be joined to a hole needs an entry of its own in the index.\<close>

lemma heap_free_full:
  assumes inv: "heap_inv s (pre @ (n, Used) # post)"
    and lost: "pre \<noteq> [] \<Longrightarrow> snd (last pre) \<noteq> Lost" "post \<noteq> [] \<Longrightarrow> snd (hd post) \<noteq> Lost"
    and alone: "join_left pre n = (pre, n)" "join_right n post = (n, post)"
    and full: "length (index_list s) = index_capacity s"
  shows "heap_free s (of_nat (heap_start s + total pre + 12))
    = Inl (Panic ''Tried to insert into a full ordered_array_t'')"
proof -
  let ?a = "heap_start s + total pre"
  let ?s1 = "s\<lparr>mem := put_at (mem s) (?a + 4) 1\<rparr>"
  note hole = used_to_hole [OF inv]
  have "pre = [] \<or> snd (last pre) = Used \<or> snd (last pre) = Raw"
    using alone(1) lost(1) by (cases pre rule: rev_cases; cases "snd (last pre)")
      (auto simp: join_left_def split: if_splits)
  note left = merge_left_none [OF hole(1) this]
  have "snd (hd post) \<noteq> Raw" if "post \<noteq> []"
    using that inv by (cases pre) (auto simp: heap_inv_def)
  then have "post = [] \<or> snd (hd post) = Used"
    using alone(2) lost(2) by (cases "(n, post)" rule: join_right.cases) auto
  note right = merge_right_none [OF hole(1) this]
  have list: "index_list ?s1 = index_list s" and ok: "index_ok ?s1"
    using index_list_updated [OF heap_invD(1) [OF inv] hole(2) le_add1] by simp_all
  have "index_insert ?s1 (of_nat ?a) = Inl (Panic ''Tried to insert into a full ordered_array_t'')"
    by (rule index_insert_full [OF ok]) (use list full in simp)
  then show ?thesis
    unfolding heap_free_start [OF inv] using left right by (simp del: of_nat_add)
qed

end
