(* ===== verification/Allocator.thy ===== *)
theory Allocator
  imports Memory "HOL-Library.Multiset"
begin

text \<open>
  The contract of a memory allocator, as its clients in the kernel rely on it: blocks
  handed out are disjoint and their bytes change only when their owner writes to them.
  The heap (theory \<open>KheapRun\<close>) and the linear allocator used before the heap is up
  (theory \<open>Kmalloc\<close>) are its interpretations.
\<close>

section \<open>Blocks of bytes\<close>

text \<open>A block is the address of its first byte and its number of bytes.\<close>

definition apart :: "nat \<times> nat \<Rightarrow> nat \<times> nat \<Rightarrow> bool" where
  "apart b c \<longleftrightarrow> {fst b..<fst b + snd b} \<inter> {fst c..<fst c + snd c} = {}"

definition kept :: "memory \<Rightarrow> memory \<Rightarrow> nat \<times> nat \<Rightarrow> bool" where
  "kept m m' b \<longleftrightarrow> (\<forall>x. fst b \<le> unat x \<and> unat x < fst b + snd b \<longrightarrow> m' x = m x)"

lemma apart_sym: "apart b c \<Longrightarrow> apart c b"
  by (auto simp: apart_def)

lemma apart_shrink: "apart (a, n) (b, k) \<Longrightarrow> n' \<le> n \<Longrightarrow> k' \<le> k \<Longrightarrow> apart (a, n') (b, k')"
  by (fastforce simp: apart_def)

text \<open>Any two blocks of a pairwise disjoint list.\<close>

lemma sorted_apart_pair:
  assumes "sorted_wrt apart xs" "mset xs = add_mset b (add_mset c B)"
  shows "apart b c"
proof -
  have "b \<in> set xs" using assms(2) by (metis set_mset_mset union_single_eq_member)
  then obtain ys zs where xs: "xs = ys @ b # zs" by (meson split_list)
  then have "mset (ys @ zs) = add_mset c B" using assms(2) by simp
  then have "c \<in> set (ys @ zs)" by (metis set_mset_mset union_single_eq_member)
  then have "apart b c \<or> apart c b" using assms(1) unfolding xs by (auto simp: sorted_wrt_append)
  then show ?thesis using apart_sym by blast
qed

lemma kept_refl [simp]: "kept m m b"
  by (simp add: kept_def)

lemma kept_trans: "kept m m' b \<Longrightarrow> kept m' m'' b \<Longrightarrow> kept m m'' b"
  by (simp add: kept_def)

section \<open>The interface\<close>

locale block_allocator =
  fixes alloc :: "'s \<Rightarrow> u32 \<Rightarrow> (u32 \<times> 's) res"
    and ready :: "'s \<Rightarrow> u32 \<Rightarrow> bool"
    and owned :: "'s \<Rightarrow> (nat \<times> nat) multiset \<Rightarrow> bool"
    and memory_of :: "'s \<Rightarrow> memory"
  assumes alloc_law: "owned s B \<Longrightarrow> ready s sz \<Longrightarrow>
      \<exists>p n s'. alloc s sz = Inr (p, s') \<and> unat sz \<le> n \<and> owned s' (add_mset (unat p, n) B)
        \<and> (\<forall>b \<in># B. kept (memory_of s) (memory_of s') b)"
    and apart_law: "owned s (add_mset b (add_mset c B)) \<Longrightarrow> apart b c"
begin

lemma owned_apart:
  "owned s (mset bs + B) \<Longrightarrow> sorted_wrt apart bs"
proof (induction bs arbitrary: B)
  case (Cons b bs)
  have "apart b c" if c: "c \<in> set bs" for c
  proof -
    have "owned s (add_mset b (add_mset c (mset (remove1 c bs) + B)))" using Cons.prems c by simp
    then show ?thesis by (rule apart_law)
  qed
  moreover have "owned s (mset bs + add_mset b B)" using Cons.prems by simp
  ultimately show ?case using Cons.IH [of "add_mset b B"] by simp
qed simp

text \<open>A block just handed out is disjoint from every block in use.\<close>

lemma alloc_fresh:
  assumes "owned s B" "ready s sz" "alloc s sz = Inr (p, s')"
  obtains n where "unat sz \<le> n" "owned s' (add_mset (unat p, n) B)"
    "\<And>b. b \<in># B \<Longrightarrow> apart (unat p, n) b \<and> kept (memory_of s) (memory_of s') b"
proof -
  obtain n where n: "unat sz \<le> n" "owned s' (add_mset (unat p, n) B)"
    "\<forall>b \<in># B. kept (memory_of s) (memory_of s') b"
    using alloc_law [OF assms(1,2)] assms(3) by auto
  have "apart (unat p, n) b" if "b \<in># B" for b
    using apart_law [of s' "(unat p, n)" b "B - {#b#}"] n(2) that by simp
  then show ?thesis using that n by blast
qed

lemma alloc_twice:
  assumes "owned s B" "ready s sz" "alloc s sz = Inr (p, s1)" "ready s1 sz'" "alloc s1 sz' = Inr (q, s2)"
  shows "apart (unat p, unat sz) (unat q, unat sz')"
proof -
  obtain n where n: "unat sz \<le> n" "owned s1 (add_mset (unat p, n) B)"
    by (rule alloc_fresh [OF assms(1-3)])
  obtain k where "unat sz' \<le> k" "apart (unat q, k) (unat p, n)"
    by (rule alloc_fresh [OF n(2) assms(4,5)]) simp
  then show ?thesis using n(1) apart_sym apart_shrink by blast
qed

end

text \<open>An allocator that takes blocks back.\<close>

locale freeing_allocator = block_allocator alloc ready owned memory_of
  for alloc :: "'s \<Rightarrow> u32 \<Rightarrow> (u32 \<times> 's) res" and ready :: "'s \<Rightarrow> u32 \<Rightarrow> bool"
    and owned :: "'s \<Rightarrow> (nat \<times> nat) multiset \<Rightarrow> bool" and memory_of :: "'s \<Rightarrow> memory" +
  fixes free :: "'s \<Rightarrow> u32 \<Rightarrow> 's res"
  assumes free_law: "owned s (add_mset (unat p, n) B) \<Longrightarrow> free s p = Inr s' \<Longrightarrow>
      owned s' B \<and> (\<forall>b \<in># B. kept (memory_of s) (memory_of s') b)"
begin

text \<open>Freeing what was just allocated: the blocks in use are what they were, with their bytes.\<close>

lemma alloc_free:
  assumes "owned s B" "ready s sz" "alloc s sz = Inr (p, s1)" "free s1 p = Inr s2"
  shows "owned s2 B" "b \<in># B \<Longrightarrow> kept (memory_of s) (memory_of s2) b"
proof -
  obtain n where n: "owned s1 (add_mset (unat p, n) B)"
    "\<forall>b \<in># B. kept (memory_of s) (memory_of s1) b"
    by (rule alloc_fresh [OF assms(1-3)]) blast
  note f = free_law [OF n(1) assms(4)]
  show "owned s2 B" using f by blast
  show "kept (memory_of s) (memory_of s2) b" if "b \<in># B"
    using f n(2) that kept_trans by blast
qed

end

end
