(* ===== verification/KheapSpec.thy ===== *)
theory KheapSpec
  imports KheapAlign KheapFree Allocator
begin

text \<open>
  \<open>heap_alloc\<close> and \<open>heap_free\<close> as operations on the list of blocks: which hole is chosen,
  the pointer returned, the heap that results, the bytes that keep their value.
\<close>

section \<open>The holes that fit\<close>

text \<open>The bytes in front of the block: none, or the offset to a page boundary.\<close>

definition front :: "nat \<Rightarrow> s32 \<Rightarrow> nat" where
  "front a page_align = (if page_align \<noteq> 0 then unat (page_align_get_offset (of_nat a)) else 0)"

lemma front_bound: "a + 4128 < 4294967296 \<Longrightarrow> front a pa < 8192"
  using page_align_get_offset_nat [of "of_nat a"]
  by (auto simp: front_def unat_of_nat32 Let_def split: if_splits)

lemma front_zero:
  "a + 4128 < 4294967296 \<Longrightarrow> front a pa = 0 \<longleftrightarrow> pa = 0 \<or> (a + 12) mod 4096 = 0"
  using page_align_get_offset_nat [of "of_nat a"]
  by (auto simp: front_def unat_of_nat32 Let_def split: if_splits)

lemma hole_fits_iff:
  assumes inv: "heap_inv s (pre @ (hsz, k) # post)" and k: "k \<noteq> Used"
    and n: "20 \<le> n" "n < 2147483648"
  shows "hole_fits (mem s) (of_nat (heap_start s + total pre)) (of_nat n) pa
    \<longleftrightarrow> k \<noteq> Lost \<and> front (heap_start s + total pre) pa + n \<le> hsz"
proof -
  let ?a = "heap_start s + total pre"
  note at = block_at [OF inv refl]
  have top: "?a + hsz + total post = heap_end s" "heap_end s < 2147483648"
    using at(2) heap_invD(5) [OF inv] .
  have bnd: "?a + 4128 < 4294967296" using top by linarith
  have s_n: "sint (of_nat n :: u32) = int n"
    using sint_small [of "of_nat n :: u32"] n by (simp add: unat_of_nat32)
  have s_h: "sint (of_nat hsz :: u32) = int hsz"
    using sint_small [of "of_nat hsz :: u32"] top by (simp add: unat_of_nat32)
  have s_o: "sint (page_align_get_offset (of_nat ?a)) = int (front ?a pa)" if "pa \<noteq> 0"
    using sint_small [of "page_align_get_offset (of_nat ?a)"] front_bound [OF bnd, of pa] that
    by (simp add: front_def)
  have plain: "(of_nat n :: u32) \<le> of_nat hsz \<longleftrightarrow> n \<le> hsz"
    using n top by (simp add: word_le_nat_alt unat_of_nat32)
  have zero: "\<not> (of_nat n :: u32) \<le> 0" using n by (simp add: word_le_nat_alt unat_of_nat32)
  show ?thesis
  proof (cases "pa = 0")
    case True
    then show ?thesis using plain zero unfolding hole_fits_def at(3) by (simp add: front_def)
  next
    case False
    have sz: "sint (if k = Lost then 0 else of_nat hsz :: u32) = (if k = Lost then 0 else int hsz)"
      using s_h by simp
    show ?thesis
      unfolding hole_fits_def at(3) sz s_o [OF False] s_n using False n by auto
  qed
qed

text \<open>What \<open>find_hole\<close> returns, in terms of the blocks.\<close>

definition fits_in :: "mm_state \<Rightarrow> block list \<Rightarrow> nat \<Rightarrow> s32 \<Rightarrow> bool" where
  "fits_in s bs n pa \<longleftrightarrow> (\<exists>pre hsz k post. bs = pre @ (hsz, k) # post \<and> k \<noteq> Used \<and> k \<noteq> Lost
     \<and> front (heap_start s + total pre) pa + n \<le> hsz)"

lemma fits_inI:
  "bs = pre @ (hsz, k) # post \<Longrightarrow> k \<noteq> Used \<Longrightarrow> k \<noteq> Lost \<Longrightarrow>
     front (heap_start s + total pre) pa + n \<le> hsz \<Longrightarrow> fits_in s bs n pa"
  by (auto simp: fits_in_def)

lemma find_hole_found:
  assumes inv: "heap_inv s bs" and n: "20 \<le> n" "n < 2147483648" and fit: "fits_in s bs n pa"
  obtains r pre hsz k post where "find_hole s (of_nat n) pa = Inr r" "r \<noteq> - 1"
    "unat r < length (index_list s)" "bs = pre @ (hsz, k) # post" "k \<noteq> Used" "k \<noteq> Lost"
    "front (heap_start s + total pre) pa + n \<le> hsz"
    "index_list s ! unat r = of_nat (heap_start s + total pre)"
    "\<forall>j < unat r. \<not> hole_fits (mem s) (index_list s ! j) (of_nat n) pa"
  using heap_invD(1) [OF inv]
proof (cases rule: find_hole_cases [of s "of_nat n" pa])
  case none
  obtain pre hsz k post where b: "bs = pre @ (hsz, k) # post" "k \<noteq> Used" "k \<noteq> Lost"
    "front (heap_start s + total pre) pa + n \<le> hsz" using fit unfolding fits_in_def by blast
  have "of_nat (heap_start s + total pre) \<in> set (holes_of (heap_start s) bs)"
    using b by (simp add: holes_of_append)
  then have "of_nat (heap_start s + total pre) \<in> set (index_list s)"
    using mset_eq_setD [OF heap_invD(4) [OF inv]] by blast
  from none(2) [OF this] show ?thesis
    using hole_fits_iff [OF inv [unfolded b(1)] b(2) n, of pa] b(3,4) by blast
next
  case (some r)
  obtain pre hsz k post where b: "bs = pre @ (hsz, k) # post" "k \<noteq> Used"
    "index_list s ! unat r = of_nat (heap_start s + total pre)"
    by (rule index_entry_hole [OF inv some(3)])
  then show ?thesis
    using that [OF some(1-3) b(1,2) _ _ b(3)] some(5)
      hole_fits_iff [OF inv [unfolded b(1)] b(2) n, of pa] some(4) by simp
qed

lemma find_hole_none:
  assumes inv: "heap_inv s bs" and n: "20 \<le> n" "n < 2147483648" and fit: "\<not> fits_in s bs n pa"
  shows "find_hole s (of_nat n) pa = Inr (- 1)"
  using heap_invD(1) [OF inv]
proof (cases rule: find_hole_cases [of s "of_nat n" pa])
  case (some r)
  obtain pre hsz k post where b: "bs = pre @ (hsz, k) # post" "k \<noteq> Used"
    "index_list s ! unat r = of_nat (heap_start s + total pre)"
    by (rule index_entry_hole [OF inv some(3)])
  then have False using hole_fits_iff [OF inv [unfolded b(1)] b(2) n, of pa] some(4) fit
    unfolding fits_in_def by metis
  then show ?thesis ..
qed


section \<open>The block allocated\<close>

definition alloc_blocks :: "block list \<Rightarrow> nat \<Rightarrow> nat \<Rightarrow> nat \<Rightarrow> block list \<Rightarrow> block list" where
  "alloc_blocks pre off n hsz post =
     pre @ (if off = 0 then (block_size hsz n, Used) # remainder hsz (block_size hsz n)
            else (off, Lost) # (n, Used) # remainder (hsz - off) n) @ post"

text \<open>
  The pieces of an allocation from a hole in the heap: the hole taken is the first that
  fits in the order of the index.
\<close>

definition taken :: "mm_state \<Rightarrow> block list \<Rightarrow> nat \<Rightarrow> s32 \<Rightarrow> block list \<Rightarrow> nat \<Rightarrow> block list \<Rightarrow> bool" where
  "taken s bs n pa pre hsz post \<longleftrightarrow>
     (\<exists>k r. bs = pre @ (hsz, k) # post \<and> k \<noteq> Used \<and> k \<noteq> Lost
        \<and> front (heap_start s + total pre) pa + n \<le> hsz
        \<and> r < length (index_list s) \<and> index_list s ! r = of_nat (heap_start s + total pre)
        \<and> (\<forall>j < r. \<not> hole_fits (mem s) (index_list s ! j) (of_nat n) pa))"

lemma taken_exists:
  assumes inv: "heap_inv s bs" and n: "20 \<le> n" "n < 2147483648" and fit: "fits_in s bs n pa"
  obtains pre hsz post where "taken s bs n pa pre hsz post"
proof -
  obtain r pre hsz k post where f: "find_hole s (of_nat n) pa = Inr r" "r \<noteq> - 1"
    "unat r < length (index_list s)" "bs = pre @ (hsz, k) # post" "k \<noteq> Used" "k \<noteq> Lost"
    "front (heap_start s + total pre) pa + n \<le> hsz"
    "index_list s ! unat r = of_nat (heap_start s + total pre)"
    "\<forall>j < unat r. \<not> hole_fits (mem s) (index_list s ! j) (of_nat n) pa"
    by (rule find_hole_found [OF inv n fit])
  then have "taken s bs n pa pre hsz post" unfolding taken_def by blast
  then show ?thesis by (rule that)
qed

lemma takenD:
  assumes "taken s bs n pa pre hsz post"
  shows "front (heap_start s + total pre) pa + n \<le> hsz"
    "\<exists>k. bs = pre @ (hsz, k) # post \<and> k \<noteq> Used \<and> k \<noteq> Lost"
  using assms by (auto simp: taken_def)

text \<open>The hole taken is the one \<open>find_hole\<close> returns.\<close>

lemma heap_alloc_found:
  assumes inv: "heap_inv s bs" and len: "unat sz + 20 < 2147483648"
    and taken: "taken s bs (unat sz + 20) pa pre hsz post"
  obtains r k where
    "heap_alloc kmalloc_ap s sz pa = carve s r (of_nat (unat sz + 20)) pa"
    "unat r < length (index_list s)" "index_list s ! unat r = of_nat (heap_start s + total pre)"
    "bs = pre @ (hsz, k) # post" "k \<noteq> Used" "k \<noteq> Lost"
    "front (heap_start s + total pre) pa + (unat sz + 20) \<le> hsz"
proof -
  let ?n = "unat sz + 20"
  have w: "sz + sizeof_header + sizeof_footer = of_nat ?n"
    by (simp add: sizeof_header_def sizeof_footer_def add.assoc)
  obtain k r where f: "bs = pre @ (hsz, k) # post" "k \<noteq> Used" "k \<noteq> Lost"
    "front (heap_start s + total pre) pa + ?n \<le> hsz"
    "r < length (index_list s)" "index_list s ! r = of_nat (heap_start s + total pre)"
    "\<forall>j < r. \<not> hole_fits (mem s) (index_list s ! j) (of_nat ?n) pa"
    using taken unfolding taken_def by blast
  have fits: "hole_fits (mem s) (index_list s ! r) (of_nat ?n) pa"
    using hole_fits_iff [OF inv [unfolded f(1)] f(2) le_add2 len, of pa] f(3,4) unfolding f(6) by blast
  have "\<exists>r'. find_hole s (of_nat ?n) pa = Inr r' \<and> r' \<noteq> - 1 \<and> unat r' = r"
    using heap_invD(1) [OF inv]
  proof (cases rule: find_hole_cases [of s "of_nat ?n" pa])
    case none
    then show ?thesis using fits f(5) nth_mem by blast
  next
    case (some r')
    then have "unat r' = r" using fits f(7) by (metis nat_neq_iff)
    then show ?thesis using some by blast
  qed
  then obtain r' where r': "find_hole s (of_nat ?n) pa = Inr r'" "r' \<noteq> - 1" "unat r' = r" by blast
  have "heap_alloc kmalloc_ap s sz pa = carve s r' (of_nat ?n) pa"
    unfolding heap_alloc_def Let_def w r'(1) bind_res_Inr using r'(2) by (simp only: if_False)
  then show ?thesis using that f r'(3) by blast
qed

lemma heap_alloc_plain:
  assumes inv: "heap_inv s bs" and len: "unat sz + 20 < 2147483648"
    and taken: "taken s bs (unat sz + 20) 0 pre hsz post"
  obtains s' where
    "heap_alloc kmalloc_ap s sz 0 = Inr (of_nat (heap_start s + total pre + 12), s')"
    "resized s s'"
    "heap_inv s' (alloc_blocks pre 0 (unat sz + 20) hsz post)"
    "same_outside (index_bytes s \<union> {heap_start s + total pre..<heap_start s + total pre + hsz})
       (mem s) (mem s')"
    "same_outside (index_bytes s \<union> metas (heap_start s + total pre)
       ((block_size hsz (unat sz + 20), Used) # remainder hsz (block_size hsz (unat sz + 20)))) (mem s) (mem s')"
    "index_sorted s \<Longrightarrow> index_sorted s'"
proof -
  let ?n = "unat sz + 20"
  obtain r k where f: "heap_alloc kmalloc_ap s sz 0 = carve s r (of_nat ?n) 0"
    "unat r < length (index_list s)" "index_list s ! unat r = of_nat (heap_start s + total pre)"
    "bs = pre @ (hsz, k) # post" "k \<noteq> Used" "k \<noteq> Lost"
    "front (heap_start s + total pre) 0 + ?n \<le> hsz"
    by (rule heap_alloc_found [OF inv len taken])
  let ?a = "heap_start s + total pre"
  have nn: "20 \<le> ?n" "?n \<le> hsz" using f(7) by (auto simp: front_def)
  obtain s' where s': "carve s r (of_nat ?n) 0 = Inr (of_nat (?a + 12), s')" "resized s s'"
    "heap_inv s' (pre @ ((block_size hsz ?n, Used) # remainder hsz (block_size hsz ?n)) @ post)"
    "same_outside (index_bytes s \<union> metas ?a
       ((block_size hsz ?n, Used) # remainder hsz (block_size hsz ?n))) (mem s) (mem s')"
    "index_sorted s \<Longrightarrow> index_sorted s'"
    using carve_plain_ok [OF inv [unfolded f(4)] f(5,6,2,3) nn] by blast
  have inv': "heap_inv s' (alloc_blocks pre 0 ?n hsz post)"
    using s'(3) by (simp add: alloc_blocks_def)
  have "layout (mem s') ?a ((block_size hsz ?n, Used) # remainder hsz (block_size hsz ?n))"
    using heap_invD(3) [OF s'(3)] resized_frame(3) [OF s'(2)] by (simp add: layout_append)
  then have "metas ?a ((block_size hsz ?n, Used) # remainder hsz (block_size hsz ?n))
      \<subseteq> {?a..<?a + hsz}"
    using metas_within nn by (fastforce simp: block_size_def)
  then have "same_outside (index_bytes s \<union> {?a..<?a + hsz}) (mem s) (mem s')"
    by (intro same_outside_mono [OF s'(4)]) blast
  then show ?thesis using that [OF _ s'(2) inv' _ s'(4)] f(1) s'(1,5) by simp
qed

lemma heap_alloc_aligned:
  assumes inv: "heap_inv s bs" and len: "unat sz + 20 < 2147483648" and pa: "pa \<noteq> 0"
    and taken: "taken s bs (unat sz + 20) pa pre hsz post" and room: "length (index_list s) < index_capacity s"
    and off: "off = front (heap_start s + total pre) pa"
  shows
    "off \<noteq> 0 \<Longrightarrow> off + (unat sz + 20) < hsz \<Longrightarrow> hsz \<le> off + (unat sz + 20) + 20 \<Longrightarrow>
       heap_alloc kmalloc_ap s sz pa =
         Inl (AssertFailed ''We have free space in the hole, but not enough to make a new one'')"
    "off = 0 \<or> off + (unat sz + 20) = hsz \<or> off + (unat sz + 20) + 20 < hsz \<Longrightarrow>
       \<exists>s'. heap_alloc kmalloc_ap s sz pa = Inr (of_nat (heap_start s + total pre + off + 12), s')
         \<and> (heap_start s + total pre + off + 12) mod 4096 = 0
         \<and> heap_inv s' (alloc_blocks pre off (unat sz + 20) hsz post) \<and> resized s s'
         \<and> same_outside (index_bytes s \<union> {heap_start s + total pre..<heap_start s + total pre + hsz})
             (mem s) (mem s')
         \<and> (index_sorted s \<longrightarrow> index_sorted s')"
proof -
  let ?n = "unat sz + 20"
  obtain r k where f: "heap_alloc kmalloc_ap s sz pa = carve s r (of_nat ?n) pa"
    "unat r < length (index_list s)" "index_list s ! unat r = of_nat (heap_start s + total pre)"
    "bs = pre @ (hsz, k) # post" "k \<noteq> Used" "k \<noteq> Lost"
    "front (heap_start s + total pre) pa + ?n \<le> hsz"
    by (rule heap_alloc_found [OF inv len taken])
  let ?a = "heap_start s + total pre" and ?off = "front (heap_start s + total pre) pa"
  have top: "?a + hsz + total post = heap_end s" "heap_end s < 2147483648"
    using block_at(2) [OF inv [unfolded f(4)] refl] heap_invD(5) [OF inv] .
  have bnd: "?a + 4128 < 4294967296" using top by linarith
  have z: "?off = 0 \<longleftrightarrow> (?a + 12) mod 4096 = 0" using front_zero [OF bnd] pa by simp
  have offw: "?off = unat (page_align_get_offset (of_nat ?a))" using pa by (simp add: front_def)
  have al: "(?a + 12 + ?off) mod 4096 = 0"
    using page_align_get_offset_aligned [of "of_nat ?a"] bnd
    unfolding block_at(4) [OF inv [unfolded f(4)] refl] offw by blast
  have nn: "20 \<le> ?n" by simp
  have gap: "heap_alloc kmalloc_ap s sz pa =
      Inl (AssertFailed ''We have free space in the hole, but not enough to make a new one'')"
    if "?off \<noteq> 0" "?off + ?n < hsz" "hsz \<le> ?off + ?n + 20"
    unfolding f(1) using that z
    by (intro carve_aligned_gap [OF inv [unfolded f(4)] f(5,6,2,3) pa _ offw nn]) simp_all
  have ok: "\<exists>s'. heap_alloc kmalloc_ap s sz pa = Inr (of_nat (?a + ?off + 12), s')
         \<and> (?a + ?off + 12) mod 4096 = 0
         \<and> heap_inv s' (alloc_blocks pre ?off ?n hsz post) \<and> resized s s'
         \<and> same_outside (index_bytes s \<union> {?a..<?a + hsz}) (mem s) (mem s')
         \<and> (index_sorted s \<longrightarrow> index_sorted s')"
    if c: "?off = 0 \<or> ?off + ?n = hsz \<or> ?off + ?n + 20 < hsz"
  proof -
    let ?mid = "if ?off = 0 then (block_size hsz ?n, Used) # remainder hsz (block_size hsz ?n)
            else (?off, Lost) # (?n, Used) # remainder (hsz - ?off) ?n"
    have "\<exists>s'. carve s r (of_nat ?n) pa = Inr (of_nat (?a + ?off + 12), s') \<and> resized s s'
        \<and> heap_inv s' (pre @ ?mid @ post) \<and> same_outside (index_bytes s \<union> metas ?a ?mid) (mem s) (mem s')
        \<and> (index_sorted s \<longrightarrow> index_sorted s')"
    proof (cases "?off = 0")
      case True
      then have "?n \<le> hsz" "pa = 0 \<or> (?a + 12) mod 4096 = 0" using f(7) z by auto
      from carve_plain_ok [OF inv [unfolded f(4)] f(5,6,2,3) nn this]
      show ?thesis using True by simp metis
    next
      case False
      then have "(?a + 12) mod 4096 \<noteq> 0" "hsz = ?off + ?n \<or> ?off + ?n + 20 < hsz" using z c by auto
      from carve_aligned_ok [OF inv [unfolded f(4)] f(5,6,2,3) pa this(1) offw nn f(7) this(2) room]
      show ?thesis using False by simp metis
    qed
    then obtain s' where s': "carve s r (of_nat ?n) pa = Inr (of_nat (?a + ?off + 12), s')" "resized s s'"
        "heap_inv s' (pre @ ?mid @ post)" "same_outside (index_bytes s \<union> metas ?a ?mid) (mem s) (mem s')"
        "index_sorted s \<longrightarrow> index_sorted s'" by blast
    have "layout (mem s') ?a ?mid"
      using heap_invD(3) [OF s'(3)] resized_frame(3) [OF s'(2)] by (simp only: layout_append simp_thms)
    then have "metas ?a ?mid \<subseteq> {?a..<?a + total ?mid}" by (rule metas_within)
    moreover have "total ?mid = hsz" using f(7) c by (auto simp: block_size_def)
    ultimately have "same_outside (index_bytes s \<union> {?a..<?a + hsz}) (mem s) (mem s')"
      by (intro same_outside_mono [OF s'(4)]) (metis Un_mono order_refl)
    moreover have "(?a + ?off + 12) mod 4096 = 0" using al by (simp only: ac_simps)
    ultimately show ?thesis using s' f(1) unfolding alloc_blocks_def by metis
  qed
  show "off \<noteq> 0 \<Longrightarrow> off + ?n < hsz \<Longrightarrow> hsz \<le> off + ?n + 20 \<Longrightarrow> heap_alloc kmalloc_ap s sz pa =
      Inl (AssertFailed ''We have free space in the hole, but not enough to make a new one'')"
    unfolding off by (rule gap)
  show "off = 0 \<or> off + ?n = hsz \<or> off + ?n + 20 < hsz \<Longrightarrow>
       \<exists>s'. heap_alloc kmalloc_ap s sz pa = Inr (of_nat (?a + off + 12), s')
         \<and> (?a + off + 12) mod 4096 = 0
         \<and> heap_inv s' (alloc_blocks pre off ?n hsz post) \<and> resized s s'
         \<and> same_outside (index_bytes s \<union> {?a..<?a + hsz}) (mem s) (mem s')
         \<and> (index_sorted s \<longrightarrow> index_sorted s')"
    unfolding off by (rule ok)
qed


section \<open>What the other blocks keep\<close>

lemma payload_apart:
  assumes inv: "heap_inv s (pre @ mid @ post)"
    and q: "(q, k) \<in> set (payloads (heap_start s) pre)
      \<union> set (payloads (heap_start s + total pre + total mid) post)"
  shows "{q..<q + k} \<inter> (index_bytes s
    \<union> {heap_start s + total pre..<heap_start s + total pre + total mid}) = {}"
    "q + k < 2147483648"
proof -
  have lay: "layout (mem s) (heap_start s) pre" "layout (mem s) (heap_start s + total pre + total mid) post"
    using heap_invD(3) [OF inv] by (auto simp: layout_append add.assoc)
  have top: "heap_start s + total pre + total mid + total post = heap_end s" "heap_end s < 2147483648"
    using heap_invD(2,5) [OF inv] by auto
  have pos: "heap_start s \<le> q \<and> q + k \<le> heap_start s + total pre
      \<or> heap_start s + total pre + total mid \<le> q \<and> q + k \<le> heap_end s"
    using q payloads_range [OF lay(1), of q k] payloads_range [OF lay(2), of q k] top by auto
  show "q + k < 2147483648" using pos top by auto
  have "heap_start s \<le> q" using pos by auto
  from index_below_body [OF heap_invD(1) [OF inv] this, of "q + k"]
  show "{q..<q + k} \<inter> (index_bytes s
      \<union> {heap_start s + total pre..<heap_start s + total pre + total mid}) = {}"
    using pos by auto
qed

lemma payload_kept:
  assumes "heap_inv s (pre @ mid @ post)"
    and "same_outside (index_bytes s
      \<union> {heap_start s + total pre..<heap_start s + total pre + total mid}) (mem s) (mem s')"
    and "b \<in> set (payloads (heap_start s) pre) \<union> set (payloads (heap_start s + total pre + total mid) post)"
  shows "kept (mem s) (mem s') b"
  unfolding kept_def
proof (intro allI impI)
  fix x :: u32 assume x: "fst b \<le> unat x \<and> unat x < fst b + snd b"
  obtain q k where b: "b = (q, k)" by fastforce
  show "mem s' x = mem s x"
    using payload_apart(1) [OF assms(1), of q k] assms(3) x
    by (intro same_outside_byte [OF assms(2)]) (auto simp: b)
qed

text \<open>The blocks of a list are pairwise disjoint.\<close>

lemma payloads_apart:
  "layout m a bs \<Longrightarrow> sorted_wrt apart (payloads a bs)"
proof (induction bs arbitrary: a)
  case (Cons b bs)
  obtain n k where b: "b = (n, k)" by fastforce
  have n: "20 \<le> n" "layout m (a + n) bs" using Cons.prems b by (auto simp: block_ok_def)
  have "apart (a + 12, n - 20) c" if "c \<in> set (payloads (a + n) bs)" for c
    using payloads_range [OF n(2), of "fst c" "snd c"] that n(1) by (auto simp: apart_def)
  then show ?case using Cons.IH [OF n(2)] b by auto
qed simp

section \<open>The blocks in use\<close>

text \<open>The allocated blocks of a heap without lost holes, as a multiset of payloads.\<close>

definition owns :: "mm_state \<Rightarrow> (nat \<times> nat) multiset \<Rightarrow> bool" where
  "owns s B \<longleftrightarrow> (\<exists>bs. heap_inv s bs \<and> not_lost bs \<and> mset (payloads (heap_start s) bs) = B)"

lemma owns_apart: "owns s (add_mset b (add_mset c B)) \<Longrightarrow> apart b c"
  unfolding owns_def by (meson heap_invD(3) payloads_apart sorted_apart_pair)

lemma find_hole_fits:
  assumes "heap_inv s bs" "unat sz + 20 < 2147483648" "fits_in s bs (unat sz + 20) 0"
  shows "find_hole s (sz + 12 + 8) 0 \<noteq> Inr (- 1)"
proof -
  have "sz + 12 + 8 = of_nat (unat sz + 20)" by (simp add: add.assoc)
  then show ?thesis using find_hole_found [OF assms(1) le_add2 assms(2,3)] by (metis sum.inject(2))
qed

lemma alloc_owned:
  assumes own: "owns s B" and len: "unat sz + 20 < 2147483648"
    and ready: "find_hole s (sz + 12 + 8) 0 \<noteq> Inr (- 1)"
  shows "\<exists>p n s'. heap_alloc kmalloc_ap s sz 0 = Inr (p, s') \<and> unat sz \<le> n
    \<and> owns s' (add_mset (unat p, n) B) \<and> (\<forall>b \<in># B. kept (mem s) (mem s') b) \<and> resized s s'"
proof -
  obtain bs where bs: "heap_inv s bs" "not_lost bs" "mset (payloads (heap_start s) bs) = B"
    using own by (auto simp: owns_def)
  let ?n = "unat sz + 20"
  have "sz + 12 + 8 = of_nat ?n" by (simp add: add.assoc)
  then have fit: "fits_in s bs ?n 0"
    using find_hole_none [OF bs(1) le_add2 len, of 0] ready by (metis add.commute)
  obtain pre hsz post where tk: "taken s bs ?n 0 pre hsz post"
    by (rule taken_exists [OF bs(1) le_add2 len fit])
  obtain s' where a:
    "heap_alloc kmalloc_ap s sz 0 = Inr (of_nat (heap_start s + total pre + 12), s')"
    "resized s s'" "heap_inv s' (alloc_blocks pre 0 ?n hsz post)"
    "same_outside (index_bytes s \<union> {heap_start s + total pre..<heap_start s + total pre + hsz})
       (mem s) (mem s')"
    by (rule heap_alloc_plain [OF bs(1) len tk])
  let ?a = "heap_start s + total pre"
  obtain k where k: "bs = pre @ (hsz, k) # post" "k \<noteq> Used" "?n \<le> hsz"
    using tk by (auto simp: taken_def front_def)
  have bn: "?n \<le> block_size hsz ?n" "block_size hsz ?n \<le> hsz" using k(3) by (auto simp: block_size_def)
  have top: "?a + hsz + total post = heap_end s" "heap_end s < 2147483648"
    using block_at(2) [OF bs(1) k(1)] heap_invD(5) [OF bs(1)] .
  have u: "unat (of_nat (?a + 12) :: u32) = ?a + 12"
    by (rule unat_of_nat32) (use top k(3) in linarith)
  have tail: "payloads (?a + block_size hsz ?n) (remainder hsz (block_size hsz ?n)) = []"
    by (simp add: remainder_def)
  have rest: "?a + block_size hsz ?n + total (remainder hsz (block_size hsz ?n)) = ?a + hsz"
    using bn by simp
  have B: "B = mset (payloads (heap_start s) pre) + mset (payloads (?a + hsz) post)"
    using bs(3) k by (simp add: payloads_append)
  have "mset (payloads (heap_start s') (alloc_blocks pre 0 ?n hsz post))
      = add_mset (?a + 12, block_size hsz ?n - 20) B"
    unfolding B resized_frame(3) [OF a(2)] alloc_blocks_def using tail rest
    by (simp add: payloads_append add.assoc)
  moreover have "not_lost (alloc_blocks pre 0 ?n hsz post)"
    using bs(2) by (auto simp: not_lost_def alloc_blocks_def k(1) remainder_def)
  ultimately have "owns s' (add_mset (unat (of_nat (?a + 12) :: u32), block_size hsz ?n - 20) B)"
    unfolding u owns_def using a(3) by blast
  moreover have "kept (mem s) (mem s') b" if "b \<in># B" for b
    using payload_kept [of s pre "[(hsz, k)]" post s' b] bs(1) a(4) that by (auto simp: B k(1))
  moreover have "unat sz \<le> block_size hsz ?n - 20" using bn(1) by simp
  ultimately show ?thesis using a(1,2) by blast
qed


lemma payloads_split:
  assumes "(q, k) \<in> set (payloads a bs)" "layout m a bs"
  obtains pre post where "bs = pre @ (k + 20, Used) # post" "q = a + total pre + 12"
proof -
  have "\<exists>pre post. bs = pre @ (k + 20, Used) # post \<and> q = a + total pre + 12"
    using assms
  proof (induction bs arbitrary: a)
    case (Cons b bs)
    obtain n kd where b: "b = (n, kd)" by fastforce
    have n: "20 \<le> n" "layout m (a + n) bs" using Cons.prems b by (auto simp: block_ok_def)
    show ?case
    proof (cases "(q, k) \<in> set (payloads (a + n) bs)")
      case True
      then obtain pre post where "bs = pre @ (k + 20, Used) # post" "q = a + n + total pre + 12"
        using Cons.IH n(2) by blast
      then show ?thesis using b by (intro exI [of _ "b # pre"] exI [of _ post]) (simp add: add.assoc)
    next
      case False
      then have "kd = Used" "q = a + 12" "n = k + 20" using Cons.prems b n by (auto split: if_splits)
      then show ?thesis using b by (intro exI [of _ "[]"] exI [of _ bs]) simp
    qed
  qed simp
  then show ?thesis using that by blast
qed

lemma join_payloads:
  assumes "join_left pre n = (pre', n1)" "join_right n1 post = (n2, post')"
  shows "payloads a (pre' @ (n2, Hole) # post') = payloads a pre @ payloads (a + total pre + n) post"
    "set pre' \<subseteq> set pre" "set post' \<subseteq> set post" "total pre' + n2 + total post' = total pre + n + total post"
proof -
  have l: "payloads a pre' = payloads a pre \<and> total pre' + n1 = total pre + n \<and> set pre' \<subseteq> set pre"
  proof (cases "pre \<noteq> [] \<and> snd (last pre) = Hole")
    case True
    then obtain p0 l where "pre = p0 @ [(l, Hole)]"
      by (metis append_butlast_last_id prod.collapse)
    then show ?thesis using assms(1) by (auto simp: join_left_def payloads_append)
  qed (use assms(1) in \<open>auto simp: join_left_def\<close>)
  have r: "payloads (c + n2) post' = payloads (c + n1) post \<and> n2 + total post' = n1 + total post
      \<and> set post' \<subseteq> set post" for c
    using assms(2) by (cases "(n1, post)" rule: join_right.cases) (auto simp: add.assoc)
  have pos: "a + total pre' + n1 = a + total pre + n" using l by simp
  show "payloads a (pre' @ (n2, Hole) # post') = payloads a pre @ payloads (a + total pre + n) post"
    unfolding payloads_append using l r [of "a + total pre'"] unfolding pos by simp
  show "set pre' \<subseteq> set pre" "set post' \<subseteq> set post" "total pre' + n2 + total post' = total pre + n + total post"
    using l r [of 0] by auto
qed

lemma free_owned:
  assumes own: "owns s (add_mset (unat p, n) B)"
  shows "(\<exists>s'. heap_free s p = Inr s' \<and> owns s' B \<and> (\<forall>b \<in># B. kept (mem s) (mem s') b) \<and> resized s s')
    \<or> (heap_free s p = Inl (Panic ''Tried to insert into a full ordered_array_t'')
        \<and> length (index_list s) = index_capacity s)"
proof -
  obtain bs where bs: "heap_inv s bs" "not_lost bs"
      "mset (payloads (heap_start s) bs) = add_mset (unat p, n) B"
    using own by (auto simp: owns_def)
  have "(unat p, n) \<in> set (payloads (heap_start s) bs)"
    using bs(3) by (metis set_mset_mset union_single_eq_member)
  then obtain pre post where b: "bs = pre @ (n + 20, Used) # post" "unat p = heap_start s + total pre + 12"
    by (rule payloads_split [OF _ heap_invD(3) [OF bs(1)]])
  let ?a = "heap_start s + total pre"
  have p: "p = of_nat (?a + 12)" unfolding b(2) [symmetric] by simp
  have lost: "pre \<noteq> [] \<Longrightarrow> snd (last pre) \<noteq> Lost" "post \<noteq> [] \<Longrightarrow> snd (hd post) \<noteq> Lost"
    using bs(2) by (auto simp: not_lost_def b(1))
  obtain pre' n1 where j1: "join_left pre (n + 20) = (pre', n1)" by fastforce
  obtain n2 post' where j2: "join_right n1 post = (n2, post')" by fastforce
  have cap: "length (index_list s) \<le> index_capacity s"
    using heap_invD(1) [OF bs(1)] oa_wf_bounds
    by (auto simp: index_ok_def index_capacity_def length_index_list)
  note j = join_payloads [OF j1 j2]
  show ?thesis
  proof (cases "pre' \<noteq> pre \<or> post' \<noteq> post \<or> length (index_list s) < index_capacity s")
    case False
    then have same: "pre' = pre" "post' = post" "length (index_list s) = index_capacity s"
      using cap by auto
    have n1: "n1 = n + 20"
      using j1 same(1) by (cases pre rule: rev_cases) (auto simp: join_left_def split: if_splits)
    have n2: "n2 = n1" using j2 same(2) by (cases "(n1, post)" rule: join_right.cases) auto
    show ?thesis unfolding p using same(3)
      heap_free_full [OF bs(1) [unfolded b(1)] lost j1 [unfolded same n1] j2 [unfolded same n2 n1]] by blast
  next
    case room: True
    obtain s' where s': "heap_free s (of_nat (?a + 12)) = Inr s'" "resized s s'"
      "heap_inv s' (pre' @ (n2, Hole) # post')"
      "same_outside (index_bytes s \<union> {heap_start s + total pre'..<heap_start s + total pre' + n2})
         (mem s) (mem s')"
      using heap_free_ok [OF bs(1) [unfolded b(1)] lost j1 j2] room by blast
    have "mset (payloads (heap_start s) bs)
        = add_mset (unat p, n) (mset (payloads (heap_start s) (pre' @ (n2, Hole) # post')))"
      unfolding j(1) b by (simp add: payloads_append add.assoc)
    then have B: "B = mset (payloads (heap_start s) (pre' @ [(n2, Hole)] @ post'))" unfolding bs(3) by simp
    have "owns s' B"
      unfolding owns_def B resized_frame(3) [OF s'(2), symmetric]
      using s'(3) bs(2) j(2,3) by (intro exI [of _ "pre' @ [(n2, Hole)] @ post'"]) (auto simp: not_lost_def b(1))
    moreover have "kept (mem s) (mem s') c" if "c \<in># B" for c
      unfolding kept_def
    proof (intro allI impI)
      fix x :: u32 assume x: "fst c \<le> unat x \<and> unat x < fst c + snd c"
      have c: "(fst c, snd c) \<in> set (payloads (heap_start s') pre')
          \<union> set (payloads (heap_start s' + total pre' + total [(n2, Hole)]) post')"
        using that unfolding B resized_frame(3) [OF s'(2)] by (auto simp: payloads_append)
      have "heap_inv s' (pre' @ [(n2, Hole)] @ post')" using s'(3) by simp
      from payload_apart(1) [OF this c] x
      have "unat x \<notin> index_bytes s \<union> {heap_start s + total pre'..<heap_start s + total pre' + n2}"
        unfolding resized_frame(1,3) [OF s'(2)] by auto
      then show "mem s' x = mem s x" by (rule same_outside_byte [OF s'(4)])
    qed
    ultimately show ?thesis using s'(1,2) p by blast
  qed
qed

text \<open>Writes to payloads keep the invariant.\<close>

lemma heap_inv_outside:
  assumes inv: "heap_inv s bs" and same: "same_outside R (mem s) m"
    and "R \<inter> metas (heap_start s) bs = {}" "R \<inter> index_bytes s = {}"
  shows "heap_inv (s\<lparr>mem := m\<rparr>) bs"
proof -
  have idx: "index_bytes s \<inter> R = {}" "metas (heap_start s) bs \<inter> R = {}" using assms(3,4) by blast+
  have "layout m (heap_start s) bs"
    by (rule layout_frame [OF heap_invD(3) [OF inv] same idx(2)]) (use heap_invD(2,5) [OF inv] in simp)
  then show ?thesis
    using inv index_ok_mem [OF heap_invD(1) [OF inv] same idx(1)] index_list_mem [OF heap_invD(1) [OF inv] same idx(1)]
    by (simp add: heap_inv_def)
qed

lemma store_owned:
  assumes own: "owns s B" and b: "b \<in># B" and x: "fst b \<le> unat x" "unat x < fst b + snd b"
  shows "owns (s\<lparr>mem := (mem s)(x := v)\<rparr>) B"
proof -
  obtain bs where bs: "heap_inv s bs" "not_lost bs" "mset (payloads (heap_start s) bs) = B"
    using own by (auto simp: owns_def)
  let ?m = "(mem s)(x := v)"
  have "b \<in> set (payloads (heap_start s) bs)" using b bs(3) by (metis set_mset_mset)
  then have b': "(fst b, snd b) \<in> set (payloads (heap_start s) bs)" by simp
  note r = payloads_range [OF heap_invD(3) [OF bs(1)] b']
  have same: "same_outside {unat x} (mem s) ?m" by (intro same_outsideI) auto
  have "index_bytes s \<inter> {heap_start s..<Suc (unat x)} = {}"
    by (rule index_below_body [OF heap_invD(1) [OF bs(1)] order_refl])
  then have idx: "index_bytes s \<inter> {unat x} = {}" using r x by auto
  have "{unat x} \<inter> metas (heap_start s) bs = {}" using r x by auto
  then have "heap_inv (s\<lparr>mem := ?m\<rparr>) bs" using heap_inv_outside [OF bs(1) same] idx by blast
  then show ?thesis using bs(2,3) unfolding owns_def by (intro exI [of _ bs]) simp
qed

end
