(* ===== verification/KheapSamples.thy ===== *)
theory KheapSamples
  imports KheapSpec
begin

text \<open>
  Small concrete heaps: the inputs at which the theorems on \<open>src/src/kheap.c\<close> are applied.
\<close>

section \<open>Sample heaps\<close>

text \<open>An index for four holes at 0x1000 and a body of two pages at 0x2000.\<close>

definition sample_memory :: memory where
  "sample_memory = put_at (write_block (\<lambda>a. 0) 0x2000 0x2000 1) 0x1000 0x2000"

definition sample_state :: "memory \<Rightarrow> u32 \<Rightarrow> mm_state" where
  "sample_state m n = \<lparr>mem = m, mem_first_unused = 0, mem_total_bytes = 0,
     frames = \<lparr>bs_base = 0x800, bs_size = 64\<rparr>, num_frames = 2048, kernel_directory = 0, current_directory = 0,
     cloning_buffer_page = 0, kernel_heap = 0x900,
     heap_obj = \<lparr>h_index = \<lparr>oa_array = 0x1000, oa_size = n, oa_max_size = 4, oa_comparator = header_t_cmp\<rparr>,
       allocated_start = 0x2000, allocated_end = 0x4000, max_addr = 0x10000,
       pages_user_mode = 0, pages_writeable = 1\<rparr>\<rparr>"

definition sample_heap :: mm_state where
  "sample_heap = sample_state sample_memory 1"

lemma sample_fields [simp]:
  "mem (sample_state m n) = m" "heap_start (sample_state m n) = 0x2000"
  "heap_end (sample_state m n) = 0x4000" "index_capacity (sample_state m n) = 4"
  "kernel_directory (sample_state m n) = 0"
  by (simp_all add: sample_state_def heap_start_def heap_end_def index_capacity_def)

lemma sample_index_list:
  "index_list (sample_state m 0) = []" "index_list (sample_state m 1) = [word_at m 0x1000]"
  "index_list (sample_state m 2) = [word_at m 0x1000, word_at m 0x1004]"
  by (simp_all add: index_list_def oa_list_def sample_state_def words_at_def word_at_def upt_rec)

lemma sample_index_ok:
  assumes "unat n \<le> 4" "\<forall>x \<in> set (index_list (sample_state m n)). 0x2000 \<le> unat x \<and> unat x + 12 \<le> 0x4000"
  shows "index_ok (sample_state m n)"
  unfolding index_ok_def sample_fields using assms
  by (simp add: sample_state_def oa_wf_def word_le_nat_alt)

lemma sample_outside: "same_outside ({0x1000..<0x1004} \<union> {0x2000..<0x4000}) (\<lambda>_. 0) sample_memory"
proof -
  have "same_outside {0x2000..<0x4000} (\<lambda>_. 0) (write_block (\<lambda>a. 0) 0x2000 0x2000 1)"
    using meta_within [of "0x2000" "0x2000"] by (intro same_outside_mono [OF write_block_ok(3)]) simp_all
  then have "same_outside ({0x1000..<0x1004} \<union> {0x2000..<0x4000}) (\<lambda>_. 0) (write_block (\<lambda>a. 0) 0x2000 0x2000 1)"
    by (rule same_outside_mono) blast
  then show ?thesis unfolding sample_memory_def by (intro same_outside_put_chain) auto
qed

lemma sample_block:
  "block_ok sample_memory 0x2000 0x2000 Hole" "word_at sample_memory 0x1000 = 0x2000"
proof -
  have k: "(0x2000 :: nat) = 8172 + 20" by simp
  show "word_at sample_memory 0x1000 = 0x2000" by (simp add: sample_memory_def)
  have ok: "block_ok (write_block (\<lambda>a. 0) 0x2000 0x2000 1) 0x2000 0x2000 Hole"
    by (rule write_block_ok(2)) simp_all
  show "block_ok sample_memory 0x2000 0x2000 Hole" unfolding sample_memory_def
    by (rule block_ok_frame [OF ok same_outside_put_at [of _ "{0x1000..<0x1004}"]]) (auto simp: meta_def)
qed

lemma sample_heap_inv: "heap_inv sample_heap [(0x2000, Hole)]"
  using sample_block unfolding sample_heap_def
  by (simp add: heap_inv_def sample_index_list sample_index_ok)


text \<open>The same heap with a block of 80 bytes at its start.\<close>

definition sample_used :: mm_state where
  "sample_used = sample_state (put_at (write_block (write_block (\<lambda>a. 0) 0x2000 100 0) 0x2064 8092 1)
     0x1000 0x2064) 1"

lemma sample_used_inv: "heap_inv sample_used [(100, Used), (8092, Hole)]"
proof -
  let ?m1 = "write_block (\<lambda>a. 0) 0x2000 100 0"
  let ?m2 = "write_block ?m1 0x2064 8092 1"
  let ?m3 = "put_at ?m2 0x1000 0x2064"
  have m1: "block_ok ?m1 0x2000 100 Used" by (rule write_block_ok(1)) simp_all
  have m2: "block_ok ?m2 0x2064 8092 Hole" "same_outside (meta 0x2064 8092) ?m1 ?m2"
    by (rule write_block_ok; simp)+
  have u2: "block_ok ?m2 0x2000 100 Used"
    by (rule block_ok_frame [OF m1 m2(2)]) (auto simp: meta_def)
  have same: "same_outside {0x1000..<0x1004} ?m2 ?m3" by (rule same_outside_put_at) simp_all
  have a: "meta 0x2000 100 \<inter> {0x1000..<0x1004} = {}" "meta 0x2064 8092 \<inter> {0x1000..<0x1004} = {}"
    by (auto simp: meta_def)
  have "block_ok ?m3 0x2000 100 Used" by (rule block_ok_frame [OF u2 same a(1)]) simp
  moreover have "block_ok ?m3 0x2064 8092 Hole" by (rule block_ok_frame [OF m2(1) same a(2)]) simp
  ultimately show ?thesis unfolding sample_used_def
    by (simp add: heap_inv_def sample_index_list sample_index_ok)
qed

lemma ownsI:
  "heap_inv s bs \<Longrightarrow> not_lost bs \<Longrightarrow> mset (payloads (heap_start s) bs) = B \<Longrightarrow> owns s B"
  by (auto simp: owns_def)

lemma sample_owns: "owns sample_heap {#}" "owns sample_used {#(0x200C, 80)#}"
  by (rule ownsI [OF sample_heap_inv]; simp add: not_lost_def)
     (rule ownsI [OF sample_used_inv]; simp add: not_lost_def sample_used_def)

end
