(* ===== verification/KheapGrow.thy ===== *)
theory KheapGrow
  imports KheapSamples
begin

text \<open>
  \<open>heap_alloc\<close> when no hole is large enough: \<open>expand\<close> maps new pages behind the heap, they
  become a hole of their own, and the request is served from it.  The new pages' tables are
  there (\<open>init_paging\<close> makes the one for the first 4 MiB of the heap's range), so mapping
  them allocates frames and nothing else.  Theory \<open>Kmalloc\<close> has the case of a missing table.
\<close>

section \<open>Mapping the new pages\<close>

definition page_slot :: "mm_state \<Rightarrow> nat \<Rightarrow> u32" where
  "page_slot s a = dir_table (kernel_directory s) (of_nat a div PAGE_SIZE div PAGES_PER_TABLE)"

definition entry_at :: "mm_state \<Rightarrow> nat \<Rightarrow> u32" where
  "entry_at s a = page_entry (load32 (mem s) (page_slot s a)) (of_nat a div PAGE_SIZE mod PAGES_PER_TABLE)"

abbreviation frame_at :: "mm_state \<Rightarrow> u32 \<Rightarrow> nat" where
  "frame_at s e \<equiv> unat (page_address (load32 (mem s) e))"

function page_list :: "nat \<Rightarrow> nat \<Rightarrow> nat list" where
  "page_list lo hi = (if lo < hi then lo # page_list (lo + 4096) hi else [])"
  by pat_completeness auto
termination by (relation "measure (\<lambda>(lo, hi). hi - lo)") auto

declare page_list.simps [simp del]

text \<open>
  Pages that can be mapped: their tables exist, their entries are clear and in different
  places, away from the directory's slots and from the bit set of the frames, which has
  a free frame for each.
\<close>

definition mappable :: "mm_state \<Rightarrow> nat list \<Rightarrow> bool" where
  "mappable s as \<longleftrightarrow> frames_wf s \<and> frame_capacity s \<le> 1048576
     \<and> length as \<le> card ({..<frame_capacity s} - used_frames s)
     \<and> (\<forall>a \<in> set as. load32 (mem s) (page_slot s a) \<noteq> 0 \<and> entry_at s a \<noteq> 0
          \<and> load32 (mem s) (entry_at s a) = 0 \<and> bytes (entry_at s a) 4 \<inter> bs_region (frames s) = {}
          \<and> bytes (page_slot s a) 4 \<inter> bs_region (frames s) = {})
     \<and> (\<forall>a \<in> set as. \<forall>b \<in> set as. bytes (page_slot s a) 4 \<inter> bytes (entry_at s b) 4 = {})
     \<and> sorted_wrt (\<lambda>a b. bytes (entry_at s a) 4 \<inter> bytes (entry_at s b) 4 = {}) as"

definition map_bytes :: "mm_state \<Rightarrow> nat list \<Rightarrow> u32 set" where
  "map_bytes s as = bs_region (frames s) \<union> (\<Union>a \<in> set as. bytes (entry_at s a) 4)"

text \<open>The pages are present, each in a frame of its own that was free before.\<close>

definition mapped :: "mm_state \<Rightarrow> mm_state \<Rightarrow> nat list \<Rightarrow> bool" where
  "mapped s s' as \<longleftrightarrow> frames s' = frames s \<and>
     (\<forall>a \<in> set as. page_present (load32 (mem s') (entry_at s a)) \<and> frame_at s' (entry_at s a) \<notin> used_frames s)
     \<and> distinct (map (\<lambda>a. frame_at s' (entry_at s a)) as)
     \<and> used_frames s' = used_frames s \<union> set (map (\<lambda>a. frame_at s' (entry_at s a)) as)"

lemma page_alloc_fresh:
  assumes wf: "frames_wf s" "frame_capacity s \<le> 1048576" "used_frames s \<noteq> {..<frame_capacity s}"
    and page: "page \<noteq> 0" "load32 (mem s) page = 0" "bytes page 4 \<inter> bs_region (frames s) = {}"
  obtains s' where "page_alloc s page kernel_mode writeable = Inr s'" "s' = s\<lparr>mem := mem s'\<rparr>"
    "page_present (load32 (mem s') page)" "frame_at s' page \<notin> used_frames s" "frame_at s' page < frame_capacity s"
    "used_frames s' = insert (frame_at s' page) (used_frames s)"
    "\<forall>x. x \<notin> bs_region (frames s) \<union> bytes page 4 \<longrightarrow> mem s' x = mem s x"
    "{..<frame_at s' page} \<subseteq> used_frames s" "load32 (mem s') page = page_filled writeable (of_nat (frame_at s' page)) 0"
proof -
  obtain f s1 where f: "frame_alloc s = Inr (f, s1)" "unat f < frame_capacity s" "unat f \<notin> used_frames s"
    "{..<unat f} \<subseteq> used_frames s" "used_frames s1 = insert (unat f) (used_frames s)" "s1 = s\<lparr>mem := mem s1\<rparr>"
    "\<forall>x. x \<notin> bs_region (frames s) \<longrightarrow> mem s1 x = mem s x"
    using frame_alloc_cases [OF wf(1)] wf(3) by blast
  define w where "w = page_filled writeable f (load32 (mem s1) page)"
  let ?s' = "s1\<lparr>mem := store32 (mem s1) page w\<rparr>"
  have fr: "frames s1 = frames s" by (subst f(6)) simp
  have old: "load32 (mem s1) page = 0"
    using page(2,3) f(7) load32_cong [of page "mem s1" "mem s"] by (auto simp del: in_bytes)
  have "page_address (load32 (mem s) page) = 0" by (simp add: page(2) page_address_def)
  then have 1: "page_alloc s page kernel_mode writeable = Inr ?s'"
    using f(1) page(1) by (simp add: page_alloc_def w_def)
  have "take_bit 20 f = f" using f(2) wf(2) by (intro take_bit_20_small) simp
  then have w: "page_present w" "page_address w = f" by (simp_all add: w_def page_filled_fields)
  have "used_frames ?s' = used_frames s1"
    using page(3) wf(1) unfolding used_frames_def fr bits_def
    by (simp add: fr words_at_frame bs_region_def frames_wf_def bs_wf_def Int_commute)
  moreover have "?s' = s\<lparr>mem := mem ?s'\<rparr>" by (subst f(6)) simp
  moreover have "w = page_filled writeable f 0" by (simp add: w_def old)
  ultimately show ?thesis using that [OF 1] w f(2-5,7) store32_outside by simp
qed

text \<open>Mapping one page leaves the others as they were.\<close>

lemma mappable_next:
  assumes map: "mappable s (a # as)" and s': "s' = s\<lparr>mem := mem s'\<rparr>"
    and fresh: "frame_at s' (entry_at s a) \<notin> used_frames s" "frame_at s' (entry_at s a) < frame_capacity s"
    and used: "used_frames s' = insert (frame_at s' (entry_at s a)) (used_frames s)"
    and out: "\<forall>x. x \<notin> bs_region (frames s) \<union> bytes (entry_at s a) 4 \<longrightarrow> mem s' x = mem s x"
  shows "mappable s' as" "\<And>b. b \<in> set (a # as) \<Longrightarrow> entry_at s' b = entry_at s b"
    "frames s' = frames s" "page_slot s' = page_slot s"
proof -
  show fr: "frames s' = frames s" and slot: "page_slot s' = page_slot s"
    by (subst s', simp add: page_slot_def fun_eq_iff)+
  have word: "load32 (mem s') p = load32 (mem s) p"
    if "bytes p 4 \<inter> bs_region (frames s) = {}" "bytes p 4 \<inter> bytes (entry_at s a) 4 = {}" for p
    using that out by (intro load32_cong) blast
  have slots: "load32 (mem s') (page_slot s b) = load32 (mem s) (page_slot s b)" if "b \<in> set (a # as)" for b
    using map that unfolding mappable_def by (intro word) auto
  show entry: "entry_at s' b = entry_at s b" if "b \<in> set (a # as)" for b
    using slots [OF that] by (simp add: entry_at_def slot)
  have "load32 (mem s') (entry_at s b) = load32 (mem s) (entry_at s b)" if "b \<in> set as" for b
    using map that unfolding mappable_def by (intro word) (auto simp: Int_commute)
  moreover have "sorted_wrt (\<lambda>a b. bytes (entry_at s' a) 4 \<inter> bytes (entry_at s' b) 4 = {}) as"
    using map entry unfolding mappable_def by (auto elim!: sorted_wrt_mono_rel [rotated])
  moreover have "length as \<le> card ({..<frame_capacity s} - used_frames s')"
  proof -
    have "{..<frame_capacity s} - used_frames s'
        = {..<frame_capacity s} - used_frames s - {frame_at s' (entry_at s a)}"
      unfolding used by blast
    then have "Suc (card ({..<frame_capacity s} - used_frames s')) = card ({..<frame_capacity s} - used_frames s)"
      using fresh by (simp add: card_Suc_Diff1 del: card_Diff_insert)
    then show ?thesis using map by (simp add: mappable_def)
  qed
  moreover have "frames_wf s' = frames_wf s" "frame_capacity s' = frame_capacity s"
    by (simp_all add: frames_wf_def frame_capacity_def fr)
  ultimately show "mappable s' as" using map entry slots unfolding mappable_def fr slot by simp
qed

lemma map_pages_ok:
  assumes "mappable s as" "as = page_list (heap_start s + i) (heap_start s + hi)" "heap_start s + hi < 4294967296"
  shows "\<exists>s'. map_pages kmalloc_ap s i hi = Inr s' \<and> s' = s\<lparr>mem := mem s'\<rparr> \<and> mapped s s' as
    \<and> (\<forall>x. x \<notin> map_bytes s as \<longrightarrow> mem s' x = mem s x)"
  using assms
proof (induction as arbitrary: s i)
  case Nil
  then have "\<not> i < hi" by (subst (asm) page_list.simps) (auto split: if_splits)
  then have "map_pages kmalloc_ap s i hi = Inr s" by (subst map_pages.simps) simp
  then show ?case by (intro exI [of _ s]) (simp add: mapped_def)
next
  case (Cons a as)
  let ?e = "entry_at s a"
  have i: "i < hi" "a = heap_start s + i" "as = page_list (heap_start s + i + 4096) (heap_start s + hi)"
    using Cons.prems(2) by (subst (asm) page_list.simps, simp split: if_splits)+
  have addr: "allocated_start (heap_obj s) + of_nat i = of_nat a" by (simp add: i(2) heap_start_def)
  have m: "frames_wf s" "frame_capacity s \<le> 1048576" "load32 (mem s) (page_slot s a) \<noteq> 0" "?e \<noteq> 0"
    "load32 (mem s) ?e = 0" "bytes ?e 4 \<inter> bs_region (frames s) = {}"
    "\<forall>b \<in> set as. bytes ?e 4 \<inter> bytes (entry_at s b) 4 = {}"
    using Cons.prems(1) by (simp_all add: mappable_def)
  have "used_frames s \<noteq> {..<frame_capacity s}" using Cons.prems(1) by (auto simp: mappable_def)
  then obtain s1 where s1:
    "page_alloc s ?e (if pages_user_mode (heap_obj s) = 0 then 1 else 0) (pages_writeable (heap_obj s)) = Inr s1"
    "s1 = s\<lparr>mem := mem s1\<rparr>" "page_present (load32 (mem s1) ?e)" "frame_at s1 ?e \<notin> used_frames s"
    "frame_at s1 ?e < frame_capacity s" "used_frames s1 = insert (frame_at s1 ?e) (used_frames s)"
    "\<forall>x. x \<notin> bs_region (frames s) \<union> bytes ?e 4 \<longrightarrow> mem s1 x = mem s x"
    using page_alloc_fresh [OF m(1,2) _ m(4-6)] by metis
  note nxt = mappable_next [OF Cons.prems(1) s1(2,4-7)]
  have start: "heap_start s1 = heap_start s" by (subst s1(2)) simp
  have "as = page_list (heap_start s1 + (i + 4096)) (heap_start s1 + hi)" unfolding start i(3) by (simp add: add.assoc)
  from Cons.IH [OF nxt(1) this] Cons.prems(3) obtain s' where
    s': "map_pages kmalloc_ap s1 (i + 4096) hi = Inr s'" "s' = s1\<lparr>mem := mem s'\<rparr>" "mapped s1 s' as"
    "\<forall>x. x \<notin> map_bytes s1 as \<longrightarrow> mem s' x = mem s1 x" unfolding start by blast
  have "get_page kmalloc_ap s (of_nat a) True (kernel_directory s) = Inr (?e, s)"
    using m(3) by (simp add: get_page_def Let_def entry_at_def page_slot_def)
  then have run: "map_pages kmalloc_ap s i hi = Inr s'"
    using i(1) s1(1) s'(1) by (subst map_pages.simps) (simp add: addr)
  have other: "map_bytes s1 as = map_bytes s as" unfolding map_bytes_def nxt(3) using nxt(2) by simp
  then have region: "map_bytes s1 as \<subseteq> map_bytes s (a # as)" by (auto simp: other map_bytes_def simp del: in_bytes)
  have "bytes ?e 4 \<inter> map_bytes s1 as = {}"
    unfolding other unfolding map_bytes_def Int_Un_distrib Int_UN_distrib m(6) using m(7) by simp
  then have e: "load32 (mem s') ?e = load32 (mem s1) ?e" using s'(4) by (intro load32_cong) (metis disjoint_iff)
  have entries: "map (\<lambda>b. frame_at s' (entry_at s1 b)) as = map (\<lambda>b. frame_at s' (entry_at s b)) as"
    using nxt(2) by simp
  have tail: "\<forall>b \<in> set as. page_present (load32 (mem s') (entry_at s b))
      \<and> frame_at s' (entry_at s b) \<notin> insert (frame_at s1 ?e) (used_frames s)"
    using s'(3) nxt(2) unfolding mapped_def s1(6) by simp
  have dist: "distinct (map (\<lambda>b. frame_at s' (entry_at s b)) as)"
    "used_frames s' = insert (frame_at s1 ?e) (used_frames s) \<union> set (map (\<lambda>b. frame_at s' (entry_at s b)) as)"
    "frames s' = frames s1" using s'(3) [unfolded mapped_def entries s1(6)] by blast+
  have "mapped s s' (a # as)"
    unfolding mapped_def list.map list.set distinct.simps e
  proof (intro conjI)
    show "frames s' = frames s" using dist(3) nxt(3) by simp
    show "\<forall>b \<in> insert a (set as). page_present (load32 (mem s') (entry_at s b)) \<and> frame_at s' (entry_at s b) \<notin> used_frames s"
      using s1(3,4) tail unfolding ball_simps e by blast
    show "frame_at s1 ?e \<notin> set (map (\<lambda>b. frame_at s' (entry_at s b)) as)"
      using tail unfolding set_map by (metis (no_types, lifting) imageE insertI1)
    show "used_frames s' = used_frames s \<union> insert (frame_at s1 ?e) (set (map (\<lambda>b. frame_at s' (entry_at s b)) as))"
      unfolding dist(2) by blast
  qed (rule dist(1))
  moreover have "s' = s\<lparr>mem := mem s'\<rparr>" by (subst s'(2), subst s1(2)) simp
  moreover have "\<forall>x. x \<notin> map_bytes s (a # as) \<longrightarrow> mem s' x = mem s x"
  proof (intro allI impI)
    fix x assume "x \<notin> map_bytes s (a # as)"
    then have "x \<notin> map_bytes s1 as" "x \<notin> bs_region (frames s) \<union> bytes ?e 4"
      using region by (auto simp: map_bytes_def simp del: in_bytes)
    then show "mem s' x = mem s x" using s'(4) s1(7) by simp
  qed
  ultimately show ?case using run by blast
qed

section \<open>Growing\<close>

text \<open>The length of the body after \<open>expand\<close>, and the pages it maps, for a request of \<open>n\<close> bytes.\<close>

definition grown_length :: "mm_state \<Rightarrow> nat \<Rightarrow> nat" where
  "grown_length s n = (heap_end s - heap_start s + n + 4096 + 4095) div 4096 * 4096"

definition new_pages :: "mm_state \<Rightarrow> nat \<Rightarrow> nat list" where
  "new_pages s n = page_list (heap_end s) (heap_start s + grown_length s n)"

text \<open>
  The heap may grow: it stays below its limit and below \<open>2 ^ 31\<close>, the index has a free
  entry, and the new pages can be mapped without touching the heap.
\<close>

definition can_grow :: "mm_state \<Rightarrow> nat \<Rightarrow> bool" where
  "can_grow s n \<longleftrightarrow>
     heap_start s + grown_length s n \<le> unat (max_addr (heap_obj s))
     \<and> heap_start s + grown_length s n < 2147483648
     \<and> length (index_list s) < index_capacity s
     \<and> mappable s (new_pages s n)
     \<and> unat ` map_bytes s (new_pages s n) \<inter> (index_bytes s \<union> {heap_start s..<heap_start s + grown_length s n}) = {}"

lemma grown_length_bounds:
  "heap_end s - heap_start s + n + 4096 \<le> grown_length s n"
  "grown_length s n < heap_end s - heap_start s + n + 8192" "grown_length s n mod 4096 = 0"
proof -
  obtain q r where x: "heap_end s - heap_start s + n + 4096 = 4096 * q + r" "r < 4096"
    "(heap_end s - heap_start s + n + 4096) mod 4096 = r" by (rule page_split)
  then have "grown_length s n = (if r = 0 then 4096 * q else 4096 * q + 4096)"
    unfolding grown_length_def page_next by (simp only: add_diff_cancel_right' add_0_right split: if_split) simp
  then show "heap_end s - heap_start s + n + 4096 \<le> grown_length s n"
    "grown_length s n < heap_end s - heap_start s + n + 8192"
    using x(1,2) by (simp_all split: if_splits)
  show "grown_length s n mod 4096 = 0" by (simp add: grown_length_def)
qed

lemma grown_round:
  assumes "grown_length s n < 4294967296"
  shows "page_round_up (of_nat (heap_end s - heap_start s + n + 4096)) = of_nat (grown_length s n)"
proof (rule word_unat_eq_iff [THEN iffD2])
  let ?N = "heap_end s - heap_start s + n + 4096"
  obtain q where q: "grown_length s n = 4096 * q" by (metis grown_length_def mult.commute)
  then have "q < 1048576" using assms by simp
  then have "grown_length s n \<le> 4294963200" using q by simp
  then have N: "?N \<le> 4294963200" using grown_length_bounds(1) [of s n] by linarith
  then have u: "unat (of_nat ?N :: u32) = ?N" by (intro unat_of_nat32) linarith
  have "unat (page_round_up (of_nat ?N)) = (unat (of_nat ?N :: u32) + 4095) div 4096 * 4096"
    by (rule page_round_up_nat) (unfold u, rule N)
  then show "unat (page_round_up (of_nat ?N)) = unat (of_nat (grown_length s n) :: u32)"
    unfolding u grown_length_def [symmetric] using assms by (simp only: unat_of_nat32)
qed

text \<open>\<open>expand\<close> as \<open>heap_grow\<close> calls it, up to the loop.\<close>

lemma expand_pages:
  assumes ok: "index_ok s" and len: "heap_start s + grown_length s n < 4294967296"
  shows "expand kmalloc_ap s (allocated_end (heap_obj s) - allocated_start (heap_obj s) + of_nat n + PAGE_SIZE)
    = (if heap_start s + grown_length s n \<le> unat (max_addr (heap_obj s))
       then bind_res (map_pages kmalloc_ap s (heap_end s - heap_start s) (grown_length s n)) (\<lambda>s1.
         Inr (s1\<lparr>heap_obj := (heap_obj s1)\<lparr>allocated_end := allocated_start (heap_obj s1) + of_nat (grown_length s n)\<rparr>\<rparr>))
       else Inl (AssertFailed ''Cannot expand heap: not enough free space available''))"
proof -
  let ?L = "heap_end s - heap_start s" and ?G = "grown_length s n"
  let ?N = "of_nat (?L + n + 4096) :: u32"
  have le: "heap_start s \<le> heap_end s" using ok by (simp add: index_ok_def)
  note b = grown_length_bounds [where s = s and n = n]
  have old: "allocated_end (heap_obj s) - allocated_start (heap_obj s) = of_nat ?L"
    using le by (simp add: heap_start_def heap_end_def of_nat_diff)
  have arg: "(of_nat ?L + of_nat n + PAGE_SIZE :: u32) = ?N" by (simp add: PAGE_SIZE_def)
  have round: "page_round_up ?N = of_nat ?G" using len by (intro grown_round) linarith
  have u: "unat (of_nat ?G :: u32) = ?G" "unat (of_nat ?L :: u32) = ?L" "unat (of_nat (heap_start s + ?G) :: u32) = heap_start s + ?G"
    by (rule unat_of_nat32; use len b(1) in linarith)+
  have sum: "allocated_start (heap_obj s) + of_nat ?G = of_nat (heap_start s + ?G)" by (simp add: heap_start_def)
  have "of_nat ?L < (of_nat ?G :: u32)"
    "of_nat (heap_start s + ?G) \<le> max_addr (heap_obj s) \<longleftrightarrow> heap_start s + ?G \<le> unat (max_addr (heap_obj s))"
    using b(1) u by (simp_all only: word_less_nat_alt word_le_nat_alt)
  then show ?thesis unfolding expand_def Let_def old arg round sum u(1,2) assert_k_def by simp
qed

text \<open>An error of \<open>expand\<close> is the result of the allocation.\<close>

lemma heap_alloc_expand_fails:
  assumes "heap_inv s bs" "unat sz + 20 < 2147483648" "\<not> fits_in s bs (unat sz + 20) pa"
    and "expand kmalloc_ap s (allocated_end (heap_obj s) - allocated_start (heap_obj s) + of_nat (unat sz + 20) + PAGE_SIZE) = Inl e"
  shows "heap_alloc kmalloc_ap s sz pa = Inl e"
proof -
  have w: "sz + sizeof_header + sizeof_footer = of_nat (unat sz + 20)"
    by (simp add: sizeof_header_def sizeof_footer_def add.assoc)
  have "heap_grow kmalloc_ap s (of_nat (unat sz + 20)) pa = Inl e"
    unfolding heap_grow_def Let_def assms(4) by simp
  then show ?thesis
    unfolding heap_alloc_def Let_def w find_hole_none [OF assms(1) le_add2 assms(2,3)] by simp
qed

lemma expand_ok:
  assumes ok: "index_ok s" and grow: "can_grow s n"
  obtains s1 where "expand kmalloc_ap s (of_nat (heap_end s - heap_start s + n + 4096)) = Inr s1"
    "s1 = s\<lparr>mem := mem s1, heap_obj := (heap_obj s)\<lparr>allocated_end := of_nat (heap_start s + grown_length s n)\<rparr>\<rparr>"
    "mapped s s1 (new_pages s n)" "\<forall>x. x \<notin> map_bytes s (new_pages s n) \<longrightarrow> mem s1 x = mem s x"
proof -
  let ?L = "heap_end s - heap_start s" and ?G = "grown_length s n"
  have le: "heap_start s \<le> heap_end s" using ok by (simp add: index_ok_def)
  have g: "heap_start s + ?G < 4294967296" "heap_start s + ?G \<le> unat (max_addr (heap_obj s))"
    using grow by (auto simp: can_grow_def)
  have arg: "allocated_end (heap_obj s) - allocated_start (heap_obj s) + of_nat n + PAGE_SIZE
      = (of_nat (?L + n + 4096) :: u32)"
    using le by (simp add: heap_start_def heap_end_def of_nat_diff PAGE_SIZE_def)
  have sum: "allocated_start (heap_obj s) + of_nat ?G = of_nat (heap_start s + ?G)" by (simp add: heap_start_def)
  have pages: "new_pages s n = page_list (heap_start s + ?L) (heap_start s + ?G)" using le by (simp add: new_pages_def)
  have "mappable s (new_pages s n)" using grow by (simp add: can_grow_def)
  from map_pages_ok [OF this pages g(1)] obtain s' where
    s': "map_pages kmalloc_ap s ?L ?G = Inr s'" "s' = s\<lparr>mem := mem s'\<rparr>" "mapped s s' (new_pages s n)"
    "\<forall>x. x \<notin> map_bytes s (new_pages s n) \<longrightarrow> mem s' x = mem s x" by blast
  let ?s1 = "s'\<lparr>heap_obj := (heap_obj s')\<lparr>allocated_end := allocated_start (heap_obj s') + of_nat ?G\<rparr>\<rparr>"
  have h: "heap_obj s' = heap_obj s" by (subst s'(2)) simp
  have 1: "expand kmalloc_ap s (of_nat (?L + n + 4096)) = Inr ?s1"
    unfolding arg [symmetric] expand_pages [OF ok g(1)] using g(2) s'(1) by simp
  have 2: "?s1 = s\<lparr>mem := mem ?s1, heap_obj := (heap_obj s)\<lparr>allocated_end := of_nat (heap_start s + ?G)\<rparr>\<rparr>"
    unfolding h sum by (subst s'(2)) simp
  have "used_frames ?s1 = used_frames s'" by (simp add: used_frames_def)
  then have 3: "mapped s ?s1 (new_pages s n)" using s'(3) unfolding mapped_def by simp
  show ?thesis by (rule that [OF 1 2 3]) (use s'(4) in simp)
qed

lemma heap_inv_extend:
  assumes inv: "heap_inv s bs" and s2: "s2 = s\<lparr>mem := m, heap_obj := (heap_obj s)\<lparr>allocated_end := of_nat e\<rparr>\<rparr>"
    and e: "heap_end s + g = e" "e < 2147483648"
    and same: "same_outside (R \<union> {heap_end s..<e}) (mem s) m" "R \<inter> (index_bytes s \<union> {heap_start s..<e}) = {}"
    and block: "block_ok m (heap_end s) g Hole" and room: "length (index_list s) < index_capacity s"
  obtains s3 where "index_insert s2 (of_nat (heap_end s)) = Inr s3" "resized s2 s3"
    "heap_inv s3 (bs @ [(g, Hole)])" "same_outside (index_bytes s) m (mem s3)"
    "length (index_list s3) = Suc (length (index_list s))"
proof -
  let ?v = "of_nat (heap_end s) :: u32"
  note ok = heap_invD(1) [OF inv]
  have le: "heap_start s \<le> heap_end s" using ok by (simp add: index_ok_def)
  have below: "index_bytes s \<inter> {heap_start s..<b} = {}" for b by (rule index_below_body [OF ok order_refl])
  have fields: "index_bytes s2 = index_bytes s" "index_capacity s2 = index_capacity s" "heap_start s2 = heap_start s"
    "heap_end s2 = e" "mem s2 = m" "h_index (heap_obj s2) = h_index (heap_obj s)"
    using e(2) unfolding s2 by (simp_all add: index_bytes_def index_capacity_def heap_start_def heap_end_def unat_of_nat32)
  have "index_bytes s \<inter> (R \<union> {heap_end s..<e}) = {}"
    using same(2) below [of e] le by auto
  note list = index_list_mem [OF ok same(1) this]
  then have list2: "index_list s2 = index_list s" by (simp add: index_list_def fields)
  have ok2: "index_ok s2"
    using ok e unfolding index_ok_def list2 fields by auto
  have g: "20 \<le> g" using block by (simp add: block_ok_def)
  have v: "unat ?v = heap_end s" using e by (simp add: unat_of_nat32)
  have "length (index_list s2) < index_capacity s2" "heap_start s2 \<le> unat ?v" "unat ?v + 12 \<le> heap_end s2"
    using room le e g by (simp_all add: list2 fields v)
  from index_insert_ok [OF ok2 this] obtain s3 where s3: "index_insert s2 ?v = Inr s3" "resized s2 s3" "index_ok s3"
    "index_list s3 = sift (\<lambda>x y. hdr_size (mem s2) x < hdr_size (mem s2) y) (index_list s2 @ [?v]) (length (index_list s2))"
    "same_outside (index_bytes s2) (mem s2) (mem s3)" by blast
  note fr = resized_frame [OF s3(2)]
  have "layout m (heap_start s) bs"
    using heap_invD(2,3,5) [OF inv] same(2) e
    by (intro layout_frame_region [OF _ same(1)]) auto
  then have lay: "layout m (heap_start s) (bs @ [(g, Hole)])"
    using block heap_invD(2) [OF inv] by (simp add: layout_append)
  have "layout (mem s3) (heap_start s) (bs @ [(g, Hole)])"
    using s3(5) below [of e] heap_invD(2) [OF inv] e unfolding fields
    by (intro layout_frame_region [OF lay]) (auto simp: add.assoc)
  moreover have "mset (index_list s3) = mset (holes_of (heap_start s) (bs @ [(g, Hole)]))"
    using heap_invD(2,4) [OF inv] unfolding s3(4) list2 by (simp add: mset_sift holes_of_append)
  moreover have "\<forall>b \<in> set (tl (bs @ [(g, Hole)])). snd b \<noteq> Raw"
    using inv by (cases bs) (auto simp: heap_inv_def)
  ultimately have "heap_inv s3 (bs @ [(g, Hole)])"
    using s3(3) heap_invD(2) [OF inv] e(1) by (simp add: heap_inv_def fr fields add.assoc)
  moreover have "length (index_list s3) = Suc (length (index_list s))" unfolding s3(4) list2 by (simp add: length_sift)
  ultimately show ?thesis using that [OF s3(1,2)] s3(5) by (simp add: fields)
qed

definition grown_hole :: "mm_state \<Rightarrow> nat \<Rightarrow> nat" where
  "grown_hole s n = grown_length s n - (heap_end s - heap_start s)"

lemma grown_hole_bounds:
  "n + 4096 \<le> grown_hole s n" "heap_start s \<le> heap_end s \<Longrightarrow> heap_end s + grown_hole s n = heap_start s + grown_length s n"
  "heap_start s \<le> heap_end s \<Longrightarrow> heap_start s mod 4096 = 0 \<Longrightarrow> heap_end s mod 4096 = 0 \<Longrightarrow> grown_hole s n mod 4096 = 0"
proof -
  note b = grown_length_bounds [where s = s and n = n]
  show "n + 4096 \<le> grown_hole s n" using b(1) by (simp add: grown_hole_def)
  show e: "heap_end s + grown_hole s n = heap_start s + grown_length s n" if "heap_start s \<le> heap_end s"
    using b(1) that by (simp add: grown_hole_def)
  show "grown_hole s n mod 4096 = 0"
    if "heap_start s \<le> heap_end s" "heap_start s mod 4096 = 0" "heap_end s mod 4096 = 0"
  proof -
    have "(heap_end s + grown_hole s n) mod 4096 = 0" unfolding e [OF that(1)] using that(2) b(3) by (simp add: mod_add_eq [symmetric])
    then show ?thesis using that(3) by (metis add_0_left mod_add_left_eq)
  qed
qed

text \<open>What \<open>heap_grow\<close> makes: a hole behind the blocks the heap had, with its entry in the index.\<close>

lemma heap_grow_state:
  assumes inv: "heap_inv s bs" and grow: "can_grow s n" and n: "20 \<le> n"
  obtains s1 s3 where "expand kmalloc_ap s (of_nat (heap_end s - heap_start s) + of_nat n + PAGE_SIZE) = Inr s1"
    "index_insert (s1\<lparr>mem := write_block (mem s1) (heap_end s) (grown_hole s n) 1\<rparr>) (of_nat (heap_end s)) = Inr s3"
    "allocated_end (heap_obj s1) = of_nat (heap_end s + grown_hole s n)"
    "allocated_start (heap_obj s1) = allocated_start (heap_obj s)"
    "heap_inv s3 (bs @ [(grown_hole s n, Hole)])" "mapped s s1 (new_pages s n)"
    "same_outside (index_bytes s \<union> {heap_end s..<heap_end s + grown_hole s n}) (mem s1) (mem s3)"
    "\<forall>x. x \<notin> map_bytes s (new_pages s n) \<longrightarrow> mem s1 x = mem s x"
    "length (index_list s3) = Suc (length (index_list s))"
    "index_capacity s3 = index_capacity s" "index_bytes s3 = index_bytes s" "heap_start s3 = heap_start s" "frames s3 = frames s" "kernel_heap s3 = kernel_heap s"
proof -
  let ?g = "grown_hole s n" and ?e = "heap_end s + grown_hole s n"
  note ok = heap_invD(1) [OF inv]
  have le: "heap_start s \<le> heap_end s" using ok by (simp add: index_ok_def)
  note gb = grown_hole_bounds(1) [of n s] grown_hole_bounds(2) [OF le]
  obtain s1 where s1: "expand kmalloc_ap s (of_nat (heap_end s - heap_start s + n + 4096)) = Inr s1"
    "s1 = s\<lparr>mem := mem s1, heap_obj := (heap_obj s)\<lparr>allocated_end := of_nat (heap_start s + grown_length s n)\<rparr>\<rparr>"
    "mapped s s1 (new_pages s n)" "\<forall>x. x \<notin> map_bytes s (new_pages s n) \<longrightarrow> mem s1 x = mem s x"
    by (rule expand_ok [OF ok grow])
  let ?m = "write_block (mem s1) (heap_end s) ?g 1"
  have e: "?e < 2147483648" using grow gb(2) by (simp add: can_grow_def)
  have wr: "block_ok ?m (heap_end s) ?g Hole" "same_outside (meta (heap_end s) ?g) (mem s1) ?m"
    using gb(1) e by (intro write_block_ok; simp)+
  let ?R = "unat ` map_bytes s (new_pages s n)"
  have "same_outside ?R (mem s) (mem s1)" using s1(4) by (intro same_outsideI) auto
  moreover have block: "same_outside {heap_end s..<?e} (mem s1) ?m"
    using meta_within [of ?g "heap_end s"] gb(1) n by (intro same_outside_mono [OF wr(2)]) simp
  ultimately have same: "same_outside (?R \<union> {heap_end s..<?e}) (mem s) ?m" by (rule same_outside_trans)
  have apart: "?R \<inter> (index_bytes s \<union> {heap_start s..<?e}) = {}" using grow by (simp add: can_grow_def gb(2))
  have state: "s1\<lparr>mem := ?m\<rparr> = s\<lparr>mem := ?m, heap_obj := (heap_obj s)\<lparr>allocated_end := of_nat ?e\<rparr>\<rparr>"
    by (subst s1(2)) (simp add: gb(2))
  have room: "length (index_list s) < index_capacity s" using grow by (simp add: can_grow_def)
  obtain s3 where s3: "index_insert (s1\<lparr>mem := ?m\<rparr>) (of_nat (heap_end s)) = Inr s3" "resized (s1\<lparr>mem := ?m\<rparr>) s3"
    "heap_inv s3 (bs @ [(?g, Hole)])" "same_outside (index_bytes s) ?m (mem s3)"
    "length (index_list s3) = Suc (length (index_list s))"
    by (rule heap_inv_extend [OF inv state refl e same apart wr(1) room])
  have fields: "index_capacity s3 = index_capacity s" "index_bytes s3 = index_bytes s" "heap_start s3 = heap_start s"
    unfolding resized_frame [OF s3(2)] unfolding state
    by (simp_all add: index_capacity_def index_bytes_def heap_start_def)
  have fr: "frames s3 = frames s" "kernel_heap s3 = kernel_heap s"
    using s3(2) unfolding state by (auto simp: resized_def)
  have out: "same_outside (index_bytes s \<union> {heap_end s..<?e}) (mem s1) (mem s3)"
    using same_outside_trans [OF block s3(4)] by (rule same_outside_mono) blast
  have 1: "expand kmalloc_ap s (of_nat (heap_end s - heap_start s) + of_nat n + PAGE_SIZE) = Inr s1"
    using s1(1) by (simp add: PAGE_SIZE_def)
  have 2: "allocated_end (heap_obj s1) = of_nat ?e" "allocated_start (heap_obj s1) = allocated_start (heap_obj s)"
    by (subst s1(2), simp add: gb(2))+
  show ?thesis by (rule that [OF 1 s3(1) 2 s3(3) s1(3) out s1(4) s3(5) fields fr])
qed

text \<open>Then the request is served from the new hole, as if the heap had had it.\<close>

lemma heap_alloc_grown:
  assumes inv: "heap_inv s bs" and len: "unat sz + 20 < 2147483648" and grow: "can_grow s (unat sz + 20)"
    and none: "\<not> fits_in s bs (unat sz + 20) pa" and aligned: "pa \<noteq> 0 \<Longrightarrow> heap_end s mod 4096 = 0"
  obtains s1 s3 where "heap_alloc kmalloc_ap s sz pa = heap_alloc kmalloc_ap s3 sz pa"
    "heap_inv s3 (bs @ [(grown_hole s (unat sz + 20), Hole)])"
    "taken s3 (bs @ [(grown_hole s (unat sz + 20), Hole)]) (unat sz + 20) pa bs (grown_hole s (unat sz + 20)) []"
    "front (heap_end s) pa = (if pa = 0 then 0 else 4084)"
    "mapped s s1 (new_pages s (unat sz + 20))"
    "same_outside (index_bytes s \<union> {heap_end s..<heap_end s + grown_hole s (unat sz + 20)}) (mem s1) (mem s3)"
    "\<forall>x. x \<notin> map_bytes s (new_pages s (unat sz + 20)) \<longrightarrow> mem s1 x = mem s x"
    "length (index_list s3) = Suc (length (index_list s))"
    "index_capacity s3 = index_capacity s" "index_bytes s3 = index_bytes s" "heap_start s3 = heap_start s" "frames s3 = frames s" "kernel_heap s3 = kernel_heap s"
proof -
  let ?n = "unat sz + 20" and ?g = "grown_hole s (unat sz + 20)"
  let ?new = "bs @ [(?g, Hole)]"
  note ok = heap_invD(1) [OF inv]
  have le: "heap_start s \<le> heap_end s" "heap_end s < 2147483648" using ok by (auto simp: index_ok_def)
  note gb = grown_hole_bounds(1) [of ?n s] grown_hole_bounds(2) [OF le(1)]
  have e: "heap_end s + ?g < 2147483648" using grow gb(2) by (simp add: can_grow_def)
  obtain s1 s3 where s3: "expand kmalloc_ap s (of_nat (heap_end s - heap_start s) + of_nat ?n + PAGE_SIZE) = Inr s1"
    "index_insert (s1\<lparr>mem := write_block (mem s1) (heap_end s) ?g 1\<rparr>) (of_nat (heap_end s)) = Inr s3"
    "allocated_end (heap_obj s1) = of_nat (heap_end s + ?g)"
    "allocated_start (heap_obj s1) = allocated_start (heap_obj s)"
    "heap_inv s3 ?new" "mapped s s1 (new_pages s ?n)"
    "same_outside (index_bytes s \<union> {heap_end s..<heap_end s + ?g}) (mem s1) (mem s3)"
    "\<forall>x. x \<notin> map_bytes s (new_pages s ?n) \<longrightarrow> mem s1 x = mem s x"
    "length (index_list s3) = Suc (length (index_list s))"
    "index_capacity s3 = index_capacity s" "index_bytes s3 = index_bytes s" "heap_start s3 = heap_start s" "frames s3 = frames s" "kernel_heap s3 = kernel_heap s"
    by (rule heap_grow_state [OF inv grow le_add2])
  have tot: "heap_start s3 + total bs = heap_end s" using heap_invD(2) [OF inv] s3(12) by simp
  have front: "front (heap_end s) pa = (if pa = 0 then 0 else 4084)"
  proof (cases "pa = 0")
    case False
    have "(heap_end s + 12) mod 4096 = 12" using aligned [OF False] by (simp add: mod_add_eq [symmetric])
    then show ?thesis using page_align_get_offset_nat [of "of_nat (heap_end s)"] le False
      by (simp add: front_def unat_of_nat32)
  qed (simp add: front_def)
  have fit: "front (heap_start s3 + total bs) pa + ?n \<le> ?g" unfolding tot front using gb(1) by auto
  have fits: "fits_in s3 ?new ?n pa" by (rule fits_inI [OF refl _ _ fit]) simp_all
  obtain r pre hsz k post where f: "find_hole s3 (of_nat ?n) pa = Inr r" "r \<noteq> - 1"
    "unat r < length (index_list s3)" "?new = pre @ (hsz, k) # post" "k \<noteq> Used" "k \<noteq> Lost"
    "front (heap_start s3 + total pre) pa + ?n \<le> hsz"
    "index_list s3 ! unat r = of_nat (heap_start s3 + total pre)"
    "\<forall>j < unat r. \<not> hole_fits (mem s3) (index_list s3 ! j) (of_nat ?n) pa"
    by (rule find_hole_found [OF s3(5) le_add2 len fits])
  have "post = []"
  proof (rule ccontr)
    assume "post \<noteq> []"
    then obtain ys y where "post = ys @ [y]" by (metis rev_exhaust)
    then have "bs = pre @ (hsz, k) # ys" using f(4) by (metis append_Cons append_assoc butlast_snoc)
    then have "fits_in s bs ?n pa" using f(5-7) unfolding s3(12) by (rule fits_inI)
    then show False using none by blast
  qed
  then have new: "pre = bs" "hsz = ?g" using f(4) by auto
  then have tk: "taken s3 ?new ?n pa bs ?g []"
    using f(3,8,9) fit unfolding taken_def by blast
  have w: "sz + sizeof_header + sizeof_footer = of_nat ?n"
    by (simp add: sizeof_header_def sizeof_footer_def add.assoc)
  have length: "allocated_end (heap_obj s) - allocated_start (heap_obj s) = of_nat (heap_end s - heap_start s)"
    "allocated_end (heap_obj s) = of_nat (heap_end s)"
    using le by (simp_all add: heap_start_def heap_end_def of_nat_diff)
  have grown: "(of_nat (heap_end s + ?g) :: u32) - allocated_start (heap_obj s) - of_nat (heap_end s - heap_start s) = of_nat ?g"
    using le by (simp add: heap_start_def of_nat_diff)
  have foot: "(of_nat (heap_end s + ?g) - sizeof_footer :: u32) = of_nat (heap_end s + ?g - 8)"
    using gb(1) by (simp add: sizeof_footer_def of_nat_diff)
  have "heap_grow kmalloc_ap s (of_nat ?n) pa = Inr (r, s3)"
    unfolding heap_grow_def Let_def length(1) unfolding length(2) s3(1) bind_res_Inr s3(3,4) grown foot
    using s3(2) f(1,2) by (simp add: write_block_def assert_k_def del: of_nat_add)
  then have "heap_alloc kmalloc_ap s sz pa = carve s3 r (of_nat ?n) pa"
    unfolding heap_alloc_def Let_def w find_hole_none [OF inv le_add2 len none] by simp
  moreover have "heap_alloc kmalloc_ap s3 sz pa = carve s3 r (of_nat ?n) pa"
    unfolding heap_alloc_def Let_def w f(1) using f(2) by simp
  ultimately have "heap_alloc kmalloc_ap s sz pa = heap_alloc kmalloc_ap s3 sz pa" by simp
  then show ?thesis by (rule that [OF _ s3(5) tk front s3(6-14)])
qed

section \<open>Memory after growing\<close>

lemma used_frames_cong:
  assumes "frames_wf s" "frames s' = frames s" "\<forall>x \<in> bs_region (frames s). mem s' x = mem s x"
  shows "used_frames s' = used_frames s"
proof -
  let ?b = "frames s"
  have "words_at (mem s') (bs_base ?b) (unat (bs_size ?b)) = words_at (mem s) (bs_base ?b) (unat (bs_size ?b))"
  proof (rule nth_equalityI)
    fix j assume "j < length (words_at (mem s') (bs_base ?b) (unat (bs_size ?b)))"
    then have j: "j < unat (bs_size ?b)" by simp
    have "bytes (bs_base ?b + 4 * of_nat j) 4 \<subseteq> bs_region ?b"
      using assms(1) j unfolding bs_region_def by (intro elem_bytes) (simp_all add: frames_wf_def bs_wf_def)
    then have "load32 (mem s') (bs_base ?b + 4 * of_nat j) = load32 (mem s) (bs_base ?b + 4 * of_nat j)"
      using assms(3) by (intro load32_cong) blast
    then show "words_at (mem s') (bs_base ?b) (unat (bs_size ?b)) ! j = words_at (mem s) (bs_base ?b) (unat (bs_size ?b)) ! j"
      using j by simp
  qed simp
  then show ?thesis by (simp add: used_frames_def bits_def assms(2))
qed

lemma mapped_kept:
  assumes "mapped s s1 as" "frames_wf s" "frames s' = frames s"
    and "same_outside R (mem s1) (mem s')" "unat ` map_bytes s as \<inter> R = {}"
  shows "mapped s s' as"
proof -
  have same: "mem s' x = mem s1 x" if "x \<in> map_bytes s as" for x
    using same_outside_byte [OF assms(4)] that assms(5) by blast
  have "load32 (mem s') (entry_at s a) = load32 (mem s1) (entry_at s a)" if "a \<in> set as" for a
    using that same by (intro load32_cong) (auto simp: map_bytes_def simp del: in_bytes)
  then have entry: "map (\<lambda>a. frame_at s' (entry_at s a)) as = map (\<lambda>a. frame_at s1 (entry_at s a)) as"
    "\<forall>a \<in> set as. load32 (mem s') (entry_at s a) = load32 (mem s1) (entry_at s a)" by simp_all
  have fr: "frames s1 = frames s" using assms(1) by (simp add: mapped_def)
  have "used_frames s' = used_frames s1"
    using same assms(2,3) fr by (intro used_frames_cong) (auto simp: map_bytes_def frames_wf_def)
  then show ?thesis using assms(1,3) entry(2) unfolding mapped_def entry(1) by simp
qed

text \<open>What the pages and the rest of memory look like when the request has been served.\<close>

lemma grown_after:
  assumes inv: "heap_inv s bs" and grow: "can_grow s n"
    and s1: "mapped s s1 (new_pages s n)" "\<forall>x. x \<notin> map_bytes s (new_pages s n) \<longrightarrow> mem s1 x = mem s x"
    and R: "R = index_bytes s \<union> {heap_end s..<heap_end s + grown_hole s n}"
    and same: "same_outside R (mem s1) (mem s3)" "same_outside R (mem s3) (mem s')" and fr: "frames s' = frames s"
  shows "mapped s s' (new_pages s n)"
    "same_outside (index_bytes s \<union> unat ` map_bytes s (new_pages s n) \<union> {heap_end s..<heap_start s + grown_length s n})
       (mem s) (mem s')"
proof -
  have le: "heap_start s \<le> heap_end s" using heap_invD(1) [OF inv] by (simp add: index_ok_def)
  note e = grown_hole_bounds(2) [OF le, of n]
  have all: "same_outside R (mem s1) (mem s')" using same by (rule same_outside_trans_in)
  have "R \<subseteq> index_bytes s \<union> {heap_start s..<heap_start s + grown_length s n}" unfolding R e using le by auto
  then have "unat ` map_bytes s (new_pages s n) \<inter> R = {}" using grow unfolding can_grow_def by blast
  moreover have "frames_wf s" using grow by (simp add: can_grow_def mappable_def)
  ultimately show "mapped s s' (new_pages s n)" using mapped_kept [OF s1(1) _ fr all] by blast
  have "same_outside (unat ` map_bytes s (new_pages s n)) (mem s) (mem s1)"
    using s1(2) by (intro same_outsideI) auto
  from same_outside_trans [OF this all]
  show "same_outside (index_bytes s \<union> unat ` map_bytes s (new_pages s n) \<union> {heap_end s..<heap_start s + grown_length s n})
       (mem s) (mem s')"
    unfolding R e by (rule same_outside_mono) blast
qed

lemma resized_frames: "resized s s' \<Longrightarrow> frames s' = frames s"
  and resized_kernel_heap: "resized s s' \<Longrightarrow> kernel_heap s' = kernel_heap s"
  by (auto simp: resized_def)

section \<open>An allocation that grows the heap\<close>

lemma heap_alloc_growing:
  assumes "heap_inv s bs" "unat sz + 20 < 2147483648" "\<not> fits_in s bs (unat sz + 20) 0"
    and "can_grow s (unat sz + 20)"
  obtains s' where "heap_alloc kmalloc_ap s sz 0 = Inr (of_nat (heap_end s + 12), s')"
    "heap_inv s' (bs @ [(unat sz + 20, Used), (grown_hole s (unat sz + 20) - (unat sz + 20), Hole)])"
    "heap_end s' = heap_start s + grown_length s (unat sz + 20)"
    "mapped s s' (new_pages s (unat sz + 20))"
    "same_outside (index_bytes s \<union> unat ` map_bytes s (new_pages s (unat sz + 20)) \<union> {heap_end s..<heap_end s'})
        (mem s) (mem s')"
    "heap_start s' = heap_start s" "kernel_heap s' = kernel_heap s"
proof -
  let ?n = "unat sz + 20" and ?g = "grown_hole s (unat sz + 20)"
  let ?R = "index_bytes s \<union> {heap_end s..<heap_end s + ?g}"
  note ok = heap_invD(1) [OF assms(1)]
  have le: "heap_start s \<le> heap_end s" using ok by (simp add: index_ok_def)
  note gb = grown_hole_bounds(1) [of ?n s] grown_hole_bounds(2) [OF le]
  obtain s1 s3 where s3: "heap_alloc kmalloc_ap s sz 0 = heap_alloc kmalloc_ap s3 sz 0"
    "heap_inv s3 (bs @ [(?g, Hole)])" "taken s3 (bs @ [(?g, Hole)]) ?n 0 bs ?g []"
    "front (heap_end s) 0 = (if (0 :: s32) = 0 then 0 else 4084)"
    "mapped s s1 (new_pages s ?n)" "same_outside ?R (mem s1) (mem s3)"
    "\<forall>x. x \<notin> map_bytes s (new_pages s ?n) \<longrightarrow> mem s1 x = mem s x"
    "length (index_list s3) = Suc (length (index_list s))"
    "index_capacity s3 = index_capacity s" "index_bytes s3 = index_bytes s" "heap_start s3 = heap_start s" "frames s3 = frames s" "kernel_heap s3 = kernel_heap s"
    by (rule heap_alloc_grown [where kmalloc_ap = kmalloc_ap and pa = 0, OF assms(1,2,4,3)]) simp
  have at: "heap_start s3 + total bs = heap_end s" using heap_invD(2) [OF assms(1)] s3(11) by simp
  obtain s' where s': "heap_alloc kmalloc_ap s3 sz 0 = Inr (of_nat (heap_end s + 12), s')" "resized s3 s'"
    "heap_inv s' (alloc_blocks bs 0 ?n ?g [])" "same_outside ?R (mem s3) (mem s')"
    using heap_alloc_plain [where kmalloc_ap = kmalloc_ap, OF s3(2) assms(2) s3(3)] unfolding at s3(10) by blast
  have "grown_hole s ?n - ?n > 20" using gb(1) by linarith
  then have blocks: "alloc_blocks bs 0 ?n ?g [] = bs @ [(?n, Used), (?g - ?n, Hole)]"
    by (simp add: alloc_blocks_def block_size_def remainder_def)
  have "frames s' = frames s" using resized_frames [OF s'(2)] s3(12) by simp
  note after = grown_after [OF assms(1,4) s3(5,7) refl s3(6) s'(4) this]
  have "heap_end s' = heap_start s' + total (bs @ [(?n, Used), (?g - ?n, Hole)])"
    using heap_invD(2) [OF s'(3)] unfolding blocks by simp
  then have e: "heap_end s' = heap_start s + grown_length s ?n"
    using resized_frame(3) [OF s'(2)] s3(11) at gb(1) gb(2) [of ?n] by simp
  have fields: "heap_start s' = heap_start s" "kernel_heap s' = kernel_heap s"
    using resized_frame(3) [OF s'(2)] resized_kernel_heap [OF s'(2)] s3(11,13) by simp_all
  show ?thesis
    by (rule that [OF _ s'(3) [unfolded blocks] e after(1) _ fields]) (use s3(1) s'(1) after(2) in \<open>simp_all add: e\<close>)
qed

text \<open>Seen by the clients: their blocks are where they were, and there is one more.\<close>

lemma grow_owned:
  assumes own: "owns s B" and len: "unat sz + 20 < 2147483648" and grow: "can_grow s (unat sz + 20)"
    and none: "find_hole s (sz + 12 + 8) 0 = Inr (- 1)"
  shows "\<exists>p n s'. heap_alloc kmalloc_ap s sz 0 = Inr (p, s') \<and> unat sz \<le> n
    \<and> owns s' (add_mset (unat p, n) B) \<and> (\<forall>b \<in># B. kept (mem s) (mem s') b) \<and> kernel_heap s' = kernel_heap s"
proof -
  let ?n = "unat sz + 20"
  obtain bs where bs: "heap_inv s bs" "not_lost bs" "mset (payloads (heap_start s) bs) = B"
    using own by (auto simp: owns_def)
  have le: "heap_start s \<le> heap_end s" "heap_end s < 2147483648" using heap_invD(1) [OF bs(1)] by (auto simp: index_ok_def)
  have fit: "\<not> fits_in s bs ?n 0" using find_hole_fits [OF bs(1) len] none by blast
  obtain s' where s': "heap_alloc kmalloc_ap s sz 0 = Inr (of_nat (heap_end s + 12), s')"
    "heap_inv s' (bs @ [(?n, Used), (grown_hole s ?n - ?n, Hole)])"
    "heap_end s' = heap_start s + grown_length s ?n" "mapped s s' (new_pages s ?n)"
    "same_outside (index_bytes s \<union> unat ` map_bytes s (new_pages s ?n) \<union> {heap_end s..<heap_end s'}) (mem s) (mem s')"
    "heap_start s' = heap_start s" "kernel_heap s' = kernel_heap s"
    by (rule heap_alloc_growing [where kmalloc_ap = kmalloc_ap, OF bs(1) len fit grow])
  have u: "unat (of_nat (heap_end s + 12) :: u32) = heap_end s + 12" by (rule unat_of_nat32) (use le in linarith)
  have tot: "heap_start s + total bs = heap_end s" using heap_invD(2) [OF bs(1)] by simp
  have "mset (payloads (heap_start s') (bs @ [(?n, Used), (grown_hole s ?n - ?n, Hole)]))
      = add_mset (heap_end s + 12, unat sz) B"
    unfolding s'(6) using bs(3) tot by (simp add: payloads_append)
  moreover have "not_lost (bs @ [(?n, Used), (grown_hole s ?n - ?n, Hole)])"
    using bs(2) by (auto simp: not_lost_def)
  ultimately have "owns s' (add_mset (unat (of_nat (heap_end s + 12) :: u32), unat sz) B)"
    unfolding u owns_def using s'(2) by blast
  moreover have "kept (mem s) (mem s') b" if b: "b \<in># B" for b
    unfolding kept_def
  proof (intro allI impI)
    fix x :: u32 assume x: "fst b \<le> unat x \<and> unat x < fst b + snd b"
    have "b \<in> set (payloads (heap_start s) bs)" using b bs(3) by (metis set_mset_mset)
    then have "(fst b, snd b) \<in> set (payloads (heap_start s) bs)" by simp
    from payloads_range [OF heap_invD(3) [OF bs(1)] this]
    have in_body: "unat x \<in> {heap_start s..<heap_end s}" using x tot by auto
    then have "unat x \<notin> index_bytes s" using index_below_body [OF heap_invD(1) [OF bs(1)] order_refl, of "heap_end s"] by blast
    moreover have "unat x \<in> {heap_start s..<heap_start s + grown_length s ?n}"
      using in_body grown_hole_bounds(2) [OF le(1), of ?n] by auto
    then have "unat x \<notin> unat ` map_bytes s (new_pages s ?n)" using grow unfolding can_grow_def by blast
    ultimately show "mem s' x = mem s x" using in_body by (intro same_outside_byte [OF s'(5)]) auto
  qed
  ultimately show ?thesis using s'(1,7) by blast
qed

section \<open>A missing page table\<close>

text \<open>
  When the first new page has no table, \<open>get_page\<close> allocates one, in the middle of the allocation
  that is to make the heap larger.
\<close>

lemma heap_alloc_missing_table:
  assumes "heap_inv s bs" "unat sz + 20 < 2147483648" "\<not> fits_in s bs (unat sz + 20) pa"
    and "heap_start s + grown_length s (unat sz + 20) \<le> unat (max_addr (heap_obj s))"
    and "load32 (mem s) (page_slot s (heap_end s)) = 0" "kmalloc_ap sizeof_page_table s = Inl e"
  shows "heap_alloc kmalloc_ap s sz pa = Inl e"
proof -
  let ?n = "unat sz + 20"
  have ok: "index_ok s" by (rule heap_invD(1) [OF assms(1)])
  have le: "heap_start s \<le> heap_end s" using ok by (simp add: index_ok_def)
  have len: "heap_start s + grown_length s ?n < 4294967296" using assms(4) unat_lt_32 [of "max_addr (heap_obj s)"] by linarith
  have addr: "allocated_start (heap_obj s) + of_nat (heap_end s - heap_start s) = of_nat (heap_end s)"
    using le by (simp add: heap_start_def heap_end_def of_nat_diff)
  have "get_page kmalloc_ap s (of_nat (heap_end s)) True (kernel_directory s) = Inl e"
    using assms(5,6) by (simp add: get_page_def Let_def page_slot_def)
  moreover have "heap_end s - heap_start s < grown_length s ?n" using grown_length_bounds(1) [of s ?n] by linarith
  ultimately have "map_pages kmalloc_ap s (heap_end s - heap_start s) (grown_length s ?n) = Inl e"
    by (subst map_pages.simps) (simp add: addr)
  then show ?thesis
    using assms(4)
    by (intro heap_alloc_expand_fails [OF assms(1-3)]) (simp only: expand_pages [OF ok len] if_True bind_res_Inl)
qed

section \<open>A heap that grows\<close>

text \<open>
  The sample heap with a page table at \<open>0x100000\<close>, entered in the directory at 0, for the pages
  behind it.
\<close>

definition sample_growing :: mm_state where
  "sample_growing = sample_state (put_at sample_memory 0 0x100000) 1"

lemma sample_growing_outside:
  "same_outside ({0..<4} \<union> {0x1000..<0x1004} \<union> {0x2000..<0x4000}) (\<lambda>_. 0) (mem sample_growing)"
  unfolding sample_growing_def sample_fields
  by (intro same_outside_put_chain same_outside_mono [OF sample_outside]) auto

lemma sample_growing_inv: "heap_inv sample_growing [(0x2000, Hole)]"
proof -
  have "block_ok (mem sample_growing) 0x2000 0x2000 Hole" unfolding sample_growing_def sample_fields
    by (rule block_ok_frame [OF sample_block(1) same_outside_put_at [of _ "{0..<4}"]]) (auto simp: meta_def)
  then show ?thesis using sample_block(2) unfolding sample_growing_def
    by (simp add: heap_inv_def sample_index_list sample_index_ok)
qed

lemma sample_growing_frames: "frames_wf sample_growing" "frame_capacity sample_growing = 2048" "used_frames sample_growing = {}"
proof -
  show wf: "frames_wf sample_growing" "frame_capacity sample_growing = 2048"
    by (simp_all add: sample_growing_def sample_state_def frames_wf_def bs_wf_def frame_capacity_def bs_capacity_def)
  let ?s0 = "sample_growing\<lparr>mem := \<lambda>_. 0\<rparr>"
  have "used_frames sample_growing = used_frames ?s0"
  proof (rule used_frames_cong)
    show "\<forall>x \<in> bs_region (frames ?s0). mem sample_growing x = mem ?s0 x"
    proof
      fix x assume "x \<in> bs_region (frames ?s0)"
      then have "0x800 \<le> unat x \<and> unat x < 0x900"
        using bytes_no_wrap [of "0x800" 256 x] by (simp add: bs_region_def sample_growing_def sample_state_def del: in_bytes)
      then show "mem sample_growing x = mem ?s0 x" using same_outside_byte [OF sample_growing_outside, of x] by simp
    qed
  qed (use wf(1) in \<open>simp_all add: frames_wf_def\<close>)
  moreover have "words_at (\<lambda>_. 0) b n = replicate n 0" for b n by (rule nth_equalityI) simp_all
  then have "used_frames ?s0 = {}"
    by (auto simp: used_frames_def bits_def bs_capacity_def sample_growing_def sample_state_def)
  ultimately show "used_frames sample_growing = {}" by simp
qed

lemma sample_growing_fields [simp]:
  "heap_start sample_growing = 0x2000" "heap_end sample_growing = 0x4000" "index_capacity sample_growing = 4"
  "max_addr (heap_obj sample_growing) = 0x10000" "kernel_directory sample_growing = 0"
  "frames sample_growing = \<lparr>bs_base = 0x800, bs_size = 64\<rparr>" "index_list sample_growing = [0x2000]"
  "index_bytes sample_growing = {0x1000..<0x1010}"
proof -
  show "index_list sample_growing = [0x2000]"
    using sample_block(2) by (simp add: sample_growing_def sample_index_list)
qed (simp_all add: sample_growing_def sample_state_def heap_start_def heap_end_def index_capacity_def index_bytes_def)

lemma sample_grown:
  "grown_length sample_growing 0x2014 = 0x6000" "grown_hole sample_growing 0x2014 = 0x4000"
  "new_pages sample_growing 0x2014 = [0x4000, 0x5000, 0x6000, 0x7000]"
  by (simp_all add: grown_length_def grown_hole_def new_pages_def page_list.simps)

lemma sample_slots:
  "page_slot sample_growing 0x4000 = 0" "page_slot sample_growing 0x5000 = 0"
  "page_slot sample_growing 0x6000 = 0" "page_slot sample_growing 0x7000 = 0"
  "entry_at sample_growing 0x4000 = 0x100010" "entry_at sample_growing 0x5000 = 0x100014"
  "entry_at sample_growing 0x6000 = 0x100018" "entry_at sample_growing 0x7000 = 0x10001C"
  "load32 (mem sample_growing) 0 = 0x100000"
proof -
  have slot: "load32 (mem sample_growing) 0 = 0x100000"
    using word_at_put_at_same [of sample_memory 0 "0x100000"] by (simp add: sample_growing_def word_at_def)
  then show "page_slot sample_growing 0x4000 = 0" "page_slot sample_growing 0x5000 = 0"
    "page_slot sample_growing 0x6000 = 0" "page_slot sample_growing 0x7000 = 0"
    "entry_at sample_growing 0x4000 = 0x100010" "entry_at sample_growing 0x5000 = 0x100014"
    "entry_at sample_growing 0x6000 = 0x100018" "entry_at sample_growing 0x7000 = 0x10001C"
    by (simp_all add: page_slot_def entry_at_def dir_table_def page_entry_def PAGE_SIZE_def PAGES_PER_TABLE_def)
  show "load32 (mem sample_growing) 0 = 0x100000" by (rule slot)
qed

lemma sample_can_grow: "can_grow sample_growing 0x2014"
proof -
  have apart: "bytes x 4 \<inter> bytes y n = {}" if "unat x + 4 \<le> unat y \<and> unat y + n \<le> 0x200000 \<or> unat y + n \<le> unat x \<and> unat x + 4 \<le> 0x200000"
    for x y :: u32 and n using that bytes_disjoint_nat [of "unat x" 4 "unat y" n] by (auto simp del: in_bytes)
  have zero: "load32 (mem sample_growing) x = 0" if "0x100000 \<le> unat x" "unat x < 0x200000" for x
  proof -
    have "word_at (mem sample_growing) (unat x) = word_at (\<lambda>_. 0) (unat x)"
      by (rule same_outside_word [OF sample_growing_outside]) (use that in auto)
    then show ?thesis by (simp add: word_at_def)
  qed
  have "mappable sample_growing [0x4000, 0x5000, 0x6000, 0x7000]"
    unfolding mappable_def by (simp add: sample_growing_frames sample_slots zero apart bs_region_def)
  moreover have "map_bytes sample_growing [0x4000, 0x5000, 0x6000, 0x7000]
      \<subseteq> {x. unat x \<in> {0x800..<0x900} \<union> {0x100000..<0x100020}}"
    by (auto simp: map_bytes_def sample_slots bs_region_def bytes_no_wrap simp del: in_bytes)
  then have "unat ` map_bytes sample_growing [0x4000, 0x5000, 0x6000, 0x7000] \<inter> ({0x1000..<0x1010} \<union> {0x2000..<0x8000}) = {}"
    by auto
  ultimately show ?thesis unfolding can_grow_def sample_grown by simp
qed

lemma sample_no_fit: "20 \<le> n \<Longrightarrow> 0x2000 < n \<Longrightarrow> \<not> fits_in sample_growing [(0x2000, Hole)] n pa"
  by (auto simp: fits_in_def Cons_eq_append_conv)

section \<open>Properties\<close>

text \<open>
  C5.  Growing the heap.  When no hole is large enough and the heap may grow, \<open>heap_alloc\<close>
  succeeds: the block starts at the heap's old end, the rest of the new pages becomes a
  hole, the invariant holds for the longer heap, and every new page is present in
  a frame of its own that was free.  Outside the index, the new bytes, the pages' entries and the
  bit set of the frames, memory is unchanged.
\<close>

theorem heap_alloc_grows:
  assumes "heap_inv s bs" "unat sz + 20 < 2147483648" "\<not> fits_in s bs (unat sz + 20) 0"
    and "can_grow s (unat sz + 20)"
  shows "\<exists>s'. heap_alloc kmalloc_ap s sz 0 = Inr (of_nat (heap_end s + 12), s')
    \<and> heap_inv s' (bs @ [(unat sz + 20, Used), (grown_hole s (unat sz + 20) - (unat sz + 20), Hole)])
    \<and> heap_end s' = heap_start s + grown_length s (unat sz + 20)
    \<and> mapped s s' (new_pages s (unat sz + 20))
    \<and> same_outside (index_bytes s \<union> unat ` map_bytes s (new_pages s (unat sz + 20)) \<union> {heap_end s..<heap_end s'})
        (mem s) (mem s')"
  using heap_alloc_growing [where kmalloc_ap = kmalloc_ap, OF assms] by metis

theorem heap_alloc_grows_witness:
  "\<exists>s'. heap_alloc (\<lambda>sz s. Inl StackExhausted) sample_growing 0x2000 0 = Inr (0x400C, s')
     \<and> heap_inv s' [(0x2000, Hole), (0x2014, Used), (0x1FEC, Hole)] \<and> heap_end s' = 0x8000"
  using heap_alloc_grows [where kmalloc_ap = "\<lambda>sz s. Inl StackExhausted" and sz = "0x2000", OF sample_growing_inv]
    sample_no_fit [of "0x2014" 0] sample_can_grow sample_grown(1,2) by auto

text \<open>
  C11.  Growing for a page-aligned request.  The new hole leaves 4084 bytes in front of the
  block.  When the block, header and footer included, is an exact number of pages or falls
  short of one by at most 8 bytes, what is left behind it is too little for a hole and \<open>heap_alloc\<close>
  panics, after the heap has grown; otherwise the block starts one page behind
  the heap's old end.
\<close>

theorem heap_alloc_grows_aligned:
  assumes "heap_inv s bs" "unat sz + 20 < 2147483648" "\<not> fits_in s bs (unat sz + 20) pa" "pa \<noteq> 0"
    and "can_grow s (unat sz + 20)" "Suc (length (index_list s)) < index_capacity s"
    and "heap_start s mod 4096 = 0" "heap_end s mod 4096 = 0"
  shows "if (unat sz + 20) mod 4096 = 0 \<or> 4088 \<le> (unat sz + 20) mod 4096
    then heap_alloc kmalloc_ap s sz pa = Inl (AssertFailed ''We have free space in the hole, but not enough to make a new one'')
    else \<exists>s'. heap_alloc kmalloc_ap s sz pa = Inr (of_nat (heap_end s + 4096), s')
      \<and> heap_inv s' (bs @ [(4084, Lost), (unat sz + 20, Used), (grown_hole s (unat sz + 20) - 4084 - (unat sz + 20), Hole)])
      \<and> mapped s s' (new_pages s (unat sz + 20))"
proof -
  let ?n = "unat sz + 20" and ?g = "grown_hole s (unat sz + 20)"
  let ?R = "index_bytes s \<union> {heap_end s..<heap_end s + ?g}"
  have le: "heap_start s \<le> heap_end s" using heap_invD(1) [OF assms(1)] by (simp add: index_ok_def)
  note gb = grown_hole_bounds(1) [of ?n s] grown_hole_bounds(2) [OF le] grown_hole_bounds(3) [OF le assms(7,8)]
  obtain s1 s3 where s3: "heap_alloc kmalloc_ap s sz pa = heap_alloc kmalloc_ap s3 sz pa"
    "heap_inv s3 (bs @ [(?g, Hole)])" "taken s3 (bs @ [(?g, Hole)]) ?n pa bs ?g []"
    "front (heap_end s) pa = (if pa = 0 then 0 else 4084)"
    "mapped s s1 (new_pages s ?n)" "same_outside ?R (mem s1) (mem s3)"
    "\<forall>x. x \<notin> map_bytes s (new_pages s ?n) \<longrightarrow> mem s1 x = mem s x"
    "length (index_list s3) = Suc (length (index_list s))"
    "index_capacity s3 = index_capacity s" "index_bytes s3 = index_bytes s" "heap_start s3 = heap_start s" "frames s3 = frames s" "kernel_heap s3 = kernel_heap s"
    by (rule heap_alloc_grown [where kmalloc_ap = kmalloc_ap, OF assms(1,2,5,3)]) (use assms(8) in simp)
  have at: "heap_start s3 + total bs = heap_end s" using heap_invD(2) [OF assms(1)] s3(11) by simp
  have room: "length (index_list s3) < index_capacity s3" using assms(6) s3(8,9) by simp
  have front: "4084 = front (heap_start s3 + total bs) pa" unfolding at s3(4) using assms(4) by simp
  note aligned = heap_alloc_aligned [where kmalloc_ap = kmalloc_ap, OF s3(2) assms(2,4) s3(3) room front, unfolded at s3(10)]
  obtain q r where n: "?n = 4096 * q + r" "r < 4096" "?n mod 4096 = r" by (rule page_split)
  have g: "?g = (if r = 0 then 4096 * q + 4096 else 4096 * q + 8192)"
  proof -
    have "?g < ?n + 8192" using grown_length_bounds(2) [of s ?n] le by (simp add: grown_hole_def)
    moreover obtain p where p: "?g = 4096 * p" by (rule whole_number [OF gb(3) [of ?n]])
    ultimately have "4096 * q + r + 4096 \<le> 4096 * p" "4096 * p < 4096 * q + r + 8192" using n(1) gb(1) by linarith+
    then have "p = (if r = 0 then q + 1 else q + 2)" using n(2) by auto
    then show ?thesis using p by simp
  qed
  show ?thesis
  proof (cases "r = 0 \<or> 4088 \<le> r")
    case True
    then have "heap_alloc kmalloc_ap s3 sz pa
        = Inl (AssertFailed ''We have free space in the hole, but not enough to make a new one'')"
      using g n(1,2) by (intro aligned(1)) auto
    then show ?thesis using True s3(1) n(3) by simp
  next
    case False
    then have "4084 + ?n + 20 < ?g" using g n(1,2) by auto
    then obtain s' where s': "heap_alloc kmalloc_ap s3 sz pa = Inr (of_nat (heap_end s + 4084 + 12), s')"
      "heap_inv s' (alloc_blocks bs 4084 ?n ?g [])" "resized s3 s'" "same_outside ?R (mem s3) (mem s')"
      using aligned(2) by blast
    have "frames s' = frames s" using resized_frames [OF s'(3)] s3(12) by simp
    note after = grown_after [OF assms(1,5) s3(5,7) refl s3(6) s'(4) this]
    have "alloc_blocks bs 4084 ?n ?g [] = bs @ [(4084, Lost), (?n, Used), (?g - 4084 - ?n, Hole)]"
      using \<open>4084 + ?n + 20 < ?g\<close> by (simp add: alloc_blocks_def remainder_def)
    then show ?thesis using False s3(1) s'(1,2) after(1) n(3) by (auto simp: add.assoc)
  qed
qed

theorem heap_alloc_grows_aligned_witness:
  "\<exists>s'. heap_alloc (\<lambda>sz s. Inl StackExhausted) sample_growing 0x2000 1 = Inr (0x5000, s')
     \<and> heap_inv s' [(0x2000, Hole), (4084, Lost), (0x2014, Used), (4088, Hole)]"
  using heap_alloc_grows_aligned [where kmalloc_ap = "\<lambda>sz s. Inl StackExhausted" and sz = "0x2000" and pa = 1,
      OF sample_growing_inv] sample_no_fit [of "0x2014" 1] sample_can_grow sample_grown(1,2) by auto

text \<open>
  C12.  The limit of the heap.  When no hole is large enough and the heap would have to grow
  beyond its last address, \<open>heap_alloc\<close> fails the assertion of \<open>expand\<close>; nothing is
  allocated and there is no null pointer to test for.
\<close>

theorem heap_alloc_limit:
  assumes "heap_inv s bs" "unat sz + 20 < 2147483648" "\<not> fits_in s bs (unat sz + 20) pa"
    and "unat (max_addr (heap_obj s)) < heap_start s + grown_length s (unat sz + 20)"
    and "heap_start s + grown_length s (unat sz + 20) < 4294967296"
  shows "heap_alloc kmalloc_ap s sz pa = Inl (AssertFailed ''Cannot expand heap: not enough free space available'')"
  using assms(4) by (intro heap_alloc_expand_fails [OF assms(1-3)])
    (simp only: expand_pages [OF heap_invD(1) [OF assms(1)] assms(5)] not_le [symmetric] if_False)

theorem heap_alloc_limit_witness:
  "heap_alloc (\<lambda>sz s. Inl StackExhausted) sample_growing 0xC000 0
     = Inl (AssertFailed ''Cannot expand heap: not enough free space available'')"
  by (rule heap_alloc_limit [OF sample_growing_inv])
     (use sample_no_fit [of "0xC014" 0] in \<open>simp_all add: grown_length_def\<close>)

end
