(* ===== verification/KheapRun.thy ===== *)
theory KheapRun
  imports KheapGrow
begin

text \<open>
  The heap as an interpretation of the allocator interface, runs of client requests
  against it, and the properties of \<open>src/src/kheap.c\<close>.
\<close>

section \<open>The heap as an allocator\<close>

text \<open>A request can be served when a hole is large enough or the heap may grow.\<close>

definition heap_ready :: "mm_state \<Rightarrow> u32 \<Rightarrow> bool" where
  "heap_ready s sz \<longleftrightarrow> unat sz + 20 < 2147483648
     \<and> (find_hole s (sz + 12 + 8) 0 \<noteq> Inr (- 1) \<or> can_grow s (unat sz + 20))"

lemma ready_fits:
  assumes "heap_inv s bs" "fits_in s bs (unat sz + 20) 0" "unat sz + 20 < 2147483648"
  shows "heap_ready s sz"
  using find_hole_fits [OF assms(1,3,2)] assms(3) by (simp add: heap_ready_def)

lemma ready_owned:
  assumes "owns s B" "heap_ready s sz"
  shows "\<exists>p n s'. heap_alloc kmalloc_ap s sz 0 = Inr (p, s') \<and> unat sz \<le> n
    \<and> owns s' (add_mset (unat p, n) B) \<and> (\<forall>b \<in># B. kept (mem s) (mem s') b) \<and> kernel_heap s' = kernel_heap s"
proof (cases "find_hole s (sz + 12 + 8) 0 = Inr (- 1)")
  case True
  with assms show ?thesis unfolding heap_ready_def using grow_owned by blast
next
  case False
  have len: "unat sz + 20 < 2147483648" using assms(2) by (simp add: heap_ready_def)
  obtain p n s' where "heap_alloc kmalloc_ap s sz 0 = Inr (p, s')" "unat sz \<le> n"
    "owns s' (add_mset (unat p, n) B)" "\<forall>b \<in># B. kept (mem s) (mem s') b" "resized s s'"
    using alloc_owned [OF assms(1) len False] by blast
  then show ?thesis using resized_kernel_heap by blast
qed

interpretation heap: freeing_allocator "\<lambda>s sz. heap_alloc kmalloc_ap s sz 0" heap_ready owns mem heap_free
  for kmalloc_ap
proof unfold_locales
  fix s :: mm_state and B sz
  assume "owns s B" "heap_ready s sz"
  then show "\<exists>p n s'. heap_alloc kmalloc_ap s sz 0 = Inr (p, s') \<and> unat sz \<le> n
      \<and> owns s' (add_mset (unat p, n) B) \<and> (\<forall>b \<in># B. kept (mem s) (mem s') b)"
    using ready_owned [of s B sz] by blast
next
  fix s :: mm_state and p n B s'
  assume "owns s (add_mset (unat p, n) B)" "heap_free s p = Inr s'"
  then show "owns s' B \<and> (\<forall>b \<in># B. kept (mem s) (mem s') b)"
    using free_owned [of s p n B] by auto
qed (rule owns_apart)

section \<open>Runs of requests\<close>

text \<open>
  The clients of a heap: they allocate (from a hole, or from pages the heap grows by), free a
  block they hold, and write to the bytes they asked for.  \<open>live\<close> lists the pointers they hold,
  with the sizes asked for.
\<close>

inductive heap_run :: "allocator \<Rightarrow> mm_state \<Rightarrow> mm_state \<Rightarrow> (u32 \<times> u32) list \<Rightarrow> bool"
  for kmalloc_ap s0 where
  boot: "heap_run kmalloc_ap s0 s0 []"
| alloc: "heap_run kmalloc_ap s0 s live \<Longrightarrow> heap_ready s sz \<Longrightarrow>
    heap_alloc kmalloc_ap s sz 0 = Inr (p, s') \<Longrightarrow> heap_run kmalloc_ap s0 s' ((p, sz) # live)"
| free: "heap_run kmalloc_ap s0 s live \<Longrightarrow> (p, sz) \<in> set live \<Longrightarrow> heap_free s p = Inr s' \<Longrightarrow>
    heap_run kmalloc_ap s0 s' (remove1 (p, sz) live)"
| store: "heap_run kmalloc_ap s0 s live \<Longrightarrow> (p, sz) \<in> set live \<Longrightarrow>
    unat p \<le> unat x \<Longrightarrow> unat x < unat p + unat sz \<Longrightarrow>
    heap_run kmalloc_ap s0 (s\<lparr>mem := (mem s)(x := v)\<rparr>) live"

text \<open>The clients' view and the heap's: each pointer held is a block at least as large.\<close>

definition holds :: "u32 \<times> u32 \<Rightarrow> nat \<times> nat \<Rightarrow> bool" where
  "holds l b \<longleftrightarrow> fst b = unat (fst l) \<and> unat (snd l) \<le> snd b"

lemma held_split:
  assumes "list_all2 holds live bs" "l \<in> set live"
  obtains b bs' where "holds l b" "mset bs = add_mset b (mset bs')" "list_all2 holds (remove1 l live) bs'"
proof -
  obtain l1 l2 where l: "live = l1 @ l # l2" "l \<notin> set l1" using assms(2) by (metis split_list_first)
  obtain b1 b b2 where b: "bs = b1 @ b # b2" "list_all2 holds l1 b1" "holds l b" "list_all2 holds l2 b2"
    using assms(1) unfolding l by (auto simp: list_all2_append1 list_all2_Cons1)
  have "list_all2 holds (remove1 l live) (b1 @ b2)"
    using b l by (auto simp: remove1_append intro: list_all2_appendI)
  then show ?thesis using that [OF b(3), of "b1 @ b2"] by (simp add: b(1))
qed

lemma heap_run_owns:
  assumes "heap_run kmalloc_ap s0 s live" "owns s0 {#}"
  shows "\<exists>bs. owns s (mset bs) \<and> list_all2 holds live bs"
  using assms
proof (induction rule: heap_run.induct)
  case boot
  then show ?case by (intro exI [of _ "[]"]) simp
next
  case (alloc s live sz p s')
  then obtain bs where bs: "owns s (mset bs)" "list_all2 holds live bs" by blast
  obtain n where "unat sz \<le> n" "owns s' (add_mset (unat p, n) (mset bs))"
    by (rule heap.alloc_fresh [OF bs(1) alloc.hyps(2,3)])
  moreover from this have "holds (p, sz) (unat p, n)" by (simp add: holds_def)
  ultimately show ?case using bs(2) by (intro exI [of _ "(unat p, n) # bs"]) simp
next
  case (free s live p sz s')
  then obtain bs where bs: "owns s (mset bs)" "list_all2 holds live bs" by blast
  obtain b bs' where b: "holds (p, sz) b" "mset bs = add_mset b (mset bs')"
      "list_all2 holds (remove1 (p, sz) live) bs'" by (rule held_split [OF bs(2) free.hyps(2)])
  have "b = (unat p, snd b)" using b(1) by (simp add: holds_def prod_eq_iff)
  then have "owns s (add_mset (unat p, snd b) (mset bs'))" using bs(1) b(2) by metis
  from heap.free_law [OF this free.hyps(3)] show ?case using b(3) by blast
next
  case (store s live p sz x v)
  then obtain bs where bs: "owns s (mset bs)" "list_all2 holds live bs" by blast
  obtain b bs' where b: "holds (p, sz) b" "mset bs = add_mset b (mset bs')"
    by (rule held_split [OF bs(2) store.hyps(2)])
  have "owns (s\<lparr>mem := (mem s)(x := v)\<rparr>) (mset bs)"
    by (rule store_owned [OF bs(1), of b]) (use b store.hyps(3,4) in \<open>auto simp: holds_def\<close>)
  then show ?case using bs(2) by blast
qed

lemma held_apart:
  assumes "sorted_wrt apart bs" "list_all2 holds live bs"
  shows "sorted_wrt (\<lambda>l k. apart (unat (fst l), unat (snd l)) (unat (fst k), unat (snd k))) live"
  using assms(2,1)
proof (induction rule: list_all2_induct)
  case (Cons l live b bs)
  have "apart (unat (fst l), unat (snd l)) (unat (fst k), unat (snd k))" if k: "k \<in> set live" for k
  proof -
    obtain c where c: "c \<in> set bs" "holds k c"
      using Cons.hyps(2) k by (metis list_all2_conv_all_nth in_set_conv_nth)
    have "apart b c" using Cons.prems c(1) by simp
    then have "apart (fst b, snd b) (fst c, snd c)" unfolding prod.collapse .
    moreover have "unat (snd l) \<le> snd b" "unat (snd k) \<le> snd c"
      using Cons.hyps(1) c(2) by (simp_all only: holds_def)
    ultimately have "apart (fst b, unat (snd l)) (fst c, unat (snd k))" by (rule apart_shrink)
    then show ?thesis using Cons.hyps(1) c(2) by (simp only: holds_def)
  qed
  moreover have "sorted_wrt apart bs" using Cons.prems by simp
  ultimately show ?case using Cons.IH by simp
qed simp


section \<open>Properties of the heap\<close>

text \<open>
  C1.  Allocation from a hole of the heap.  When some hole is large enough,
  \<open>heap_alloc\<close> succeeds: it takes the first hole of the index that fits, returns the
  address behind the block's header, splits what is left off as a new hole unless that
  could not hold a header, a footer and one byte, and preserves the heap invariant.  Only
  the index, and the headers and footers of the block and of the new hole, are written.
\<close>

theorem heap_alloc_correct:
  assumes "heap_inv s bs" "unat sz + 20 < 2147483648" "fits_in s bs (unat sz + 20) 0"
  shows "\<exists>pre hsz post s'. taken s bs (unat sz + 20) 0 pre hsz post
    \<and> heap_alloc kmalloc_ap s sz 0 = Inr (of_nat (heap_start s + total pre + 12), s')
    \<and> heap_inv s' (alloc_blocks pre 0 (unat sz + 20) hsz post)
    \<and> same_outside (index_bytes s \<union> metas (heap_start s + total pre)
        ((block_size hsz (unat sz + 20), Used) # remainder hsz (block_size hsz (unat sz + 20))))
        (mem s) (mem s')"
proof -
  obtain pre hsz post where tk: "taken s bs (unat sz + 20) 0 pre hsz post"
    by (rule taken_exists [OF assms(1) le_add2 assms(2,3)])
  show ?thesis
    by (rule heap_alloc_plain [where kmalloc_ap = kmalloc_ap, OF assms(1,2) tk]) (use tk in blast)
qed

lemma fits_sample: "n \<le> 0x2000 \<Longrightarrow> fits_in sample_heap [(0x2000, Hole)] n 0"
  by (rule fits_inI [of _ "[]" "0x2000" Hole "[]"]) (simp_all add: front_def)

theorem heap_alloc_correct_witness:
  "\<exists>s'. heap_alloc (\<lambda>sz s. Inl NullDereference) sample_heap 80 0 = Inr (0x200C, s')
     \<and> heap_inv s' [(100, Used), (8092, Hole)]"
proof -
  obtain pre hsz post s' where a: "taken sample_heap [(0x2000, Hole)] (unat (80 :: u32) + 20) 0 pre hsz post"
    "heap_alloc (\<lambda>sz s. Inl NullDereference) sample_heap 80 0
       = Inr (of_nat (heap_start sample_heap + total pre + 12), s')"
    "heap_inv s' (alloc_blocks pre 0 (unat (80 :: u32) + 20) hsz post)"
    using heap_alloc_correct [where sz = 80 and kmalloc_ap = "\<lambda>sz s. Inl NullDereference",
        OF sample_heap_inv _ fits_sample] by auto
  have "pre = [] \<and> hsz = 0x2000 \<and> post = []"
    using takenD(2) [OF a(1)] by (auto simp: Cons_eq_append_conv)
  then show ?thesis using a(2,3)
    by (simp add: sample_heap_def alloc_blocks_def block_size_def remainder_def)
qed

text \<open>
  C2.  Freeing a block.  For the pointer of an allocated block, \<open>heap_free\<close> joins
  the block with a hole on its left and a hole on its right, preserves the heap
  invariant, and writes only the index and bytes of the joined hole.  It needs a free
  entry of the index only when there is nothing to join.  (A hole that is \<open>Lost\<close>,
  left by a page-aligned allocation, must not be next to the block.)
\<close>

theorem heap_free_correct:
  assumes "heap_inv s (pre @ (n, Used) # post)"
    and "pre \<noteq> [] \<Longrightarrow> snd (last pre) \<noteq> Lost" "post \<noteq> [] \<Longrightarrow> snd (hd post) \<noteq> Lost"
    and "join_left pre n = (pre', n1)" "join_right n1 post = (n2, post')"
    and "pre' \<noteq> pre \<or> post' \<noteq> post \<or> length (index_list s) < index_capacity s"
  shows "\<exists>s'. heap_free s (of_nat (heap_start s + total pre + 12)) = Inr s'
    \<and> heap_inv s' (pre' @ (n2, Hole) # post')
    \<and> same_outside (index_bytes s \<union> {heap_start s + total pre'..<heap_start s + total pre' + n2})
        (mem s) (mem s')"
  using heap_free_ok [OF assms] by blast

theorem heap_free_correct_witness:
  "\<exists>s'. heap_free sample_used 0x200C = Inr s' \<and> heap_inv s' [(8192, Hole)]"
proof -
  have inv: "heap_inv sample_used ([] @ (100, Used) # [(8092, Hole)])" using sample_used_inv by simp
  have "heap_start sample_used = 0x2000" by (simp add: sample_used_def)
  then show ?thesis
    using heap_free_correct [OF inv, of "[]" 100 8192 "[]"] by (auto simp: join_left_def)
qed




text \<open>
  C8.  Best fit.  While the index is in order of size, the hole \<open>heap_alloc\<close> takes is a
  smallest one among those large enough, and the index stays in order.
\<close>

theorem heap_alloc_best_fit:
  assumes "heap_inv s bs" "index_sorted s" "unat sz + 20 < 2147483648" "fits_in s bs (unat sz + 20) 0"
  shows "\<exists>pre hsz k post s'. bs = pre @ (hsz, k) # post
    \<and> heap_alloc kmalloc_ap s sz 0 = Inr (of_nat (heap_start s + total pre + 12), s')
    \<and> index_sorted s'
    \<and> (\<forall>b \<in> set bs. snd b \<noteq> Used \<and> snd b \<noteq> Lost \<and> unat sz + 20 \<le> fst b \<longrightarrow> hsz \<le> fst b)"
proof -
  let ?n = "unat sz + 20"
  obtain pre hsz post where tk: "taken s bs ?n 0 pre hsz post"
    by (rule taken_exists [OF assms(1) le_add2 assms(3,4)])
  obtain k r where f: "bs = pre @ (hsz, k) # post" "k \<noteq> Lost" "r < length (index_list s)"
    "index_list s ! r = of_nat (heap_start s + total pre)"
    "\<forall>j < r. \<not> hole_fits (mem s) (index_list s ! j) (of_nat ?n) 0"
    using tk unfolding taken_def by blast
  have smallest: "hsz \<le> h"
    if b: "(h, kh) \<in> set bs" "kh \<noteq> Used" "kh \<noteq> Lost" "?n \<le> h" for h kh
  proof -
    obtain pre2 post2 where b2: "bs = pre2 @ (h, kh) # post2" using b(1) by (metis split_list)
    let ?x = "of_nat (heap_start s + total pre2) :: u32"
    have "?x \<in> set (holes_of (heap_start s) bs)" using b(2) by (simp add: b2 holes_of_append)
    then have "?x \<in> set (index_list s)" using mset_eq_setD [OF heap_invD(4) [OF assms(1)]] by blast
    then obtain j where j: "j < length (index_list s)" "index_list s ! j = ?x" by (auto simp: in_set_conv_nth)
    have "hole_fits (mem s) ?x (of_nat ?n) 0"
      using hole_fits_iff [OF assms(1) [unfolded b2] b(2) le_add2 assms(3), of 0] b(3,4)
      by (simp add: front_def)
    then have "r \<le> j" using f(5) j(2) by (metis not_le)
    then have "hdr_size (mem s) (index_list s ! r) \<le> hdr_size (mem s) (index_list s ! j)"
      using assms(2) j(1) sorted_nth_mono [of "map (hdr_size (mem s)) (index_list s)" r j]
      by (simp add: index_sorted_def)
    then have "(of_nat hsz :: u32) \<le> of_nat (h)"
      using block_at(3) [OF assms(1) f(1)] block_at(3) [OF assms(1) b2] f(2,4) b(3) j(2) by simp
    moreover have "hsz < 4294967296" "h < 4294967296"
      using block_at(2) [OF assms(1) f(1)] block_at(2) [OF assms(1) b2] heap_invD(5) [OF assms(1)] by linarith+
    ultimately show ?thesis by (simp add: word_le_nat_alt unat_of_nat32)
  qed
  obtain s' where s': "heap_alloc kmalloc_ap s sz 0 = Inr (of_nat (heap_start s + total pre + 12), s')"
    "index_sorted s \<Longrightarrow> index_sorted s'"
    by (rule heap_alloc_plain [where kmalloc_ap = kmalloc_ap, OF assms(1,3) tk]) blast
  have "\<forall>b \<in> set bs. snd b \<noteq> Used \<and> snd b \<noteq> Lost \<and> ?n \<le> fst b \<longrightarrow> hsz \<le> fst b"
    using smallest by fastforce
  then show ?thesis using f(1) s' assms(2) by blast
qed

theorem heap_alloc_best_fit_witness:
  "\<exists>p s'. heap_alloc (\<lambda>sz s. Inl NullDereference) sample_heap 80 0 = Inr (p, s') \<and> index_sorted s'"
proof -
  have "index_sorted sample_heap" by (simp add: index_sorted_def sample_heap_def sample_index_list)
  from heap_alloc_best_fit [OF sample_heap_inv this, of 80] show ?thesis using fits_sample by fastforce
qed

text \<open>
  C9.  Page-aligned allocation.  When the hole taken needs \<open>off\<close> bytes in front of the
  block, and what remains behind the block is nothing or more than 20 bytes,
  \<open>heap_alloc\<close> returns a page-aligned address and keeps the heap invariant, in which
  the \<open>off\<close> bytes in front are a \<open>Lost\<close> hole: its header says that its size is 0.
\<close>

theorem heap_alloc_page_aligned:
  assumes "heap_inv s bs" "unat sz + 20 < 2147483648" "pa \<noteq> 0"
    and "taken s bs (unat sz + 20) pa pre hsz post" "length (index_list s) < index_capacity s"
    and "off = front (heap_start s + total pre) pa"
    and "off = 0 \<or> off + (unat sz + 20) = hsz \<or> off + (unat sz + 20) + 20 < hsz"
  shows "\<exists>s'. heap_alloc kmalloc_ap s sz pa = Inr (of_nat (heap_start s + total pre + off + 12), s')
    \<and> (heap_start s + total pre + off + 12) mod 4096 = 0
    \<and> heap_inv s' (alloc_blocks pre off (unat sz + 20) hsz post)
    \<and> same_outside (index_bytes s \<union> {heap_start s + total pre..<heap_start s + total pre + hsz})
        (mem s) (mem s')"
  using heap_alloc_aligned(2) [where kmalloc_ap = kmalloc_ap, OF assms] by metis

lemma sample_front: "front (heap_start sample_heap + total []) 1 = 4084"
  using page_align_get_offset_nat [of "0x2000"] by (simp add: front_def sample_heap_def)

lemma taken_sample:
  assumes "n + 4084 \<le> 0x2000"
  shows "taken sample_heap [(0x2000, Hole)] n 1 [] 0x2000 []"
proof -
  have "0 < length (index_list sample_heap)" "index_list sample_heap ! 0 = of_nat (heap_start sample_heap + total [])"
    using sample_block(2) by (simp_all add: sample_heap_def sample_index_list)
  then show ?thesis unfolding taken_def sample_front using assms
    by (intro exI [of _ Hole] exI [of _ "0 :: nat"]) simp
qed

lemma sample_room: "length (index_list sample_heap) < index_capacity sample_heap"
  by (simp add: sample_heap_def sample_index_list)

theorem heap_alloc_page_aligned_witness:
  "\<exists>s'. heap_alloc (\<lambda>sz s. Inl NullDereference) sample_heap 80 1 = Inr (0x3000, s')
     \<and> heap_inv s' [(4084, Lost), (100, Used), (4008, Hole)]"
proof -
  have small: "unat (80 :: u32) + 20 < 2147483648" "(1 :: s32) \<noteq> 0" by simp_all
  have tk: "taken sample_heap [(0x2000, Hole)] (unat (80 :: u32) + 20) 1 [] 0x2000 []"
    by (rule taken_sample) simp
  show ?thesis
    using heap_alloc_page_aligned [OF sample_heap_inv small tk sample_room sample_front [symmetric]]
    by (auto simp: sample_heap_def alloc_blocks_def remainder_def)
qed

text \<open>
  C10.  The page-aligned allocation that panics.  When the hole taken would leave
  between 1 and 20 bytes behind the block, \<open>heap_alloc\<close> fails an assertion, although
  the hole is large enough: the size is rounded up to the whole hole before the bytes in
  front are cut off, never after.
\<close>

theorem heap_alloc_page_aligned_gap:
  assumes "heap_inv s bs" "unat sz + 20 < 2147483648" "pa \<noteq> 0"
    and "taken s bs (unat sz + 20) pa pre hsz post" "length (index_list s) < index_capacity s"
    and "off = front (heap_start s + total pre) pa" "off \<noteq> 0"
    and "off + (unat sz + 20) < hsz" "hsz \<le> off + (unat sz + 20) + 20"
  shows "heap_alloc kmalloc_ap s sz pa
    = Inl (AssertFailed ''We have free space in the hole, but not enough to make a new one'')"
  by (rule heap_alloc_aligned(1) [OF assms])

theorem heap_alloc_page_aligned_gap_witness:
  "heap_alloc (\<lambda>sz s. Inl NullDereference) sample_heap 4078 1
    = Inl (AssertFailed ''We have free space in the hole, but not enough to make a new one'')"
proof -
  have small: "unat (4078 :: u32) + 20 < 2147483648" "(1 :: s32) \<noteq> 0" by simp_all
  have tk: "taken sample_heap [(0x2000, Hole)] (unat (4078 :: u32) + 20) 1 [] 0x2000 []"
    by (rule taken_sample) simp
  show ?thesis
    by (rule heap_alloc_page_aligned_gap [OF sample_heap_inv small tk sample_room sample_front [symmetric]])
       simp_all
qed

end
