(* ===== verification/Kmalloc.thy ===== *)
theory Kmalloc
  imports KheapRun
begin

text \<open>
  \<open>src/src/kmalloc.c\<close>: the linear allocator used until the heap is up, the dispatch between
  it and the heap, and the kernel's allocation functions; with them the operations that
  allocate: \<open>bitset_create\<close>, \<open>init_frames\<close>, \<open>ordered_array_create\<close> and \<open>heap_create\<close>.

  \<open>heap_alloc\<close>, \<open>expand\<close>, \<open>get_page\<close> and \<open>kmalloc_ap\<close> call each other.  The stack they
  may use is the first argument here: the number of nested calls of \<open>__kmalloc\<close>.
  Running out of it is the result \<open>StackExhausted\<close>.  Calls from outside nest at most
  once before \<open>get_page\<close> needs a table, so small depths are enough when the heap does
  not grow (depth 1) or grows within mapped tables (depth 1).
\<close>

section \<open>Definitions\<close>

text \<open>The pair is the address returned and the value stored in \<open>*physical\<close>.\<close>

definition linear_kmalloc :: "mm_state \<Rightarrow> u32 \<Rightarrow> s32 \<Rightarrow> (u32 \<times> u32) \<times> mm_state" where
  "linear_kmalloc s sz align =
     (let first = (if align \<noteq> 0 \<and> mem_first_unused s AND NOT PAGE_ADDR_MASK \<noteq> 0
                   then (mem_first_unused s AND PAGE_ADDR_MASK) + PAGE_SIZE
                   else mem_first_unused s)
      in ((first, first), s\<lparr>mem_first_unused := first + sz\<rparr>))"

fun kmalloc_impl :: "nat \<Rightarrow> mm_state \<Rightarrow> u32 \<Rightarrow> s32 \<Rightarrow> bool \<Rightarrow> ((u32 \<times> u32) \<times> mm_state) res" where
  "kmalloc_impl 0 s sz align want_physical = Inl StackExhausted"
| "kmalloc_impl (Suc depth) s sz align want_physical =
     (let ap = (\<lambda>sz s. kmalloc_impl depth s sz 1 True)
      in if kernel_heap s \<noteq> 0
         then bind_res (heap_alloc ap s sz align) (\<lambda>(new, s1).
              if want_physical
              then bind_res (get_page ap s1 new False (kernel_directory s1)) (\<lambda>(page, s2).
                     if page = 0 then Inl NullDereference
                     else Inr ((new, page_address (load32 (mem s2) page) * PAGE_SIZE
                                       + (new AND NOT PAGE_ADDR_MASK)), s2))
              else Inr ((new, 0), s1))
         else Inr (linear_kmalloc s sz align))"

definition kmalloc :: "nat \<Rightarrow> mm_state \<Rightarrow> u32 \<Rightarrow> (u32 \<times> mm_state) res" where
  "kmalloc d s sz = bind_res (kmalloc_impl d s sz 0 False) (\<lambda>((new, physical), s1). Inr (new, s1))"

definition kmalloc_a :: "nat \<Rightarrow> mm_state \<Rightarrow> u32 \<Rightarrow> (u32 \<times> mm_state) res" where
  "kmalloc_a d s sz = bind_res (kmalloc_impl d s sz 1 False) (\<lambda>((new, physical), s1). Inr (new, s1))"

definition kmalloc_p :: "nat \<Rightarrow> mm_state \<Rightarrow> u32 \<Rightarrow> ((u32 \<times> u32) \<times> mm_state) res" where
  "kmalloc_p d s sz = kmalloc_impl d s sz 0 True"

definition kmalloc_ap :: "nat \<Rightarrow> mm_state \<Rightarrow> u32 \<Rightarrow> ((u32 \<times> u32) \<times> mm_state) res" where
  "kmalloc_ap d s sz = kmalloc_impl d s sz 1 True"

definition kfree :: "mm_state \<Rightarrow> u32 \<Rightarrow> mm_state res" where
  "kfree s ptr = (if kernel_heap s \<noteq> 0 then heap_free s ptr else Inr s)"

section \<open>Operations that allocate\<close>

text \<open>\<open>set->size\<close> counts words; it is also the number of bytes asked for and cleared.\<close>

definition bitset_create :: "nat \<Rightarrow> mm_state \<Rightarrow> u32 \<Rightarrow> (bitset \<times> mm_state) res" where
  "bitset_create d s sz =
     (let words = (sz + 32 - 1) div 32
      in bind_res (kmalloc d s words) (\<lambda>(base, s1).
           Inr (\<lparr>bs_base = base, bs_size = words\<rparr>, s1\<lparr>mem := memset (mem s1) base 0 words\<rparr>)))"

definition init_frames :: "nat \<Rightarrow> mm_state \<Rightarrow> u32 \<Rightarrow> mm_state res" where
  "init_frames d s total_memory =
     (let s0 = s\<lparr>num_frames := total_memory div PAGE_SIZE\<rparr>
      in bind_res (bitset_create d s0 (num_frames s0)) (\<lambda>(bs, s1). Inr (s1\<lparr>frames := bs\<rparr>)))"

definition ordered_array_create ::
    "nat \<Rightarrow> mm_state \<Rightarrow> u32 \<Rightarrow> less_than_cmp option \<Rightarrow> (ordered_array \<times> mm_state) res" where
  "ordered_array_create d s sz cmp =
     bind_res (kmalloc d s (4 * sz)) (\<lambda>(place, s1).
       let (m, array) = ordered_array_create_at (mem s1) place sz cmp
       in Inr (array, s1\<lparr>mem := m\<rparr>))"

text \<open>The heap object of 36 bytes (an index of 16 bytes and five words).\<close>

definition sizeof_heap :: u32 where "sizeof_heap = 36"

definition heap_create ::
    "nat \<Rightarrow> mm_state \<Rightarrow> u32 \<Rightarrow> u32 \<Rightarrow> u32 \<Rightarrow> s32 \<Rightarrow> s32 \<Rightarrow> (u32 \<times> mm_state) res" where
  "heap_create d s start end_addr max_address user_mode writeable =
     bind_res (kmalloc d s sizeof_heap) (\<lambda>(heap, s1).
     bind_res (assert_k (start AND NOT PAGE_ADDR_MASK = 0)
                 ''Heap start address is not page-aligned'') (\<lambda>_.
     bind_res (assert_k (end_addr AND NOT PAGE_ADDR_MASK = 0)
                 ''Heap end   address is not page-aligned'') (\<lambda>_.
       let (m1, index) = ordered_array_create_at (mem s1) start KHEAP_INDEX_SIZE (Some header_t_cmp);
           start1 = page_round_up (start + 4 * KHEAP_INDEX_SIZE);
           s2 = s1\<lparr>mem := m1,
                   heap_obj := \<lparr>h_index = index, allocated_start = start1, allocated_end = end_addr,
                                max_addr = max_address, pages_user_mode = user_mode,
                                pages_writeable = writeable\<rparr>\<rparr>;
           m2 = write_header (mem s2) start1 (end_addr - start1) 1
       in bind_res (index_insert (s2\<lparr>mem := m2\<rparr>) start1) (\<lambda>s3. Inr (heap, s3)))))"

section \<open>More stack changes nothing else\<close>

definition refines :: "'a res \<Rightarrow> 'a res \<Rightarrow> bool" where
  "refines r r' \<longleftrightarrow> r = Inl StackExhausted \<or> r' = r"

definition below :: "allocator \<Rightarrow> allocator \<Rightarrow> bool" where
  "below ap ap' \<longleftrightarrow> (\<forall>sz s. refines (ap sz s) (ap' sz s))"

lemma refines_refl [simp]: "refines r r"
  by (simp add: refines_def)

lemma refines_bind:
  "refines r r' \<Longrightarrow> (\<And>x. refines (f x) (f' x)) \<Longrightarrow> refines (bind_res r f) (bind_res r' f')"
  by (cases r) (auto simp: refines_def)

lemma get_page_below:
  "below ap ap' \<Longrightarrow> refines (get_page ap s a create dir) (get_page ap' s a create dir)"
  unfolding get_page_def Let_def
  by (auto intro!: refines_bind simp: below_def split: prod.splits)

lemma map_pages_below:
  assumes "below ap ap'"
  shows "refines (map_pages ap s i n) (map_pages ap' s i n)"
proof (induction "n - i" arbitrary: s i rule: less_induct)
  case less
  show ?case
    unfolding map_pages.simps [of ap s i n] map_pages.simps [of ap' s i n] using less assms
    by (auto intro!: refines_bind get_page_below split: prod.splits)
qed

lemma expand_below: "below ap ap' \<Longrightarrow> refines (expand ap s n) (expand ap' s n)"
  unfolding expand_def Let_def by (intro refines_bind map_pages_below refines_refl)

lemma heap_grow_below: "below ap ap' \<Longrightarrow> refines (heap_grow ap s n pa) (heap_grow ap' s n pa)"
  unfolding heap_grow_def Let_def by (intro refines_bind expand_below refines_refl)

lemma heap_alloc_below: "below ap ap' \<Longrightarrow> refines (heap_alloc ap s sz pa) (heap_alloc ap' s sz pa)"
  unfolding heap_alloc_def Let_def
  by (auto intro!: refines_bind heap_grow_below split: prod.splits)

lemma kmalloc_impl_below:
  "below (\<lambda>sz s. kmalloc_impl d s sz 1 True) (\<lambda>sz s. kmalloc_impl d' s sz 1 True) \<Longrightarrow>
     refines (kmalloc_impl (Suc d) s sz al w) (kmalloc_impl (Suc d') s sz al w)"
  by (auto intro!: refines_bind heap_alloc_below get_page_below simp: Let_def split: prod.splits)

lemma kmalloc_impl_Suc: "refines (kmalloc_impl d s sz al w) (kmalloc_impl (Suc d) s sz al w)"
proof (induction d arbitrary: s sz al w)
  case 0
  then show ?case by (simp add: refines_def)
next
  case (Suc d)
  show ?case by (rule kmalloc_impl_below) (simp only: below_def Suc simp_thms)
qed

lemma kmalloc_impl_more: "refines (kmalloc_impl d s sz al w) (kmalloc_impl (d + k) s sz al w)"
proof (induction k)
  case (Suc k)
  then show ?case using kmalloc_impl_Suc [of "d + k" s sz al w] by (auto simp: refines_def)
qed simp

text \<open>
  The depth given to \<open>__kmalloc\<close> is only a limit: a call that does not run out of
  stack at some depth gives the same result, an error of its own included, at every
  larger depth.
\<close>

lemma kmalloc_depth_independent:
  assumes "kmalloc_impl d s sz align want \<noteq> Inl StackExhausted" "d \<le> d'"
  shows "kmalloc_impl d' s sz align want = kmalloc_impl d s sz align want"
  using kmalloc_impl_more [of d s sz align want "d' - d"] assms by (simp add: refines_def)

section \<open>Before the heap\<close>

definition early_owned :: "mm_state \<Rightarrow> (nat \<times> nat) multiset \<Rightarrow> bool" where
  "early_owned s B \<longleftrightarrow> kernel_heap s = 0 \<and> (\<exists>bs. mset bs = B \<and> sorted_wrt apart bs
     \<and> (\<forall>b \<in> set bs. fst b + snd b \<le> unat (mem_first_unused s)))"

definition early_ready :: "mm_state \<Rightarrow> u32 \<Rightarrow> bool" where
  "early_ready s sz \<longleftrightarrow> unat (mem_first_unused s) + unat sz < 4294967296"

lemma kmalloc_linear:
  "kernel_heap s = 0 \<Longrightarrow> kmalloc (Suc d) s sz
     = Inr (mem_first_unused s, s\<lparr>mem_first_unused := mem_first_unused s + sz\<rparr>)"
  by (simp add: kmalloc_def linear_kmalloc_def Let_def)

interpretation early: block_allocator "kmalloc (Suc d)" early_ready early_owned mem for d
proof unfold_locales
  fix s B and sz :: u32
  assume own: "early_owned s B" and ready: "early_ready s sz"
  let ?a = "mem_first_unused s"
  let ?s = "s\<lparr>mem_first_unused := ?a + sz\<rparr>"
  obtain bs where bs: "mset bs = B" "sorted_wrt apart bs" "\<forall>b \<in> set bs. fst b + snd b \<le> unat ?a"
    using own by (auto simp: early_owned_def)
  have u: "unat (?a + sz) = unat ?a + unat sz"
    using ready by (simp add: early_ready_def unat_add32)
  have "apart (unat ?a, unat sz) b" if "b \<in> set bs" for b
    using bs(3) that by (fastforce simp: apart_def)
  then have "early_owned ?s (add_mset (unat ?a, unat sz) B)"
    using own bs u unfolding early_owned_def
    by (intro conjI exI [of _ "(unat ?a, unat sz) # bs"]) fastforce+
  then show "\<exists>p n s'. kmalloc (Suc d) s sz = Inr (p, s') \<and> unat sz \<le> n
      \<and> early_owned s' (add_mset (unat p, n) B) \<and> (\<forall>b \<in># B. kept (mem s) (mem s') b)"
    using own kmalloc_linear [of s d sz] by (auto simp: early_owned_def)
next
  fix s b c B
  assume "early_owned s (add_mset b (add_mset c B))"
  then show "apart b c" by (auto simp: early_owned_def dest: sorted_apart_pair)
qed

text \<open>
  Before the heap is up, two blocks \<open>kmalloc\<close> hands out one after the other are
  disjoint, as long as the addresses do not wrap.
\<close>

lemma kmalloc_early_disjoint:
  assumes "kernel_heap s = 0" "kmalloc (Suc d) s sz = Inr (p, s1)" "kmalloc (Suc d) s1 sz' = Inr (q, s2)"
    and "unat (mem_first_unused s) + unat sz + unat sz' < 4294967296"
  shows "apart (unat p, unat sz) (unat q, unat sz')"
proof -
  have own: "early_owned s {#}" using assms(1) by (auto simp: early_owned_def)
  have r: "early_ready s sz" using assms(4) by (simp add: early_ready_def)
  have "s1 = s\<lparr>mem_first_unused := mem_first_unused s + sz\<rparr>"
    using assms(1,2) by (auto simp: kmalloc_linear)
  then have r1: "early_ready s1 sz'" using assms(4) by (simp add: early_ready_def unat_add32)
  show ?thesis by (rule early.alloc_twice [OF own r assms(2) r1 assms(3)])
qed

text \<open>
  Before the heap is up, \<open>kmalloc_ap\<close> returns the first page boundary at or behind
  \<open>mem_first_unused\<close>, as the physical address too, and moves \<open>mem_first_unused\<close> behind
  the block.
\<close>

lemma kmalloc_ap_early:
  assumes "kernel_heap s = 0" "unat (mem_first_unused s) + 4096 + unat sz < 4294967296"
  shows "\<exists>p s'. kmalloc_ap (Suc d) s sz = Inr ((p, p), s')
    \<and> unat p mod 4096 = 0 \<and> mem_first_unused s \<le> p \<and> unat p < unat (mem_first_unused s) + 4096
    \<and> unat (mem_first_unused s') = unat p + unat sz \<and> s' = s\<lparr>mem_first_unused := mem_first_unused s'\<rparr>"
proof -
  let ?f = "mem_first_unused s" and ?p = "page_round_up (mem_first_unused s)"
  have "unat ?f \<le> 4294963200" using assms(2) by linarith
  note up = page_round_up_nat [OF this]
  obtain q r where n: "unat ?f = 4096 * q + r" "r < 4096" "unat ?f mod 4096 = r" by (rule page_split)
  have p: "unat ?p = (if r = 0 then unat ?f else unat ?f - r + 4096)"
  proof (cases "r = 0")
    case True
    then show ?thesis unfolding up n(1) by simp
  next
    case False
    have "(4096 * q + r + 4095) div 4096 = q + 1" by (rule div_nat_eqI) (use False n(2) in auto)
    then show ?thesis unfolding up n(1) using False by simp
  qed
  have res: "kmalloc_ap (Suc d) s sz = Inr ((?p, ?p), s\<lparr>mem_first_unused := ?p + sz\<rparr>)"
    using assms(1) by (simp add: kmalloc_ap_def linear_kmalloc_def page_round_up_def Let_def)
  have le: "unat ?f \<le> unat ?p" "unat ?p < unat ?f + 4096" using p n by auto
  have "unat (?p + sz) = unat ?p + unat sz" using le assms(2) by (subst unat_add32) auto
  then show ?thesis using res le page_round_up_aligned [of ?f] by (simp add: word_le_nat_alt)
qed

section \<open>With the heap\<close>

definition late_owned :: "mm_state \<Rightarrow> (nat \<times> nat) multiset \<Rightarrow> bool" where
  "late_owned s B \<longleftrightarrow> kernel_heap s \<noteq> 0 \<and> owns s B"

lemma kmalloc_heap:
  assumes "kernel_heap s \<noteq> 0"
  shows "kmalloc (Suc d) s sz = heap_alloc (\<lambda>sz s. kmalloc_impl d s sz 1 True) s sz 0"
  using assms by (cases "heap_alloc (\<lambda>sz s. kmalloc_impl d s sz 1 True) s sz 0") (auto simp: kmalloc_def Let_def)

interpretation late: freeing_allocator "kmalloc (Suc d)" heap_ready late_owned mem kfree for d
proof unfold_locales
  fix s B and sz :: u32
  assume own: "late_owned s B" "heap_ready s sz"
  then obtain p n s' where "heap_alloc (\<lambda>sz s. kmalloc_impl d s sz 1 True) s sz 0 = Inr (p, s')"
    "unat sz \<le> n" "owns s' (add_mset (unat p, n) B)" "\<forall>b \<in># B. kept (mem s) (mem s') b" "kernel_heap s' = kernel_heap s"
    unfolding late_owned_def using ready_owned [of s B sz] by blast
  with own show "\<exists>p n s'. kmalloc (Suc d) s sz = Inr (p, s') \<and> unat sz \<le> n
      \<and> late_owned s' (add_mset (unat p, n) B) \<and> (\<forall>b \<in># B. kept (mem s) (mem s') b)"
    using kmalloc_heap [of s d sz] by (auto simp: late_owned_def)
next
  fix s b c B
  assume "late_owned s (add_mset b (add_mset c B))"
  then show "apart b c" by (auto simp: late_owned_def dest: owns_apart)
next
  fix s p n B s'
  assume "late_owned s (add_mset (unat p, n) B)" "kfree s p = Inr s'"
  then show "late_owned s' B \<and> (\<forall>b \<in># B. kept (mem s) (mem s') b)"
    unfolding late_owned_def kfree_def using free_owned [of s p n B] resized_kernel_heap by auto
qed



section \<open>Growing into a missing page table\<close>

text \<open>
  C13.  The allocation that never returns.  When the heap must grow, the table for its next page is
  missing and no hole is large enough for a page table either, \<open>__kmalloc\<close> calls itself for
  the table in the same state: it runs out of stack at every depth.
\<close>

theorem kmalloc_missing_table:
  assumes "kernel_heap s \<noteq> 0" "heap_inv s bs" "load32 (mem s) (page_slot s (heap_end s)) = 0"
    and "\<not> fits_in s bs (unat sizeof_page_table + 20) 1"
    and "heap_start s + grown_length s (unat sizeof_page_table + 20) \<le> unat (max_addr (heap_obj s))"
    and "unat sz + 20 < 2147483648" "\<not> fits_in s bs (unat sz + 20) pa"
    and "heap_start s + grown_length s (unat sz + 20) \<le> unat (max_addr (heap_obj s))"
  shows "kmalloc_impl d s sz pa want = Inl StackExhausted"
proof -
  have *: "kmalloc_impl (Suc d) s sz pa want = Inl StackExhausted"
    if "kmalloc_impl d s sizeof_page_table 1 True = Inl StackExhausted"
      "unat sz + 20 < 2147483648" "\<not> fits_in s bs (unat sz + 20) pa"
      "heap_start s + grown_length s (unat sz + 20) \<le> unat (max_addr (heap_obj s))" for d sz pa want
    using heap_alloc_missing_table [where kmalloc_ap = "\<lambda>sz s. kmalloc_impl d s sz 1 True", OF assms(2) that(2-4) assms(3)]
      that(1) assms(1) by simp
  have "kmalloc_impl d s sizeof_page_table 1 True = Inl StackExhausted" for d
  proof (induction d)
    case (Suc d)
    show ?case by (rule * [OF Suc.IH _ assms(4,5)]) (simp add: sizeof_page_table_def)
  qed simp
  then show ?thesis using * [OF _ assms(6-8)] by (cases d) simp_all
qed

theorem kmalloc_missing_table_witness:
  "\<forall>d. kmalloc_impl d sample_heap 0x2000 0 False = Inl StackExhausted"
proof
  have none: "\<not> fits_in sample_heap [(0x2000, Hole)] n 0" if "0x2000 < n" for n
    using that by (auto simp: fits_in_def Cons_eq_append_conv)
  have none1: "\<not> fits_in sample_heap [(0x2000, Hole)] 4116 1"
    using sample_front by (auto simp: fits_in_def Cons_eq_append_conv)
  have "word_at sample_memory 0 = word_at (\<lambda>_. 0) 0" by (rule same_outside_word [OF sample_outside]) auto
  then have "word_at (mem sample_heap) 0 = 0" by (simp add: sample_heap_def word_at_def)
  then have slot: "load32 (mem sample_heap) (page_slot sample_heap (heap_end sample_heap)) = 0"
    by (simp add: sample_heap_def page_slot_def dir_table_def word_at_def PAGE_SIZE_def PAGES_PER_TABLE_def)
  have fields: "kernel_heap sample_heap \<noteq> 0" "heap_start sample_heap = 0x2000" "heap_end sample_heap = 0x4000"
    "max_addr (heap_obj sample_heap) = 0x10000"
    by (simp_all add: sample_heap_def) (simp_all add: sample_state_def)
  show "kmalloc_impl d sample_heap 0x2000 0 False = Inl StackExhausted" for d
    by (rule kmalloc_missing_table [OF fields(1) sample_heap_inv slot])
       (use none1 none [of "0x2014"] in \<open>simp_all add: fields sizeof_page_table_def grown_length_def\<close>)
qed

section \<open>Creating the heap\<close>

lemma page_round_up_same: "unat x mod 4096 = 0 \<Longrightarrow> page_round_up x = x"
  by (simp add: page_round_up_def page_offset_mask mod_page_0)

lemma header_words:
  assumes "a + 12 \<le> 4294967296"
  shows "word_at (write_header m (of_nat a) v h) a = KHEAP_MAGIC"
    "word_at (write_header m (of_nat a) v h) (a + 4) = h"
    "word_at (write_header m (of_nat a) v h) (a + 8) = v"
    "same_outside {a..<a + 12} m (write_header m (of_nat a) v h)"
proof -
  show "same_outside {a..<a + 12} m (write_header m (of_nat a) v h)"
    unfolding write_header_nat by (intro same_outside_put_chain same_outside_refl) (use assms in auto)
qed (use assms in \<open>simp_all add: write_header_nat\<close>)

lemma memset_outside:
  "unat p + unat n \<le> 4294967296 \<Longrightarrow> same_outside {unat p..<unat p + unat n} m (memset m p v n)"
  by (intro same_outsideI) (auto simp: memset_apply bytes_no_wrap simp del: in_bytes)

lemma heap_create_ok:
  assumes "kernel_heap s = 0" "unat start mod 4096 = 0" "unat finish mod 4096 = 0"
    and "unat start + 8192 + 20 \<le> unat finish" "unat finish < 2147483648"
    and "word_at (mem s) (unat finish - 8) \<noteq> KHEAP_MAGIC"
  obtains s' where "heap_create (Suc d) s start finish max_address user_mode writeable = Inr (mem_first_unused s, s')"
    "heap_inv s' [(unat finish - (unat start + 8192), Raw)]" "index_sorted s'" "owns s' {#}"
    "s' = s\<lparr>mem := mem s', mem_first_unused := mem_first_unused s + sizeof_heap, heap_obj := heap_obj s'\<rparr>"
    "heap_start s' = unat start + 8192" "heap_end s' = unat finish" "index_capacity s' = 2048"
    "index_bytes s' = {unat start..<unat start + 8192}" "max_addr (heap_obj s') = max_address"
    "pages_user_mode (heap_obj s') = user_mode" "pages_writeable (heap_obj s') = writeable"
    "same_outside {unat start..<unat start + 8192 + 12} (mem s) (mem s')"
proof -
  let ?b = "unat start + 8192" and ?n = "unat finish - (unat start + 8192)"
  let ?s1 = "s\<lparr>mem_first_unused := mem_first_unused s + sizeof_heap\<rparr>"
  let ?m1 = "memset (mem s) start 0 8192"
  let ?ix = "\<lparr>oa_array = start, oa_size = 0, oa_max_size = 2048, oa_comparator = header_t_cmp\<rparr>"
  let ?m2 = "write_header ?m1 (of_nat ?b) (of_nat ?n) 1"
  define s2 where "s2 = ?s1\<lparr>heap_obj := \<lparr>h_index = ?ix, allocated_start = of_nat ?b,
    allocated_end = finish, max_addr = max_address, pages_user_mode = user_mode, pages_writeable = writeable\<rparr>,
    mem := ?m2\<rparr>"
  have sz: "KHEAP_INDEX_SIZE = 2048" "(4 * KHEAP_INDEX_SIZE) = 8192"
    by (simp_all add: KHEAP_INDEX_SIZE_def KHEAP_INITIAL_SIZE_def)
  have b: "start + 8192 = of_nat ?b" by simp
  have ub: "unat (of_nat ?b :: u32) = ?b" by (rule unat_of_nat32) (use assms in linarith)
  have "(unat start + 8192) mod 4096 = 0"
    using assms(2) mod_mult_self1 [of "unat start" 2 4096] by simp
  then have round: "page_round_up (of_nat ?b) = of_nat ?b"
    by (intro page_round_up_same) (simp only: ub)
  have diff: "finish - of_nat ?b = of_nat ?n" using assms(4) by (simp add: of_nat_diff)
  have create: "ordered_array_create_at (mem s) start 2048 (Some header_t_cmp) = (?m1, ?ix)"
    by (simp add: ordered_array_create_at_def)
  have eq: "heap_create (Suc d) s start finish max_address user_mode writeable
      = bind_res (index_insert s2 (of_nat ?b)) (\<lambda>s3. Inr (mem_first_unused s, s3))"
    using assms(2,3) unfolding heap_create_def kmalloc_linear [OF assms(1)] sz Let_def s2_def
    by (simp add: page_offset_mask mod_page_0 create b round diff del: of_nat_add)
  have fields: "heap_start s2 = ?b" "heap_end s2 = unat finish" "mem s2 = ?m2" "index_list s2 = []"
    "index_capacity s2 = 2048" "h_index (heap_obj s2) = ?ix"
    using ub by (simp_all add: s2_def heap_start_def heap_end_def index_list_def oa_list_def
        words_at_def index_capacity_def)
  have ok: "index_ok s2"
    using assms(4,5) unfolding index_ok_def fields by (simp add: oa_wf_def)
  have "length (index_list s2) < index_capacity s2" "heap_start s2 \<le> unat (of_nat ?b :: u32)"
    "unat (of_nat ?b :: u32) + 12 \<le> heap_end s2"
    unfolding fields ub using assms(4) by simp_all
  from index_insert_ok [OF ok this] obtain s3 where s3:
    "index_insert s2 (of_nat ?b) = Inr s3" "resized s2 s3" "index_ok s3"
    "index_list s3 = sift (\<lambda>x y. hdr_size (mem s2) x < hdr_size (mem s2) y)
       (index_list s2 @ [of_nat ?b]) (length (index_list s2))"
    "same_outside (index_bytes s2) (mem s2) (mem s3)" by blast
  have top: "?b + 12 \<le> 4294967296" using assms(4,5) by linarith
  note hw = header_words [OF top, of ?m1 "of_nat ?n" 1]
  obtain k where k: "unat finish = ?b + k + 20" using assms(4) by (metis le_Suc_ex add.commute add.assoc)
  have f: "?b + ?n - 8 = ?b + k + 12" "?n = k + 20" "unat finish - 8 = ?b + k + 12" using k by auto
  have "word_at ?m2 (?b + k + 12) = word_at (mem s) (?b + k + 12)"
  proof -
    have "word_at ?m2 (?b + k + 12) = word_at ?m1 (?b + k + 12)"
      by (rule same_outside_word [OF hw(4)]) (use k assms(5) in auto)
    also have "\<dots> = word_at (mem s) (?b + k + 12)"
      by (rule same_outside_word [OF memset_outside]) (use k assms(5) in auto)
    finally show ?thesis .
  qed
  then have raw: "block_ok ?m2 ?b ?n Raw"
    using hw(1-3) assms(6) f unfolding block_ok_def by simp
  have lay: "layout (mem s3) ?b [(?n, Raw)]"
  proof (rule layout_frame_region [OF _ s3(5)])
    show "layout (mem s2) ?b [(?n, Raw)]" using raw fields(3) by simp
    show "{?b..<?b + total [(?n, Raw)]} \<inter> index_bytes s2 = {}"
      using index_below_body [OF ok, of ?b "?b + total [(?n, Raw)]"] unfolding fields(1) by blast
  qed (use assms(4,5) in simp)
  note fr = resized_frame [OF s3(2)]
  have inv: "heap_inv s3 [(?n, Raw)]"
    using s3(3,4) lay assms(4) unfolding heap_inv_def fr fields by simp
  have "owns s3 {#}" by (rule ownsI [OF inv]) (simp_all add: not_lost_def)
  moreover have "index_sorted s3" unfolding index_sorted_def s3(4) fields by simp
  moreover have "s3 = s\<lparr>mem := mem s3, mem_first_unused := mem_first_unused s + sizeof_heap, heap_obj := heap_obj s3\<rparr>"
    using s3(2) by (auto simp: resized_def s2_def)
  moreover have ib: "index_bytes s2 = {unat start..<unat start + 8192}" by (simp add: index_bytes_def fields(6))
  moreover have "max_addr (heap_obj s3) = max_address" "pages_user_mode (heap_obj s3) = user_mode"
    "pages_writeable (heap_obj s3) = writeable"
    using s3(2) by (auto simp: resized_def s2_def)
  moreover have "same_outside {unat start..<unat start + 8192 + 12} (mem s) (mem s3)"
  proof -
    have "unat (8192 :: u32) = 8192" "unat start + 8192 \<le> 4294967296" using assms(4,5) by simp_all
    then have "same_outside {unat start..<unat start + 8192} (mem s) ?m1"
      using memset_outside [of start 8192 "mem s" 0] by simp
    from same_outside_trans [OF same_outside_trans [OF this hw(4)] s3(5) [unfolded fields(3) ib]]
    show ?thesis by (rule same_outside_mono) auto
  qed
  ultimately show ?thesis
    using that [of s3] eq s3(1) inv fr fields by simp
qed

text \<open>
  C7.  \<open>heap_create\<close>, called before the heap is up with page-aligned bounds that leave
  room for the index and one hole, makes a heap that satisfies the invariant: the index,
  in order, has one entry, the hole that fills the body, and no block is allocated.
  (The hole is \<open>Raw\<close>: no footer is written.)
\<close>

theorem heap_create_correct:
  assumes "kernel_heap s = 0" "unat start mod 4096 = 0" "unat finish mod 4096 = 0"
    and "unat start + 8192 + 20 \<le> unat finish" "unat finish < 2147483648"
    and "word_at (mem s) (unat finish - 8) \<noteq> KHEAP_MAGIC"
  shows "\<exists>s'. heap_create (Suc d) s start finish max_address user_mode writeable
        = Inr (mem_first_unused s, s')
    \<and> heap_inv s' [(unat finish - (unat start + 8192), Raw)] \<and> index_sorted s' \<and> owns s' {#}"
  using heap_create_ok [where d = d and max_address = max_address and user_mode = user_mode and writeable = writeable, OF assms] by metis

theorem heap_create_correct_witness:
  "\<exists>s'. heap_create 1 sample_frames 0x4000 0x10000 0x20000 0 1 = Inr (0, s')
     \<and> heap_inv s' [(0xA000, Raw)] \<and> owns s' {#}"
proof -
  have "word_at (mem sample_frames) 0xFFF8 \<noteq> KHEAP_MAGIC"
    by (simp add: word_at_def sample_frames_def load32_def KHEAP_MAGIC_def)
  then show ?thesis
    using heap_create_correct [of sample_frames "0x4000" "0x10000" 0 "0x20000" 0 1]
    by (auto simp: sample_frames_def)
qed

end
