(* ===== verification/Printf.thy ===== *)
theory Printf
  imports Strings
begin

text \<open>
  Formatted output: \<open>append_number\<close>, \<open>skip_atoi\<close> and \<open>vsprintf\<close> of \<open>src/src/string.c\<close>.
  Format, output buffer and argument list are addresses in the same memory, so an output
  that overwrites its own format is in the model.  The scans for the end of the format
  are partial functions; the local buffer of \<open>append_number\<close> is the list of the
  characters written to it, and writing more than its 65 is \<open>OutOfBounds\<close>.
\<close>

section \<open>Numbers\<close>

definition SIGNED :: u32 where "SIGNED = 1"
definition ZERO_PADDED :: u32 where "ZERO_PADDED = 2"
definition LEFT_ALIGN :: u32 where "LEFT_ALIGN = 4"
definition SHOW_PREFIX :: u32 where "SHOW_PREFIX = 8"

definition has_flag :: "u32 \<Rightarrow> u32 \<Rightarrow> bool" where
  "has_flag flags f \<longleftrightarrow> flags AND f \<noteq> 0"

definition BUFSIZE :: nat where "BUFSIZE = 64"

text \<open>\<open>digits[d]\<close> of the string \<open>"0123456789abcdef"\<close>.\<close>

definition digit_char :: "u32 \<Rightarrow> u8" where
  "digit_char d = (if d < 10 then 48 + ucast d else 87 + ucast d)"

text \<open>
  The \<open>do ... while\<close> loop over the digits: the digits, last one first, and the width that
  is left.  A radix below 2, for which the loop need not end, never reaches it.
\<close>

function digits_loop :: "u32 \<Rightarrow> u32 \<Rightarrow> bool \<Rightarrow> s32 \<Rightarrow> u8 list \<times> s32" where
  "digits_loop i radix left_align width =
     (if radix < 2 then ([], width)
      else let digit = i mod radix; i' = i div radix; width' = width - 1
           in if i' \<noteq> 0 \<or> (\<not> left_align \<and> width' > 0)
              then let (ds, w) = digits_loop i' radix left_align width'
                   in (digit_char digit # ds, w)
              else ([digit_char digit], width'))"
  by pat_completeness auto
termination
proof (relation "measure (\<lambda>(i, radix, left_align, width). unat i + nat width)", goal_cases)
  case (2 i radix left_align width digit i' width')
  have r: "2 \<le> unat radix" using 2(1) by (simp add: word_less_nat_alt)
  have d: "unat i' = unat i div unat radix" by (simp add: 2(3) unat_div)
  show ?case
  proof (cases "unat i = 0")
    case True
    then have "i' = 0" using d by (simp add: unat_eq_zero)
    then show ?thesis using 2 True by auto
  next
    case False
    then have "unat i' < unat i" unfolding d using r by (intro div_less_dividend) auto
    then show ?thesis using 2(4) by auto
  qed
qed simp

declare digits_loop.simps [simp del]

text \<open>The prefix as it is pushed, last character first.\<close>

definition prefix_chars :: "s32 \<Rightarrow> u8 list" where
  "prefix_chars radix =
     (if radix = 2 then [98, 48] else if radix = 8 then [48] else if radix = 16 then [120, 48] else [])"

text \<open>What \<open>append_number\<close> pushes on \<open>_buf\<close>, and the width left for the right of the number.\<close>

definition number_buffer :: "u32 \<Rightarrow> s32 \<Rightarrow> u32 \<Rightarrow> s32 \<Rightarrow> u8 list \<times> s32" where
  "number_buffer val radix flags width0 =
     (let width = (if width0 > int BUFSIZE then int BUFSIZE else width0);
          padding = (if has_flag flags ZERO_PADDED then 48 else 32);
          negative = (has_flag flags SIGNED \<and> sint val < 0);
          i = (if negative then - val else val);
          (ds, w) = digits_loop i (word_of_int radix) (has_flag flags LEFT_ALIGN) width;
          buf1 = ds @ (if has_flag flags SHOW_PREFIX then prefix_chars radix else []);
          buf2 = buf1 @ (if negative then [45] else [])
      in if has_flag flags LEFT_ALIGN then (buf2, w)
         else (buf2 @ replicate (nat w) padding, 0))"

fun store_bytes :: "memory \<Rightarrow> u32 \<Rightarrow> u8 list \<Rightarrow> memory \<times> u32" where
  "store_bytes m str [] = (m, str)"
| "store_bytes m str (c # cs) = store_bytes (m(str := c)) (str + 1) cs"

definition append_number ::
    "memory \<Rightarrow> u32 \<Rightarrow> u32 \<Rightarrow> s32 \<Rightarrow> u32 \<Rightarrow> s32 \<Rightarrow> (memory \<times> u32) res" where
  "append_number m str val radix flags width =
     (if radix < 2 \<or> radix > 16 then Inr (m, str)
      else let (buf, w) = number_buffer val radix flags width;
               padding = (if has_flag flags ZERO_PADDED then 48 else 32)
           in if length buf > BUFSIZE + 1 then Inl OutOfBounds
              else Inr (store_bytes m str (rev buf @ replicate (nat w) padding)))"

section \<open>The format\<close>

text \<open>The value of a signed 32-bit int after an operation: overflow wraps, as the machine does it.\<close>

definition wrap_int :: "int \<Rightarrow> s32" where
  "wrap_int x = sint (word_of_int x :: u32)"

partial_function (option) skip_atoi_loop :: "memory \<Rightarrow> u32 \<Rightarrow> s32 \<Rightarrow> (u32 \<times> s32) option" where
  "skip_atoi_loop m str target =
     (if is_digit (m str)
      then skip_atoi_loop m (str + 1) (wrap_int (wrap_int (target * 10) + (sint (m str) - 48)))
      else Some (str, target))"

definition skip_atoi :: "memory \<Rightarrow> u32 \<Rightarrow> (u32 \<times> s32) option" where
  "skip_atoi m str = skip_atoi_loop m str 0"

text \<open>The loop over the flags starts in front of the first of them.\<close>

partial_function (option) parse_flags :: "memory \<Rightarrow> u32 \<Rightarrow> u32 \<Rightarrow> (u32 \<times> u32) option" where
  "parse_flags m fmt flags =
     (if m (fmt + 1) = 45 then parse_flags m (fmt + 1) (flags OR LEFT_ALIGN)
      else if m (fmt + 1) = 48 then parse_flags m (fmt + 1) (flags OR ZERO_PADDED)
      else if m (fmt + 1) = 35 then parse_flags m (fmt + 1) (flags OR SHOW_PREFIX)
      else Some (fmt + 1, flags))"

definition spaces :: "s32 \<Rightarrow> u8 list" where
  "spaces n = replicate (nat n) 32"

text \<open>
  One conversion: the memory, the output pointer and the argument pointer after it.
  The \<open>case\<close> labels that fall through are the calls with the flags they add.
\<close>

definition number_directive ::
    "memory \<Rightarrow> u32 \<Rightarrow> u32 \<Rightarrow> s32 \<Rightarrow> u32 \<Rightarrow> s32 \<Rightarrow> (memory \<times> u32 \<times> u32) res" where
  "number_directive m str va radix flags width =
     bind_res (append_number m str (load32 m va) radix flags width) (\<lambda>(m', str'). Inr (m', str', va + 4))"

definition string_directive ::
    "memory \<Rightarrow> u32 \<Rightarrow> u32 \<Rightarrow> u32 \<Rightarrow> s32 \<Rightarrow> (memory \<times> u32 \<times> u32) option" where
  "string_directive m str va flags width =
     (let param = load32 m va
      in Option.bind (strlen m param) (\<lambda>len.
         let (m1, str1) = (if has_flag flags LEFT_ALIGN then (m, str)
                           else store_bytes m str (spaces (width - len)));
             width1 = (if has_flag flags LEFT_ALIGN then width else min width len);
             m2 = memcpy_loop m1 str1 param (nat len);
             (m3, str3) = store_bytes m2 (str1 + of_int len) (spaces (width1 - len))
         in Some (m3, str3, va + 4)))"

definition directive ::
    "memory \<Rightarrow> u8 \<Rightarrow> u32 \<Rightarrow> u32 \<Rightarrow> u32 \<Rightarrow> s32 \<Rightarrow> (memory \<times> u32 \<times> u32) res option" where
  "directive m c str va flags width =
     (if c = 100 then Some (number_directive m str va 10 (flags OR SIGNED) width)
      else if c = 117 then Some (number_directive m str va 10 flags width)
      else if c = 112 then Some (number_directive m str va 16 (flags OR (ZERO_PADDED OR SHOW_PREFIX))
                                   (if width = 0 then 8 else width))
      else if c = 120 then Some (number_directive m str va 16 flags width)
      else if c = 111 then Some (number_directive m str va 8 flags width)
      else if c = 98 then Some (number_directive m str va 2 flags width)
      else if c = 99 then Some (Inr (m(str := ucast (load32 m va)), str + 1, va + 4))
      else if c = 115 then map_option Inr (string_directive m str va flags width)
      else Some (Inr (m(str := c), str + 1, va)))"

partial_function (option) vsprintf_loop ::
    "memory \<Rightarrow> u32 \<Rightarrow> u32 \<Rightarrow> u32 \<Rightarrow> (memory \<times> u32) res option" where
  "vsprintf_loop m fmt str va =
     (if m fmt = 0 then Some (Inr (m, str))
      else if m fmt \<noteq> 37 then vsprintf_loop (m(str := m fmt)) (fmt + 1) (str + 1) va
      else Option.bind (parse_flags m fmt 0) (\<lambda>(fmt1, flags).
           Option.bind (if is_digit (m fmt1) then skip_atoi m fmt1 else Some (fmt1, 0)) (\<lambda>(fmt2, width).
           Option.bind (directive m (m fmt2) str va flags width) (\<lambda>r.
             case r of Inl e \<Rightarrow> Some (Inl e)
             | Inr (m', str', va') \<Rightarrow> vsprintf_loop m' (fmt2 + 1) str' va'))))"

text \<open>The result is the memory and the number returned, which counts the NUL byte.\<close>

definition vsprintf :: "memory \<Rightarrow> u32 \<Rightarrow> u32 \<Rightarrow> u32 \<Rightarrow> (memory \<times> s32) res option" where
  "vsprintf m fmt buf va =
     map_option (\<lambda>r. bind_res r (\<lambda>(m', str). Inr (m'(str := 0), sint (str + 1 - buf))))
       (vsprintf_loop m fmt buf va)"


section \<open>Bytes written in a row\<close>

definition read_bytes :: "memory \<Rightarrow> u32 \<Rightarrow> nat \<Rightarrow> u8 list" where
  "read_bytes m p n = map (\<lambda>i. m (p + of_nat i)) [0..<n]"

lemma store_bytes_end: "snd (store_bytes m p cs) = p + of_nat (length cs)"
  by (induction m p cs rule: store_bytes.induct) (simp_all del: fun_upd_apply)

lemma store_bytes_apply:
  "length cs \<le> 4294967295 \<Longrightarrow> fst (store_bytes m p cs) x
     = (if unat (x - p) < length cs then cs ! unat (x - p) else m x)"
proof (induction m p cs rule: store_bytes.induct)
  case (2 m p c cs)
  show ?case
  proof (cases "x = p")
    case True
    then have u: "unat (x - (p + 1)) = 4294967295" by simp
    have "fst (store_bytes (m(p := c)) (p + 1) cs) x = (m(p := c)) x"
      using 2 u by (simp del: fun_upd_apply)
    then show ?thesis using True by simp
  next
    case False
    have "fst (store_bytes (m(p := c)) (p + 1) cs) x
        = (if unat (x - (p + 1)) < length cs then cs ! unat (x - (p + 1)) else (m(p := c)) x)"
      using 2 by (simp del: fun_upd_apply)
    then show ?thesis using unat_offset_Suc [OF False] False by simp
  qed
qed simp

lemma read_store_bytes:
  assumes "length cs \<le> 4294967295"
  shows "read_bytes (fst (store_bytes m p cs)) p (length cs) = cs"
proof (rule nth_equalityI)
  fix i assume "i < length (read_bytes (fst (store_bytes m p cs)) p (length cs))"
  then have i: "i < length cs" by (simp add: read_bytes_def)
  then have "unat (of_nat i :: u32) = i" using assms by (intro unat_of_nat32) simp
  then show "read_bytes (fst (store_bytes m p cs)) p (length cs) ! i = cs ! i"
    using i assms by (simp add: read_bytes_def store_bytes_apply)
qed (simp add: read_bytes_def)

lemma store_bytes_outside:
  "length cs \<le> 4294967295 \<Longrightarrow> x \<notin> bytes p (length cs) \<Longrightarrow> fst (store_bytes m p cs) x = m x"
  by (simp add: store_bytes_apply)

section \<open>The number spelled\<close>

definition char_value :: "u8 \<Rightarrow> nat" where
  "char_value c = (if unat c < 58 then unat c - 48 else unat c - 87)"

definition number_value :: "nat \<Rightarrow> u8 list \<Rightarrow> nat" where
  "number_value b cs = foldl (\<lambda>a c. a * b + char_value c) 0 cs"

lemma char_value_digit:
  assumes "unat d < 16"
  shows "char_value (digit_char d) = unat d"
proof -
  have "unat (ucast d :: u8) = unat d" using assms by (simp add: unsigned_ucast_eq take_bit_nat_eq_self)
  then show ?thesis using assms
    by (simp add: char_value_def digit_char_def word_less_nat_alt unat_word_ariths)
qed

lemma number_value_rev: "number_value b (rev ds) = foldr (\<lambda>c a. char_value c + b * a) ds 0"
  by (simp add: number_value_def foldr_conv_foldl add.commute mult.commute)

lemma digits_loop_facts:
  assumes "2 \<le> unat radix" "unat radix \<le> 16"
  shows "foldr (\<lambda>c a. char_value c + unat radix * a) (fst (digits_loop i radix left width)) 0 = unat i
    \<and> snd (digits_loop i radix left width) = width - int (length (fst (digits_loop i radix left width)))
    \<and> 0 < length (fst (digits_loop i radix left width))
    \<and> (left \<or> width \<le> int (length (fst (digits_loop i radix left width))))
    \<and> (1 < length (fst (digits_loop i radix left width))
        \<and> (left \<or> width < int (length (fst (digits_loop i radix left width))))
        \<longrightarrow> unat radix ^ (length (fst (digits_loop i radix left width)) - 1) \<le> unat i)"
  using assms
proof (induction i radix left width rule: digits_loop.induct)
  case (1 i radix left width)
  let ?i = "i div radix" and ?w = "width - 1"
  let ?r = "digits_loop ?i radix left ?w"
  have r2: "\<not> radix < 2" using 1(2) by (simp add: word_less_nat_alt)
  have d: "unat (i mod radix) < 16" using 1(2,3) by (simp add: unat_mod) (meson less_le_trans mod_less_divisor zero_less_numeral order_less_le_trans)
  have split: "unat (i mod radix) + unat radix * unat ?i = unat i" by (simp add: unat_mod unat_div)
  show ?case
  proof (cases "?i \<noteq> 0 \<or> (\<not> left \<and> ?w > 0)")
    case False
    then have eq: "digits_loop i radix left width = ([digit_char (i mod radix)], ?w)"
      using r2 False by (subst digits_loop.simps) (auto simp: Let_def)
    show ?thesis using False split d unfolding eq by (auto simp: char_value_digit)
  next
    case True
    have eq: "digits_loop i radix left width = (digit_char (i mod radix) # fst ?r, snd ?r)"
      using r2 True by (subst digits_loop.simps) (simp add: Let_def split: prod.splits)
    note IH = 1(1) [OF r2 refl refl refl True 1(2,3)]
    have pow: "unat radix ^ length (fst ?r) \<le> unat i"
      if "left \<or> ?w < int (length (fst ?r))"
    proof (cases "1 < length (fst ?r)")
      case len: True
      then have "unat radix ^ (length (fst ?r) - 1) \<le> unat ?i" using IH that by blast
      then have "unat radix * unat radix ^ (length (fst ?r) - 1) \<le> unat radix * unat ?i" by simp
      moreover have "unat radix * unat radix ^ (length (fst ?r) - 1) = unat radix ^ length (fst ?r)"
        using IH by (metis power_eq_if less_numeral_extra(3))
      ultimately show ?thesis using split by linarith
    next
      case False
      then have l1: "length (fst ?r) = 1" using IH by linarith
      have "?i \<noteq> 0"
      proof
        assume z: "?i = 0"
        then have "\<not> left" "?w > 0" using True by auto
        then show False using that l1 by simp
      qed
      then have "1 \<le> unat ?i" by (simp add: Suc_le_eq unat_gt_0)
      then have "unat radix * 1 \<le> unat radix * unat ?i" by (rule mult_le_mono2)
      then show ?thesis unfolding l1 power_one_right mult_1_right using split by linarith
    qed
    have a: "foldr (\<lambda>c a. char_value c + unat radix * a) (fst (digits_loop i radix left width)) 0 = unat i"
      unfolding eq using IH split d by (simp add: char_value_digit)
    have b: "snd (digits_loop i radix left width) = width - int (length (fst (digits_loop i radix left width)))"
      unfolding eq using IH by simp
    have c: "left \<or> width \<le> int (length (fst (digits_loop i radix left width)))"
      unfolding eq using IH by auto
    show ?thesis using a b c pow unfolding eq by auto
  qed
qed


lemma digits_loop_length:
  assumes "2 \<le> unat radix" "unat radix \<le> 16"
  shows "length (fst (digits_loop i radix left width)) \<le> max 32 (nat width)"
proof (rule ccontr)
  let ?n = "length (fst (digits_loop i radix left width))"
  note f = digits_loop_facts [OF assms, of i left width]
  assume big: "\<not> ?n \<le> max 32 (nat width)"
  then have "unat radix ^ (?n - 1) \<le> unat i" using f by auto
  moreover have "2 ^ 32 \<le> (2 :: nat) ^ (?n - 1)" using big by (intro power_increasing) auto
  moreover have "(2 :: nat) ^ (?n - 1) \<le> unat radix ^ (?n - 1)" using assms(1) by (rule power_mono) simp
  ultimately show False using unat_lt_32 [of i] by simp
qed

section \<open>Properties\<close>

lemma unat_negate: "sint (x :: u32) < 0 \<Longrightarrow> int (unat (- x)) = - sint x"
proof -
  assume neg: "sint x < 0"
  have u: "take_bit 32 (uint x) = uint x" using uint_lt2p [of x] by (simp add: take_bit_int_eq_self)
  have s: "sint x = uint x - 4294967296 * of_bool (bit (uint x) 31)"
    by (simp add: sint_uint signed_take_bit_eq_take_bit_minus u)
  have "x \<noteq> 0" using neg by auto
  then have nz: "0 < unat x" unfolding unat_gt_0 .
  have "unat (- x) = 4294967296 - unat x"
    using nz unat_sub32_wrap [of 0 x] by simp
  moreover have "sint x = uint x - 4294967296" using neg s uint_ge_0 [of x] by (cases "bit (uint x) 31") auto
  ultimately show ?thesis
    using of_nat_diff [OF less_imp_le [OF unat_lt_32 [of x]], where 'a = int] by simp
qed




text \<open>
  C36.  The local buffer of \<open>append_number\<close> holds 65 characters, but a width of 64 or more
  with a two-character prefix writes 66 to it: \<open>"%#64x"\<close> overruns the buffer.
\<close>

theorem append_number_overrun:
  assumes "radix = 2 \<or> radix = 16" "64 \<le> width" "has_flag flags SHOW_PREFIX" "\<not> has_flag flags LEFT_ALIGN"
  shows "append_number m str val radix flags width = Inl OutOfBounds"
proof -
  have w: "(if width > int BUFSIZE then int BUFSIZE else width) = 64" using assms(2) by (simp add: BUFSIZE_def)
  have "(word_of_int radix :: u32) = of_nat (nat radix)" using assms(1) by auto
  then have r: "unat (word_of_int radix :: u32) = nat radix" using assms(1) by (simp only: unat_of_nat32) auto
  have rb: "2 \<le> unat (word_of_int radix :: u32)" "unat (word_of_int radix :: u32) \<le> 16"
    unfolding r using assms(1) by auto
  have long: "\<And>i ds w. digits_loop i (word_of_int radix) False 64 = (ds, w) \<Longrightarrow> 64 \<le> length ds"
  proof -
    fix i ds w
    assume e: "digits_loop i (word_of_int radix) False 64 = (ds, w)"
    have "64 \<le> int (length (fst (digits_loop i (word_of_int radix) False 64)))"
      using digits_loop_facts [OF rb, of i False 64] by blast
    then show "64 \<le> length ds" unfolding e by simp
  qed
  have "length (prefix_chars radix) = 2" using assms(1) by (auto simp: prefix_chars_def)
  then have "length (fst (number_buffer val radix flags width)) > BUFSIZE + 1"
    using assms(3,4) unfolding number_buffer_def Let_def w
    by (auto simp: BUFSIZE_def split: prod.splits dest!: long)
  then show ?thesis using assms(1) by (auto simp: append_number_def split: prod.splits)
qed

theorem append_number_overrun_witness:
  "append_number (\<lambda>a. 0) 0x100 255 16 SHOW_PREFIX 64 = Inl OutOfBounds"
  by (rule append_number_overrun) (simp_all add: has_flag_def SHOW_PREFIX_def LEFT_ALIGN_def)

text \<open>The part of a format without conversions is copied.\<close>

lemma vsprintf_loop_plain:
  "cstr_at m fmt cs \<Longrightarrow> 37 \<notin> set cs \<Longrightarrow>
     (\<And>i j. i < length cs \<Longrightarrow> j \<le> length cs \<Longrightarrow> str + of_nat i \<noteq> fmt + of_nat j) \<Longrightarrow>
     vsprintf_loop m fmt str va = Some (Inr (store_bytes m str cs))"
proof (induction cs arbitrary: m fmt str)
  case Nil
  then show ?case by (subst vsprintf_loop.simps) simp
next
  case (Cons c cs)
  let ?m = "m(str := c)"
  have apart: "str + 1 + of_nat i \<noteq> fmt + 1 + of_nat j" if "i < length cs" "j \<le> length cs" for i j
    using Cons.prems(3) [of "Suc i" "Suc j"] that by (simp add: add.assoc)
  have "cstr_at ?m (fmt + 1) cs"
  proof (rule cstr_at_cong)
    show "cstr_at m (fmt + 1) cs" using Cons.prems(1) by simp
    fix i assume "i \<le> length cs"
    then have "str \<noteq> fmt + 1 + of_nat i" using Cons.prems(3) [of 0 "Suc i"] by (simp add: add.assoc)
    then show "?m (fmt + 1 + of_nat i) = m (fmt + 1 + of_nat i)" by auto
  qed
  then have "vsprintf_loop ?m (fmt + 1) (str + 1) va = Some (Inr (store_bytes ?m (str + 1) cs))"
    using Cons.prems(2) apart by (intro Cons.IH) (simp_all del: fun_upd_apply)
  moreover have "m fmt = c" "c \<noteq> 0" "c \<noteq> 37" using Cons.prems(1,2) by auto
  ultimately show ?case unfolding store_bytes.simps
    by (subst vsprintf_loop.simps) (simp only: simp_thms if_True if_False)
qed

text \<open>
  A format without a percent sign, when the output does not overlap it, is copied:
  the buffer holds the same string, and the number returned is its length plus one,
  for the NUL byte.
\<close>

lemma vsprintf_plain:
  assumes "cstr_at m fmt cs" "37 \<notin> set cs" "length cs < 2147483647"
    and "\<And>i j. i < length cs \<Longrightarrow> j \<le> length cs \<Longrightarrow> buf + of_nat i \<noteq> fmt + of_nat j"
  shows "\<exists>m'. vsprintf m fmt buf va = Some (Inr (m', int (length cs) + 1)) \<and> cstr_at m' buf cs
    \<and> (\<forall>x. x \<notin> bytes buf (length cs + 1) \<longrightarrow> m' x = m x)"
proof -
  let ?m = "fst (store_bytes m buf cs)" and ?stop = "buf + of_nat (length cs)"
  have "store_bytes m buf cs = (?m, ?stop)" using store_bytes_end [of m buf cs] by (simp add: prod_eq_iff)
  then have loop: "vsprintf_loop m fmt buf va = Some (Inr (?m, ?stop))"
    using vsprintf_loop_plain [OF assms(1,2,4)] by simp
  have e: "?stop + 1 - buf = of_nat (length cs + 1)" by simp
  have n: "unat (?stop + 1 - buf) = length cs + 1" unfolding e using assms(3) by (intro unat_of_nat32) simp
  have ret: "sint (?stop + 1 - buf) = int (length cs) + 1"
    using sint_small [of "?stop + 1 - buf"] assms(3) unfolding n by simp
  have short: "length cs \<le> 4294967295" using assms(3) by simp
  have str: "cstr_at (?m(?stop := 0)) (buf + of_nat k) (drop k cs)" if "k \<le> length cs" for k
    using that
  proof (induction "length cs - k" arbitrary: k)
    case 0
    then show ?case by simp
  next
    case (Suc d)
    then have k: "k < length cs" by simp
    then have u: "unat (of_nat k :: u32) = k" using assms(3) by (intro unat_of_nat32) simp
    have "unat (of_nat (length cs) :: u32) = length cs" using assms(3) by (intro unat_of_nat32) simp
    then have "buf + of_nat k \<noteq> ?stop" using k u by (metis add_left_imp_eq less_irrefl)
    then have c: "(?m(?stop := 0)) (buf + of_nat k) = cs ! k"
      using k u by (simp add: store_bytes_apply [OF short])
    have "cs ! k \<noteq> 0" using cstr_at_nonzero [OF assms(1)] k nth_mem by metis
    moreover have "drop k cs = cs ! k # drop (Suc k) cs" using k by (simp add: Cons_nth_drop_Suc)
    moreover have "cstr_at (?m(?stop := 0)) (buf + of_nat (Suc k)) (drop (Suc k) cs)"
      using Suc k by (intro Suc.hyps(1)) simp_all
    moreover have "buf + of_nat (Suc k) = buf + of_nat k + (1 :: u32)" by simp
    ultimately show ?case using c by (simp only: cstr_at.simps) simp
  qed
  have out: "(?m(?stop := 0)) x = m x" if x: "x \<notin> bytes buf (length cs + 1)" for x
  proof -
    have "x \<noteq> ?stop"
    proof
      assume "x = ?stop"
      then have "unat (x - buf) = length cs" using assms(3) by (simp add: unat_of_nat32)
      then show False using x by simp
    qed
    moreover have "x \<notin> bytes buf (length cs)" using x by auto
    ultimately show ?thesis using store_bytes_outside [OF short, of x buf m] by simp
  qed
  show ?thesis
    by (rule exI [of _ "?m(?stop := 0)"])
       (use loop ret str [of 0] out in \<open>simp add: vsprintf_def del: fun_upd_apply\<close>)
qed

end
