(* ===== verification/Format.thy ===== *)
theory Format
  imports Printf
begin

text \<open>
  What \<open>vsprintf\<close> computes, as a function from a format and its arguments to a list of
  characters, and the proof that \<open>vsprintf\<close> stores exactly that list whenever its
  output does not overlap what it reads.  The rest of the kernel prints through
  this function (theory \<open>Printk\<close>).
\<close>

section \<open>The text of a format\<close>

datatype printf_arg = Num u32 | Str "u8 list"

fun format_flags :: "u8 list \<Rightarrow> u32 \<Rightarrow> u8 list \<times> u32" where
  "format_flags [] flags = ([], flags)"
| "format_flags (c # cs) flags =
     (if c = 45 then format_flags cs (flags OR LEFT_ALIGN)
      else if c = 48 then format_flags cs (flags OR ZERO_PADDED)
      else if c = 35 then format_flags cs (flags OR SHOW_PREFIX)
      else (c # cs, flags))"

fun format_width :: "u8 list \<Rightarrow> s32 \<Rightarrow> u8 list \<times> s32" where
  "format_width [] w = ([], w)"
| "format_width (c # cs) w =
     (if is_digit c then format_width cs (wrap_int (wrap_int (w * 10) + (sint c - 48)))
      else (c # cs, w))"

definition number_chars :: "u32 \<Rightarrow> s32 \<Rightarrow> u32 \<Rightarrow> s32 \<Rightarrow> u8 list option" where
  "number_chars v radix flags width =
     (let (buf, w) = number_buffer v radix flags width;
          padding = (if has_flag flags ZERO_PADDED then 48 else 32)
      in if length buf > BUFSIZE + 1 then None else Some (rev buf @ replicate (nat w) padding))"

definition string_chars :: "u8 list \<Rightarrow> u32 \<Rightarrow> s32 \<Rightarrow> u8 list" where
  "string_chars cs flags width =
     (let pad = spaces (width - int (length cs))
      in if has_flag flags LEFT_ALIGN then cs @ pad else pad @ cs)"

definition directive_chars ::
    "u8 \<Rightarrow> printf_arg list \<Rightarrow> u32 \<Rightarrow> s32 \<Rightarrow> (u8 list \<times> printf_arg list) option" where
  "directive_chars c args flags width =
     (let number = (\<lambda>radix flags width.
            (case args of Num v # rest \<Rightarrow> map_option (\<lambda>out. (out, rest)) (number_chars v radix flags width)
             | _ \<Rightarrow> None))
      in if c = 100 then number 10 (flags OR SIGNED) width
         else if c = 117 then number 10 flags width
         else if c = 112 then number 16 (flags OR (ZERO_PADDED OR SHOW_PREFIX)) (if width = 0 then 8 else width)
         else if c = 120 then number 16 flags width
         else if c = 111 then number 8 flags width
         else if c = 98 then number 2 flags width
         else if c = 99 then (case args of Num v # rest \<Rightarrow> Some ([ucast v], rest) | _ \<Rightarrow> None)
         else if c = 115 then (case args of Str cs # rest \<Rightarrow> Some (string_chars cs flags width, rest) | _ \<Rightarrow> None)
         else Some ([c], args))"

text \<open>No text is \<open>None\<close>: an argument missing or of the wrong kind, the buffer of
  \<open>append_number\<close> overrun, or a format that ends inside a conversion.\<close>

lemma format_flags_length: "length (fst (format_flags cs flags)) \<le> length cs"
  by (induction cs flags rule: format_flags.induct) auto

lemma format_width_length: "length (fst (format_width cs w)) \<le> length cs"
  by (induction cs w rule: format_width.induct) auto

function format_chars :: "u8 list \<Rightarrow> printf_arg list \<Rightarrow> u8 list option" where
  "format_chars [] args = Some []"
| "format_chars (c # cs) args =
     (if c \<noteq> 37 then map_option (Cons c) (format_chars cs args)
      else let flags = snd (format_flags cs 0);
               width = snd (format_width (fst (format_flags cs 0)) 0)
           in case fst (format_width (fst (format_flags cs 0)) 0) of [] \<Rightarrow> None
              | d # rest \<Rightarrow> Option.bind (directive_chars d args flags width) (\<lambda>(out, args').
                  map_option (append out) (format_chars rest args')))"
  by pat_completeness auto
termination
proof (relation "measure (\<lambda>(cs, args). length cs)", goal_cases)
  case (3 c cs args flags width d rest)
  have "length (fst (format_width (fst (format_flags cs 0)) 0)) \<le> length cs"
    using format_width_length format_flags_length le_trans by metis
  then show ?case using 3 by simp
qed simp_all

section \<open>Numbers as text\<close>

lemma digit_char_nonzero:
  assumes "unat d < 16"
  shows "digit_char d \<noteq> 0"
proof -
  have u: "unat (ucast d :: u8) = unat d" using assms by (simp add: unsigned_ucast_eq take_bit_nat_eq_self)
  have "unat (48 + ucast d :: u8) = 48 + unat d" "unat (87 + ucast d :: u8) = 87 + unat d"
    using assms by (simp_all add: unat_word_ariths u)
  then have "48 + ucast d \<noteq> (0 :: u8)" "87 + ucast d \<noteq> (0 :: u8)" by auto
  then show ?thesis by (simp add: digit_char_def)
qed

lemma digits_nonzero:
  assumes "2 \<le> unat radix" "unat radix \<le> 16"
  shows "0 \<notin> set (fst (digits_loop i radix left width))"
  using assms
proof (induction i radix left width rule: digits_loop.induct)
  case (1 i radix left width)
  have r2: "\<not> radix < 2" using 1(2) by (simp add: word_less_nat_alt)
  have "unat (i mod radix) < 16"
    using 1(2,3) by (simp add: unat_mod) (meson less_le_trans mod_less_divisor zero_less_numeral order_less_le_trans)
  then have d: "digit_char (i mod radix) \<noteq> 0" by (rule digit_char_nonzero)
  show ?case
  proof (cases "i div radix \<noteq> 0 \<or> (\<not> left \<and> width - 1 > 0)")
    case False
    then show ?thesis using r2 d by (subst digits_loop.simps) (auto simp: Let_def)
  next
    case True
    from 1(1) [OF r2 refl refl refl True 1(2,3)] show ?thesis
      using True r2 d by (subst digits_loop.simps) (auto simp: Let_def split: prod.splits)
  qed
qed

lemma decimal_chars:
  assumes "unat v < 2147483648"
  shows "\<exists>ds. number_chars v 10 SIGNED 0 = Some ds \<and> number_value 10 ds = unat v \<and> 0 \<notin> set ds"
proof -
  define d where "d = digits_loop v 10 False 0"
  have rb: "2 \<le> unat (10 :: u32)" "unat (10 :: u32) \<le> 16" by simp_all
  note f = digits_loop_facts [OF rb, of v False 0, folded d_def]
  have len: "length (fst d) \<le> 32" using digits_loop_length [OF rb, of v False 0, folded d_def] by simp
  have "0 \<le> sint v" using sint_small [OF assms] by simp
  then have buf: "number_buffer v 10 SIGNED 0 = (fst d, 0)"
    using f by (auto simp: number_buffer_def BUFSIZE_def has_flag_def SIGNED_def SHOW_PREFIX_def LEFT_ALIGN_def
        Let_def d_def [symmetric] split: prod.splits)
  have "number_chars v 10 SIGNED 0 = Some (rev (fst d))" using len by (simp add: number_chars_def buf BUFSIZE_def)
  moreover have "number_value 10 (rev (fst d)) = unat v" unfolding number_value_rev using f by simp
  moreover have "0 \<notin> set (rev (fst d))" using digits_nonzero [OF rb, of v False 0] by (simp add: d_def)
  ultimately show ?thesis by blast
qed

section \<open>Reading the format and the arguments\<close>

fun args_at :: "memory \<Rightarrow> u32 \<Rightarrow> printf_arg list \<Rightarrow> bool" where
  "args_at m va [] \<longleftrightarrow> True"
| "args_at m va (Num v # args) \<longleftrightarrow> load32 m va = v \<and> args_at m (va + 4) args"
| "args_at m va (Str cs # args) \<longleftrightarrow> cstr_at m (load32 m va) cs \<and> args_at m (va + 4) args"

text \<open>\<open>m'\<close> is \<open>m\<close> but for the bytes of \<open>O\<close>.\<close>

definition agree :: "u32 set \<Rightarrow> memory \<Rightarrow> memory \<Rightarrow> bool" where
  "agree R m m' \<longleftrightarrow> (\<forall>x. x \<notin> R \<longrightarrow> m' x = m x)"

text \<open>The bytes an argument list occupies, the strings it points to included.\<close>

fun args_bytes :: "memory \<Rightarrow> u32 \<Rightarrow> printf_arg list \<Rightarrow> u32 set" where
  "args_bytes m va [] = {}"
| "args_bytes m va (Num v # args) = bytes va 4 \<union> args_bytes m (va + 4) args"
| "args_bytes m va (Str cs # args) =
     bytes va 4 \<union> bytes (load32 m va) (length cs + 1) \<union> args_bytes m (va + 4) args"

text \<open>The arguments are there whatever is written to \<open>R\<close>.\<close>

fun args_given :: "u32 set \<Rightarrow> memory \<Rightarrow> u32 \<Rightarrow> printf_arg list \<Rightarrow> bool" where
  "args_given R m va [] \<longleftrightarrow> True"
| "args_given R m va (Num v # args) \<longleftrightarrow>
     (\<forall>m'. agree R m m' \<longrightarrow> load32 m' va = v) \<and> args_given R m (va + 4) args"
| "args_given R m va (Str cs # args) \<longleftrightarrow>
     (\<forall>m'. agree R m m' \<longrightarrow> load32 m' va = load32 m va \<and> cstr_at m' (load32 m va) cs)
     \<and> args_given R m (va + 4) args"

lemma agree_load32: "agree R m m' \<Longrightarrow> bytes a 4 \<inter> R = {} \<Longrightarrow> load32 m' a = load32 m a"
  unfolding agree_def by (rule load32_cong) blast

lemma agree_cstr_at:
  assumes "agree R m m'" "cstr_at m p cs" "bytes p (length cs + 1) \<inter> R = {}"
  shows "cstr_at m' p cs"
proof (rule cstr_at_cong [OF assms(2)])
  fix i assume i: "i \<le> length cs"
  have "unat (of_nat i :: u32) \<le> i" by (simp add: unat_of_nat take_bit_eq_mod)
  then have "p + of_nat i \<in> bytes p (length cs + 1)" using i by simp
  then show "m' (p + of_nat i) = m (p + of_nat i)" using assms(1,3) by (auto simp: agree_def simp del: in_bytes)
qed

lemma args_givenI: "args_at m va args \<Longrightarrow> args_bytes m va args \<inter> R = {} \<Longrightarrow> args_given R m va args"
  by (induction m va args rule: args_at.induct)
     (auto simp: Int_Un_distrib2 agree_load32 agree_cstr_at simp del: in_bytes)

lemma agree_refl [simp]: "agree R m m"
  by (simp add: agree_def)

lemma agree_store:
  "agree R m m' \<Longrightarrow> length cs \<le> 4294967295 \<Longrightarrow> bytes p (length cs) \<subseteq> R \<Longrightarrow> agree R m (fst (store_bytes m' p cs))"
  unfolding agree_def using store_bytes_outside by (metis subsetD)

lemma store_bytes_append:
  "store_bytes m p (cs @ ds) = store_bytes (fst (store_bytes m p cs)) (p + of_nat (length cs)) ds"
  by (induction m p cs rule: store_bytes.induct) (simp_all add: add.assoc del: fun_upd_apply)

lemma store_bytes_pair: "store_bytes m p cs = (fst (store_bytes m p cs), p + of_nat (length cs))"
  using store_bytes_end [of m p cs] by (simp add: prod_eq_iff)

lemma bytes_append_subset:
  assumes "n + k \<le> 4294967295"
  shows "bytes p n \<subseteq> bytes p (n + k)" "bytes (p + of_nat n) k \<subseteq> bytes p (n + k)"
proof -
  show "bytes p n \<subseteq> bytes p (n + k)" by (rule bytes_mono) simp
  show "bytes (p + of_nat n) k \<subseteq> bytes p (n + k)"
  proof
    fix x assume "x \<in> bytes (p + of_nat n) k"
    then have lt: "unat (x - p - of_nat n) < k" by (simp add: diff_diff_eq)
    have "unat (of_nat n :: u32) = n" using assms by (intro unat_of_nat32) simp
    then have "unat (x - p - of_nat n + of_nat n) = unat (x - p - of_nat n) + n"
      using lt assms by (subst unat_add32) simp_all
    then show "x \<in> bytes p (n + k)" using lt by simp
  qed
qed

lemma cstr_at_drop: "cstr_at m p cs \<Longrightarrow> k \<le> length cs \<Longrightarrow> cstr_at m (p + of_nat k) (drop k cs)"
proof (induction cs arbitrary: p k)
  case (Cons c cs)
  show ?case
  proof (cases k)
    case 0
    then show ?thesis using Cons.prems by simp
  next
    case (Suc j)
    then have "cstr_at m (p + 1 + of_nat j) (drop j cs)" using Cons by simp
    then show ?thesis using Suc by (simp add: add.assoc)
  qed
qed simp

lemma parse_flags_format:
  "cstr_at m (fmt + 1) cs \<Longrightarrow> \<exists>k \<le> length cs. parse_flags m fmt flags = Some (fmt + 1 + of_nat k, snd (format_flags cs flags))
     \<and> fst (format_flags cs flags) = drop k cs"
proof (induction cs flags arbitrary: fmt rule: format_flags.induct)
  case (1 flags)
  then show ?case by (simp add: parse_flags.simps)
next
  case (2 c cs flags)
  have at: "m (fmt + 1) = c" and rest: "cstr_at m (fmt + 1 + 1) cs" using "2.prems" by simp_all
  have step: "\<exists>k \<le> length (c # cs). parse_flags m (fmt + 1) fl = Some (fmt + 1 + of_nat k, snd (format_flags cs fl))
       \<and> fst (format_flags cs fl) = drop k (c # cs)"
    if "\<exists>k \<le> length cs. parse_flags m (fmt + 1) fl = Some (fmt + 1 + 1 + of_nat k, snd (format_flags cs fl))
       \<and> fst (format_flags cs fl) = drop k cs" for fl
    using that by (elim exE conjE) (rule_tac x = "Suc k" in exI, simp add: add.assoc)
  show ?case
  proof (cases "c \<in> {45, 48, 35}")
    case False
    then show ?thesis using at by (intro exI [of _ 0]) (simp add: parse_flags.simps)
  next
    case True
    then consider "c = 45" | "c = 48" | "c = 35" by blast
    then show ?thesis
    proof cases
      case 1
      then show ?thesis using step [OF "2.IH"(1) [OF _ rest]] at by (subst parse_flags.simps) simp
    next
      case c: 2
      then show ?thesis using step [OF "2.IH"(2) [OF _ _ rest]] at by (subst parse_flags.simps) simp
    next
      case 3
      then show ?thesis using step [OF "2.IH"(3) [OF _ _ _ rest]] at by (subst parse_flags.simps) simp
    qed
  qed
qed

lemma skip_atoi_format:
  "cstr_at m p cs \<Longrightarrow> \<exists>k \<le> length cs. skip_atoi_loop m p w = Some (p + of_nat k, snd (format_width cs w))
     \<and> fst (format_width cs w) = drop k cs"
proof (induction cs w arbitrary: p rule: format_width.induct)
  case (1 w)
  then show ?case by (simp add: skip_atoi_loop.simps is_digit_def)
next
  case (2 c cs w)
  have at: "m p = c" and rest: "cstr_at m (p + 1) cs" using "2.prems" by simp_all
  show ?case
  proof (cases "is_digit c")
    case True
    then obtain k where k: "k \<le> length cs"
      "skip_atoi_loop m (p + 1) (wrap_int (wrap_int (w * 10) + (sint c - 48)))
         = Some (p + 1 + of_nat k, snd (format_width cs (wrap_int (wrap_int (w * 10) + (sint c - 48)))))"
      "fst (format_width cs (wrap_int (wrap_int (w * 10) + (sint c - 48)))) = drop k cs"
      using "2.IH" [OF True rest] by blast
    then show ?thesis using True at
      by (intro exI [of _ "Suc k"]) (subst skip_atoi_loop.simps, simp add: add.assoc)
  next
    case False
    then show ?thesis using at by (intro exI [of _ 0]) (simp add: skip_atoi_loop.simps)
  qed
qed

lemma width_format:
  assumes "cstr_at m p cs"
  shows "\<exists>k \<le> length cs. (if is_digit (m p) then skip_atoi m p else Some (p, 0)) = Some (p + of_nat k, snd (format_width cs 0))
     \<and> fst (format_width cs 0) = drop k cs"
proof (cases "is_digit (m p)")
  case True
  then show ?thesis using skip_atoi_format [OF assms, of 0] by (simp add: skip_atoi_def)
next
  case False
  then have "format_width cs 0 = (cs, 0)" using assms by (cases cs) auto
  then show ?thesis using False by (intro exI [of _ 0]) simp
qed

section \<open>One conversion\<close>

lemma number_chars_append:
  assumes "number_chars v radix flags width = Some out" "2 \<le> radix" "radix \<le> 16"
  shows "append_number m str v radix flags width = Inr (store_bytes m str out)"
  using assms by (auto simp: number_chars_def append_number_def split: prod.splits if_splits)

lemma number_directive_chars:
  assumes "number_chars v radix flags width = Some out" "2 \<le> radix" "radix \<le> 16" "load32 m va = v"
  shows "number_directive m str va radix flags width
       = Inr (fst (store_bytes m str out), str + of_nat (length out), va + 4)"
  unfolding number_directive_def assms(4) number_chars_append [OF assms(1-3)] bind_res_Inr
  by (subst store_bytes_pair) simp

lemma memcpy_string:
  "(\<And>m'. agree R m0 m' \<Longrightarrow> cstr_at m' p cs) \<Longrightarrow> agree R m0 m \<Longrightarrow> length cs \<le> 4294967295 \<Longrightarrow>
     bytes d (length cs) \<subseteq> R \<Longrightarrow> memcpy_loop m d p (length cs) = fst (store_bytes m d cs)"
proof (induction cs arbitrary: m d p)
  case (Cons c cs)
  have at: "m p = c" using Cons.prems(1) [OF Cons.prems(2)] by simp
  have "bytes d 1 \<subseteq> R" "bytes (d + 1) (length cs) \<subseteq> R"
    using bytes_append_subset [of 1 "length cs" d] Cons.prems(3,4) by simp_all
  then have "d \<in> R" "bytes (d + 1) (length cs) \<subseteq> R" using subsetD [of "bytes d 1" R d] by simp_all
  then have "agree R m0 (m(d := c))" "bytes (d + 1) (length cs) \<subseteq> R"
    using Cons.prems(2) by (auto simp: agree_def)
  moreover have "cstr_at m' (p + 1) cs" if "agree R m0 m'" for m' using Cons.prems(1) [OF that] by simp
  ultimately have "memcpy_loop (m(d := c)) (d + 1) (p + 1) (length cs) = fst (store_bytes (m(d := c)) (d + 1) cs)"
    using Cons.prems(3) by (intro Cons.IH) (simp_all del: fun_upd_apply)
  then show ?case using at by (simp del: fun_upd_apply)
qed simp

lemma string_directive_chars:
  assumes src: "\<And>m'. agree R m0 m' \<Longrightarrow> cstr_at m' (load32 m va) cs" and "agree R m0 m"
    and "out = string_chars cs flags width" "length out \<le> 4294967295" "bytes str (length out) \<subseteq> R"
  shows "string_directive m str va flags width
       = Some (fst (store_bytes m str out), str + of_nat (length out), va + 4)"
proof -
  let ?p = "load32 m va" and ?n = "length cs"
  let ?pad = "spaces (width - int ?n)"
  have len: "strlen m ?p = Some (int ?n)" by (rule strlen_cstr [OF src [OF assms(2)]])
  show ?thesis
  proof (cases "has_flag flags LEFT_ALIGN")
    case True
    then have out: "out = cs @ ?pad" using assms(3) by (simp add: string_chars_def)
    have "bytes str ?n \<subseteq> R"
      using assms(4,5) bytes_append_subset(1) [of ?n "length ?pad" str] out by (metis length_append subset_trans)
    then have copy: "memcpy_loop m str ?p ?n = fst (store_bytes m str cs)"
      using memcpy_string [OF src assms(2)] assms(4) out by simp
    have "fst (store_bytes (fst (store_bytes m str cs)) (str + of_nat ?n) ?pad) = fst (store_bytes m str out)"
      by (simp add: out store_bytes_append)
    moreover have "snd (store_bytes (fst (store_bytes m str cs)) (str + of_nat ?n) ?pad) = str + of_nat (length out)"
      by (simp add: out store_bytes_end add.assoc)
    ultimately show ?thesis using True len copy
      by (simp add: string_directive_def Let_def split_beta)
  next
    case False
    then have out: "out = ?pad @ cs" using assms(3) by (simp add: string_chars_def)
    let ?m1 = "fst (store_bytes m str ?pad)" and ?s1 = "str + of_nat (length ?pad)"
    have b: "bytes str (length ?pad) \<subseteq> R" "bytes ?s1 ?n \<subseteq> R"
      using assms(4,5) bytes_append_subset [of "length ?pad" ?n str] out by (metis length_append subset_trans)+
    have "agree R m0 ?m1" using assms(2,4) b(1) out by (intro agree_store) simp_all
    then have copy: "memcpy_loop ?m1 ?s1 ?p ?n = fst (store_bytes ?m1 ?s1 cs)"
      using memcpy_string [OF src] b(2) assms(4) out by simp
    have none: "spaces (min width (int ?n) - int ?n) = []" by (simp add: spaces_def)
    have "fst (store_bytes m str out) = fst (store_bytes ?m1 ?s1 cs)" by (simp add: out store_bytes_append)
    then show ?thesis using False len copy none
      by (simp add: string_directive_def Let_def split_beta store_bytes_end out add.assoc)
  qed
qed

lemma directive_chars_ok:
  assumes args: "args_given R m0 va args" and m: "agree R m0 m"
    and out: "directive_chars c args flags width = Some (out, args')"
    and room: "length out \<le> 4294967295" "bytes str (length out) \<subseteq> R"
  shows "\<exists>va'. directive m c str va flags width
      = Some (Inr (fst (store_bytes m str out), str + of_nat (length out), va'))
    \<and> args_given R m0 va' args'"
proof -
  have number: "\<exists>va'. Some (number_directive m str va radix fl w)
      = Some (Inr (fst (store_bytes m str out), str + of_nat (length out), va'))
    \<and> args_given R m0 va' args'"
    if num: "(case args of Num v # rest \<Rightarrow> map_option (\<lambda>out. (out, rest)) (number_chars v radix fl w) | _ \<Rightarrow> None)
      = Some (out, args')" and radix: "2 \<le> radix" "radix \<le> 16" for radix fl w
  proof -
    obtain v where v: "args = Num v # args'" "number_chars v radix fl w = Some out"
      using num by (auto split: list.splits printf_arg.splits)
    have "load32 m va = v" "args_given R m0 (va + 4) args'" using args m v(1) by simp_all
    then show ?thesis using number_directive_chars [OF v(2) radix] by blast
  qed
  consider "c \<in> {100, 117, 112, 120, 111, 98}" | "c = 99" | "c = 115" | "c \<notin> {100, 117, 112, 120, 111, 98, 99, 115}" by auto
  then show ?thesis
  proof cases
    case 1
    then show ?thesis using out number
      by (elim insertE) (simp_all add: directive_chars_def directive_def Let_def)
  next
    case 2
    then obtain v where v: "args = Num v # args'" "out = [ucast v]"
      using out by (auto simp: directive_chars_def split: list.splits printf_arg.splits)
    have "load32 m va = v" "args_given R m0 (va + 4) args'" using args m v(1) by simp_all
    then show ?thesis using 2 v(2) by (intro exI [of _ "va + 4"]) (simp add: directive_def)
  next
    case 3
    then obtain cs where v: "args = Str cs # args'" "out = string_chars cs flags width"
      using out by (auto simp: directive_chars_def split: list.splits printf_arg.splits)
    have g: "\<And>m'. agree R m0 m' \<Longrightarrow> load32 m' va = load32 m0 va" "\<And>m'. agree R m0 m' \<Longrightarrow> cstr_at m' (load32 m0 va) cs"
      "args_given R m0 (va + 4) args'"
      using args unfolding v(1) args_given.simps by blast+
    have "cstr_at m' (load32 m va) cs" if "agree R m0 m'" for m' unfolding g(1) [OF m] by (rule g(2) [OF that])
    then have "string_directive m str va flags width
       = Some (fst (store_bytes m str out), str + of_nat (length out), va + 4)"
      by (rule string_directive_chars [OF _ m v(2) room])
    then show ?thesis using 3 g(3) by (intro exI [of _ "va + 4"]) (simp add: directive_def)
  next
    case 4
    then have "out = [c]" "args' = args" using out by (auto simp: directive_chars_def Let_def)
    then show ?thesis using 4 args by (intro exI [of _ va]) (simp add: directive_def)
  qed
qed

section \<open>The whole format\<close>

lemma vsprintf_loop_format:
  "(\<And>m'. agree R m0 m' \<Longrightarrow> cstr_at m' fmt cs) \<Longrightarrow> args_given R m0 va args \<Longrightarrow>
     agree R m0 m \<Longrightarrow> format_chars cs args = Some out \<Longrightarrow> length out \<le> 4294967295 \<Longrightarrow> bytes str (length out) \<subseteq> R \<Longrightarrow>
     vsprintf_loop m fmt str va = Some (Inr (store_bytes m str out))"
proof (induction cs args arbitrary: m fmt str va out rule: format_chars.induct)
  case (1 args)
  then show ?case by (subst vsprintf_loop.simps) simp
next
  case (2 c cs args)
  note fmt = "2.prems"(1) and args = "2.prems"(2) and m = "2.prems"(3) and out = "2.prems"(4)
  have at: "m fmt = c" "c \<noteq> 0" using fmt [OF m] by auto
  have rest: "\<And>m'. agree R m0 m' \<Longrightarrow> cstr_at m' (fmt + 1) cs" using fmt by simp
  show ?case
  proof (cases "c = 37")
    case False
    then obtain out' where o: "format_chars cs args = Some out'" "out = c # out'" using out by auto
    have sub: "bytes str 1 \<subseteq> R" "bytes (str + 1) (length out') \<subseteq> R"
      using bytes_append_subset [of 1 "length out'" str] "2.prems"(5,6) o(2) by simp_all
    have "agree R m0 (fst (store_bytes m str [c]))" using m sub(1) by (intro agree_store) simp_all
    then have "agree R m0 (m(str := c))" by simp
    then have "vsprintf_loop (m(str := c)) (fmt + 1) (str + 1) va = Some (Inr (store_bytes (m(str := c)) (str + 1) out'))"
      using False rest args o "2.prems"(5) sub(2) by (intro "2.IH"(1)) (simp_all del: fun_upd_apply)
    then show ?thesis using at False o(2)
      by (subst vsprintf_loop.simps) (simp del: fun_upd_apply)
  next
    case True
    let ?cs1 = "fst (format_flags cs 0)" and ?fl = "snd (format_flags cs 0)"
    let ?cs2 = "fst (format_width ?cs1 0)" and ?w = "snd (format_width ?cs1 0)"
    obtain d rest o1 args' o2 where o: "?cs2 = d # rest" "directive_chars d args ?fl ?w = Some (o1, args')"
      "format_chars rest args' = Some o2" "out = o1 @ o2"
      using out True by (auto simp: Let_def bind_eq_Some_conv split: list.splits)
    obtain k1 where k1: "k1 \<le> length cs" "parse_flags m fmt 0 = Some (fmt + 1 + of_nat k1, ?fl)" "?cs1 = drop k1 cs"
      using parse_flags_format [OF rest [OF m], of 0] by blast
    let ?p = "fmt + 1 + of_nat k1"
    have at1: "cstr_at m' ?p ?cs1" if "agree R m0 m'" for m'
      unfolding k1(3) by (rule cstr_at_drop [OF rest [OF that] k1(1)])
    obtain k2 where k2: "k2 \<le> length ?cs1"
      "(if is_digit (m ?p) then skip_atoi m ?p else Some (?p, 0)) = Some (?p + of_nat k2, ?w)" "?cs2 = drop k2 ?cs1"
      using width_format [OF at1 [OF m]] by blast
    let ?q = "?p + of_nat k2"
    have at2: "cstr_at m' ?q (d # rest)" if "agree R m0 m'" for m'
      unfolding o(1) [symmetric] k2(3) by (rule cstr_at_drop [OF at1 [OF that] k2(1)])
    have sub: "bytes str (length o1) \<subseteq> R" "bytes (str + of_nat (length o1)) (length o2) \<subseteq> R"
      using bytes_append_subset [of "length o1" "length o2" str] "2.prems"(5,6) o(4) by simp_all
    obtain va' where va': "directive m d str va ?fl ?w
        = Some (Inr (fst (store_bytes m str o1), str + of_nat (length o1), va'))" "args_given R m0 va' args'"
      using directive_chars_ok [OF args m o(2) _ sub(1)] "2.prems"(5) o(4) by auto
    let ?m1 = "fst (store_bytes m str o1)" and ?s1 = "str + of_nat (length o1)"
    have "agree R m0 ?m1" using m sub(1) "2.prems"(5) o(4) by (intro agree_store) simp_all
    then have "vsprintf_loop ?m1 (?q + 1) ?s1 va' = Some (Inr (store_bytes ?m1 ?s1 o2))"
      using True at2 va'(2) o "2.prems"(5) sub(2) by (intro "2.IH"(2)) simp_all
    moreover have "vsprintf_loop m fmt str va = vsprintf_loop ?m1 (?q + 1) ?s1 va'"
      using True at at2 [OF m] k1(2) k2(2) va'(1) by (subst vsprintf_loop.simps) simp
    ultimately show ?thesis unfolding o(4) store_bytes_append by simp
  qed
qed

lemma vsprintf_text:
  assumes "cstr_at m fmt cs" "args_at m va args" "format_chars cs args = Some out" "length out < 2147483647"
    and "(bytes fmt (length cs + 1) \<union> args_bytes m va args) \<inter> bytes buf (length out) = {}"
  shows "\<exists>m'. vsprintf m fmt buf va = Some (Inr (m', int (length out) + 1))
    \<and> read_bytes m' buf (length out) = out \<and> m' (buf + of_nat (length out)) = 0
    \<and> (\<forall>x. x \<notin> bytes buf (length out + 1) \<longrightarrow> m' x = m x)"
proof -
  let ?R = "bytes buf (length out)" and ?m = "fst (store_bytes m buf out)" and ?stop = "buf + of_nat (length out)"
  have short: "length out \<le> 4294967295" using assms(4) by simp
  have "cstr_at m' fmt cs" if "agree ?R m m'" for m'
    by (rule agree_cstr_at [OF that assms(1)]) (use assms(5) in blast)
  moreover have "args_given ?R m va args" by (rule args_givenI [OF assms(2)]) (use assms(5) in blast)
  ultimately have "vsprintf_loop m fmt buf va = Some (Inr (?m, ?stop))"
    using vsprintf_loop_format [OF _ _ agree_refl assms(3) short order_refl] store_bytes_pair by metis
  moreover have e: "?stop + 1 - buf = of_nat (length out + 1)" by simp
  have n: "unat (?stop + 1 - buf) = length out + 1" unfolding e using assms(4) by (intro unat_of_nat32) simp
  have "sint (?stop + 1 - buf) = int (length out) + 1"
    using sint_small [of "?stop + 1 - buf"] assms(4) unfolding n by simp
  ultimately have run: "vsprintf m fmt buf va = Some (Inr (?m(?stop := 0), int (length out) + 1))"
    by (simp add: vsprintf_def)
  have len: "unat (of_nat (length out) :: u32) = length out" using assms(4) by (intro unat_of_nat32) simp
  have "read_bytes (?m(?stop := 0)) buf (length out) = read_bytes ?m buf (length out)"
  proof -
    have "buf + of_nat i \<noteq> ?stop" if "i < length out" for i
    proof
      assume "buf + of_nat i = ?stop"
      then have "(of_nat i :: u32) = of_nat (length out)" by simp
      then show False using that assms(4) of_nat32_eq_iff [of i "length out"] by simp
    qed
    then show ?thesis by (simp add: read_bytes_def)
  qed
  then have read: "read_bytes (?m(?stop := 0)) buf (length out) = out" using read_store_bytes [OF short] by simp
  have "(?m(?stop := 0)) x = m x" if x: "x \<notin> bytes buf (length out + 1)" for x
  proof -
    have "x \<noteq> ?stop" using x len by auto
    moreover have "x \<notin> bytes buf (length out)" using x by auto
    ultimately show ?thesis using store_bytes_outside [OF short, of x buf m] by simp
  qed
  then show ?thesis using run read by (intro exI [of _ "?m(?stop := 0)"]) (simp add: fun_upd_same del: fun_upd_apply)
qed

text \<open>
  C37.  \<open>vsprintf\<close> computes \<open>format_chars\<close>: if the format and the arguments have a text, and
  the output does not overlap the format, the arguments or the strings they point to,
  then the buffer holds this text, closed by a NUL byte, nothing else is written, and
  the number returned is the length of the text plus one.
\<close>

theorem vsprintf_format:
  assumes "cstr_at m fmt cs" "args_at m va args" "format_chars cs args = Some out" "length out < 2147483647"
    and "(bytes fmt (length cs + 1) \<union> args_bytes m va args) \<inter> bytes buf (length out) = {}"
  shows "\<exists>m'. vsprintf m fmt buf va = Some (Inr (m', int (length out) + 1))
    \<and> read_bytes m' buf (length out) = out \<and> m' (buf + of_nat (length out)) = 0
    \<and> (\<forall>x. x \<notin> bytes buf (length out + 1) \<longrightarrow> m' x = m x)"
  by (rule vsprintf_text [OF assms])

theorem vsprintf_format_witness:
  "\<exists>m'. vsprintf ((\<lambda>a. 0)(0x10 := 37, 0x11 := 100, 0x40 := 42)) 0x10 0x20 0x40 = Some (Inr (m', 3))
     \<and> read_bytes m' 0x20 2 = [52, 50]"
proof -
  let ?m = "(\<lambda>a. 0)(0x10 := 37, 0x11 := 100, 0x40 := 42) :: memory"
  have "cstr_at ?m 0x10 [37, 100]" by simp
  moreover have "args_at ?m 0x40 [Num 42]" by (simp add: load32_def)
  moreover have "digits_loop 42 10 False 0 = ([50, 52], - 2)"
    by (simp add: digits_loop.simps digit_char_def)
  then have "number_chars 42 10 SIGNED 0 = Some [52, 50]"
    by (simp add: number_chars_def number_buffer_def BUFSIZE_def has_flag_def SIGNED_def SHOW_PREFIX_def LEFT_ALIGN_def)
  then have "format_chars [37, 100] [Num 42] = Some [52, 50]"
    by (simp add: directive_chars_def is_digit_def)
  moreover have "(bytes 0x10 (length [37 :: u8, 100] + 1) \<union> args_bytes ?m 0x40 [Num 42]) \<inter> bytes 0x20 (length [52 :: u8, 50]) = {}"
  proof -
    have "bytes (0x10 :: u32) 3 \<inter> bytes 0x20 2 = {}" "bytes (0x40 :: u32) 4 \<inter> bytes 0x20 2 = {}"
      by (rule bytes_disjoint; simp)+
    moreover have "length [37 :: u8, 100] + 1 = 3" "length [52 :: u8, 50] = 2" by simp_all
    ultimately show ?thesis by (simp only: args_bytes.simps Int_Un_distrib2 Un_empty Un_empty_right simp_thms)
  qed
  ultimately show ?thesis
    using vsprintf_format [of ?m "0x10" "[37, 100]" "0x40" "[Num 42]" "[52, 50]" "0x20"]
    by (auto simp: numeral_2_eq_2)
qed

end
