(* ===== verification/Monitor.thy ===== *)
theory Monitor
  imports Printf
begin

text \<open>
  The text screen: \<open>src/src/monitor.c\<close>, and the port output of \<open>src/src/ports.c\<close> that it
  and other devices use.  \<open>outb\<close> is one machine instruction; it appends to the trace
  \<open>port_writes\<close>.  The frame buffer is indexed as the C array is, by a signed integer, so
  a write next to the screen is in the model.  The records are extensible, so the
  operations work on every state that contains a screen.
\<close>

section \<open>Port output\<close>

record ports =
  port_writes :: "(u16 \<times> u8) list"

definition outb :: "u16 \<Rightarrow> u8 \<Rightarrow> 'a ports_scheme \<Rightarrow> 'a ports_scheme" where
  "outb port value s = s\<lparr>port_writes := port_writes s @ [(port, value)]\<rparr>"

section \<open>The screen\<close>

record monitor = ports +
  video_buffer :: "int \<Rightarrow> u16"
  cur_x :: u16
  cur_y :: u16

definition FB_WORD :: "u8 \<Rightarrow> u8 \<Rightarrow> u16" where
  "FB_WORD ch attr = push_bit 8 (ucast attr) OR scast ch"

definition FB_ATTR :: "u8 \<Rightarrow> u8 \<Rightarrow> u8" where
  "FB_ATTR fg bg = push_bit 4 bg OR fg"

definition COL_WHITE :: u8 where "COL_WHITE = 15"
definition COL_LTGREY :: u8 where "COL_LTGREY = 7"
definition COL_RED :: u8 where "COL_RED = 4"
definition COL_GREEN :: u8 where "COL_GREEN = 2"
definition COL_BLACK :: u8 where "COL_BLACK = 0"

definition BLANK :: u16 where
  "BLANK = FB_WORD 32 (FB_ATTR COL_LTGREY COL_BLACK)"

definition move_cursor :: "'a monitor_scheme \<Rightarrow> 'a monitor_scheme" where
  "move_cursor s =
     (let position = 80 * cur_y s + cur_x s
      in outb 0x3D5 (ucast (position AND 0xFF)) (outb 0x3D4 15
        (outb 0x3D5 (ucast (drop_bit 8 position)) (outb 0x3D4 14 s))))"

text \<open>The two loops of \<open>scroll\<close> over the index \<open>i\<close>.\<close>

definition copy_up :: "(int \<Rightarrow> u16) \<Rightarrow> (int \<Rightarrow> u16)" where
  "copy_up v = fold (\<lambda>i v. v(i := v (i + 80))) (map int [0..<80 * 24]) v"

definition blank_range :: "nat \<Rightarrow> nat \<Rightarrow> (int \<Rightarrow> u16) \<Rightarrow> (int \<Rightarrow> u16)" where
  "blank_range a b v = fold (\<lambda>i v. v(i := BLANK)) (map int [a..<b]) v"

definition scroll :: "'a monitor_scheme \<Rightarrow> 'a monitor_scheme" where
  "scroll s =
     (if cur_y s = 25
      then s\<lparr>video_buffer := blank_range (80 * 24) (80 * 25) (copy_up (video_buffer s)), cur_y := 24\<rparr>
      else s)"

text \<open>The branches of \<open>__monitor_put\<close> on the character, then the wrap at the end of the line.\<close>

definition place_char :: "u8 \<Rightarrow> u8 \<Rightarrow> 'a monitor_scheme \<Rightarrow> 'a monitor_scheme" where
  "place_char value attributes s =
     (if value = 8 then (if cur_x s \<noteq> 0 then s\<lparr>cur_x := cur_x s - 1\<rparr> else s)
      else if value = 9 then s\<lparr>cur_x := (cur_x s + 8) AND NOT 7\<rparr>
      else if value = 13 then s\<lparr>cur_x := 0\<rparr>
      else if value = 10 then s\<lparr>cur_y := cur_y s + 1, cur_x := 0\<rparr>
      else s\<lparr>video_buffer := (video_buffer s)
                (int (unat (cur_y s)) * 80 + int (unat (cur_x s)) := FB_WORD value attributes),
             cur_x := cur_x s + 1\<rparr>)"

definition wrap_line :: "'a monitor_scheme \<Rightarrow> 'a monitor_scheme" where
  "wrap_line s = (if cur_x s \<ge> 80 then s\<lparr>cur_x := 0, cur_y := cur_y s + 1\<rparr> else s)"

definition monitor_put_attr :: "u8 \<Rightarrow> u8 \<Rightarrow> 'a monitor_scheme \<Rightarrow> 'a monitor_scheme" where
  "monitor_put_attr value attributes s =
     move_cursor (scroll (wrap_line (place_char value attributes s)))"

definition monitor_put :: "u8 \<Rightarrow> 'a monitor_scheme \<Rightarrow> 'a monitor_scheme" where
  "monitor_put value s = monitor_put_attr value (FB_ATTR COL_LTGREY COL_BLACK) s"

definition monitor_clear :: "'a monitor_scheme \<Rightarrow> 'a monitor_scheme" where
  "monitor_clear s =
     move_cursor (s\<lparr>video_buffer := blank_range 0 (80 * 25) (video_buffer s)\<rparr>)"

text \<open>The loops over a string in memory; the screen is not part of that memory.\<close>

partial_function (option) put_string ::
    "memory \<Rightarrow> u32 \<Rightarrow> u8 \<Rightarrow> 'a monitor_scheme \<Rightarrow> 'a monitor_scheme option" where
  "put_string m str attr s =
     (if m str \<noteq> 0 then put_string m (str + 1) attr (monitor_put_attr (m str) attr s) else Some s)"

definition monitor_write :: "memory \<Rightarrow> u32 \<Rightarrow> 'a monitor_scheme \<Rightarrow> 'a monitor_scheme option" where
  "monitor_write m str s = put_string m str (FB_ATTR COL_LTGREY COL_BLACK) s"

definition hex_letter :: "u8 \<Rightarrow> u8" where
  "hex_letter nibble = (if nibble < 10 then 48 + nibble else 87 + nibble)"

definition monitor_write_hex :: "u32 \<Rightarrow> 'a monitor_scheme \<Rightarrow> 'a monitor_scheme" where
  "monitor_write_hex value s =
     fold (\<lambda>i. monitor_put (hex_letter (ucast (drop_bit i (value AND push_bit i 0x0F)))))
       [28, 24, 20, 16, 12, 8, 4, 0] s"

fun write_dec_loop :: "nat \<Rightarrow> u32 \<Rightarrow> bool \<Rightarrow> 'a monitor_scheme \<Rightarrow> 'a monitor_scheme" where
  "write_dec_loop i value had_digit s =
     (if i = 0 then s
      else let digit = (value div of_nat i) mod 10
           in if digit = 0 \<and> \<not> had_digit \<and> i \<noteq> 1 then write_dec_loop (i div 10) value had_digit s
              else write_dec_loop (i div 10) value True (monitor_put (48 + ucast digit) s))"

declare write_dec_loop.simps [simp del]

definition monitor_write_dec :: "u32 \<Rightarrow> 'a monitor_scheme \<Rightarrow> 'a monitor_scheme" where
  "monitor_write_dec value s = write_dec_loop 1000000000 value False s"

definition monitor_write_status ::
    "memory \<Rightarrow> u32 \<Rightarrow> bool \<Rightarrow> 'a monitor_scheme \<Rightarrow> 'a monitor_scheme option" where
  "monitor_write_status m str success s =
     (let attr = (if success then FB_ATTR COL_GREEN COL_BLACK else FB_ATTR COL_RED COL_BLACK)
      in Option.bind (strlen m str) (\<lambda>n.
           let len = n + 2;
               s1 = monitor_put 91 (s\<lparr>cur_x := word_of_int (80 - len)\<rparr>)
           in map_option (monitor_put 93) (put_string m str attr s1)))"


section \<open>The loops\<close>

lemma copy_loop_apply:
  "fold (\<lambda>i v. v(i := v (i + 80))) (map int [0..<n]) v
     = (\<lambda>i. if 0 \<le> i \<and> i < int n then v (i + 80) else v i)"
  by (induction n) (auto simp: fun_eq_iff)

lemma copy_up_apply: "copy_up v = (\<lambda>i. if 0 \<le> i \<and> i < 1920 then v (i + 80) else v i)"
  unfolding copy_up_def copy_loop_apply by simp

lemma blank_range_apply:
  "blank_range a b v = (\<lambda>i. if int a \<le> i \<and> i < int b then BLANK else v i)"
proof (induction b)
  case (Suc b)
  then show ?case by (cases "a \<le> b") (auto simp: blank_range_def fun_eq_iff)
qed (auto simp: blank_range_def fun_eq_iff)

lemma scroll_buffer:
  "video_buffer (scroll s) = (if cur_y s = 25
     then (\<lambda>i. if 0 \<le> i \<and> i < 1920 then video_buffer s (i + 80)
               else if 1920 \<le> i \<and> i < 2000 then BLANK else video_buffer s i)
     else video_buffer s)"
  by (simp add: scroll_def copy_up_apply blank_range_apply fun_eq_iff)

lemma scroll_cursor [simp]:
  "cur_x (scroll s) = cur_x s" "cur_y (scroll s) = (if cur_y s = 25 then 24 else cur_y s)"
  by (simp_all add: scroll_def)

lemma move_cursor_fields [simp]:
  "video_buffer (move_cursor s) = video_buffer s" "cur_x (move_cursor s) = cur_x s"
  "cur_y (move_cursor s) = cur_y s"
  by (simp_all add: move_cursor_def outb_def Let_def)

section \<open>The terminal\<close>

text \<open>
  What the screen promises: 25 lines of 80 cells and a cursor on one of them.  A line
  feed on the last line drops the first one; a tab goes to the next multiple of 8.
\<close>

type_synonym terminal = "u16 list list \<times> nat \<times> nat"

definition screen_lines :: "(int \<Rightarrow> u16) \<Rightarrow> u16 list list" where
  "screen_lines v = map (\<lambda>y. map (\<lambda>x. v (80 * int y + int x)) [0..<80]) [0..<25]"

definition terminal_of :: "'a monitor_scheme \<Rightarrow> terminal" where
  "terminal_of s = (screen_lines (video_buffer s), unat (cur_x s), unat (cur_y s))"

definition on_screen :: "'a monitor_scheme \<Rightarrow> bool" where
  "on_screen s \<longleftrightarrow> unat (cur_x s) < 80 \<and> unat (cur_y s) < 25"

definition new_line :: "u16 list list \<Rightarrow> nat \<Rightarrow> terminal" where
  "new_line ls y = (if y = 24 then (tl ls @ [replicate 80 BLANK], 0, 24) else (ls, 0, y + 1))"

definition advance_to :: "nat \<Rightarrow> u16 list list \<Rightarrow> nat \<Rightarrow> terminal" where
  "advance_to x ls y = (if x \<ge> 80 then new_line ls y else (ls, x, y))"

fun terminal_put :: "u8 \<Rightarrow> u8 \<Rightarrow> terminal \<Rightarrow> terminal" where
  "terminal_put c attr (ls, x, y) =
     (if c = 8 then (ls, x - 1, y)
      else if c = 9 then advance_to ((x div 8 + 1) * 8) ls y
      else if c = 13 then (ls, 0, y)
      else if c = 10 then new_line ls y
      else advance_to (x + 1) (ls[y := (ls ! y)[x := FB_WORD c attr]]) y)"

lemma unat16_inc: "unat (x :: u16) < 65535 \<Longrightarrow> unat (x + 1) = unat x + 1"
  by (simp add: unat_word_ariths)

lemma unat16_dec: "(x :: u16) \<noteq> 0 \<Longrightarrow> unat (x - 1) = unat x - 1"
  by (rule unat_minus_one)

lemma tab_stop:
  assumes "unat (x :: u16) < 80"
  shows "unat ((x + 8) AND NOT 7) = (unat x div 8 + 1) * 8"
proof -
  have u: "unat (x + 8) = unat x + 8" using assms by (simp add: unat_word_ariths)
  have "(x + 8) AND 7 = (x + 8) mod 8"
    using take_bit_eq_mask [of 3 "x + 8"] take_bit_eq_mod [of 3 "x + 8"] by (simp add: mask_eq_exp_minus_1)
  moreover have "((x + 8) AND 7) + ((x + 8) AND NOT 7) = x + 8"
  proof -
    have "((x + 8) AND 7) + ((x + 8) AND NOT 7) = ((x + 8) AND 7) OR ((x + 8) AND NOT 7)"
      by (rule disjunctive_add_eq_or) (auto simp: bit_eq_iff bit_simps)
    also have "\<dots> = x + 8" by (auto simp: bit_eq_iff bit_simps)
    finally show ?thesis .
  qed
  ultimately have "(x + 8) AND NOT 7 = (x + 8) - (x + 8) mod 8" by (simp add: eq_diff_eq add.commute)
  moreover have "(x + 8) mod 8 \<le> x + 8" by (simp add: word_le_nat_alt unat_mod)
  ultimately have "unat ((x + 8) AND NOT 7) = (unat x + 8) - (unat x + 8) mod 8"
    using u by (simp add: unat_sub unat_mod)
  then have "unat ((x + 8) AND NOT 7) = (unat x + 8) div 8 * 8" by (simp only: minus_mod_eq_div_mult)
  moreover have "(unat x + 8) div 8 = unat x div 8 + 1" by simp
  ultimately show ?thesis by (simp only:)
qed

lemma length_screen_lines [simp]: "length (screen_lines v) = 25"
  by (simp add: screen_lines_def del: upt_rec_numeral)

lemma length_screen_line [simp]: "j < 25 \<Longrightarrow> length (screen_lines v ! j) = 80"
  by (simp add: screen_lines_def del: upt_rec_numeral)

lemma screen_cell: "j < 25 \<Longrightarrow> i < 80 \<Longrightarrow> screen_lines v ! j ! i = v (80 * int j + int i)"
  by (simp add: screen_lines_def del: upt_rec_numeral)

lemma screen_lines_eqI:
  assumes "length ls = 25" "\<And>j. j < 25 \<Longrightarrow> length (ls ! j) = 80"
    and "\<And>j i. j < 25 \<Longrightarrow> i < 80 \<Longrightarrow> ls ! j ! i = v (80 * int j + int i)"
  shows "screen_lines v = ls"
  by (rule nth_equalityI) (use assms in \<open>auto simp: screen_cell intro!: nth_equalityI\<close>)

lemma cell_index:
  fixes i j x y :: nat
  assumes "i < 80" "x < 80"
  shows "80 * int j + int i = 80 * int y + int x \<longleftrightarrow> j = y \<and> i = x"
proof
  assume "80 * int j + int i = 80 * int y + int x"
  then have e: "80 * j + i = 80 * y + x" by linarith
  have "(80 * j + i) div 80 = j" "(80 * y + x) div 80 = y" using assms by simp_all
  then show "j = y \<and> i = x" using e by simp
qed simp

lemma screen_lines_update:
  assumes "x < 80" "y < 25"
  shows "screen_lines (v(80 * int y + int x := w)) = (screen_lines v)[y := (screen_lines v ! y)[x := w]]"
proof (rule screen_lines_eqI)
  fix j i :: nat
  assume "j < 25" "i < 80"
  then show "(screen_lines v)[y := (screen_lines v ! y)[x := w]] ! j ! i
      = (v(80 * int y + int x := w)) (80 * int j + int i)"
    using assms by (auto simp: nth_list_update screen_cell cell_index)
qed (use assms in \<open>simp_all add: nth_list_update\<close>)

lemma screen_lines_up:
  "screen_lines (\<lambda>i. if 0 \<le> i \<and> i < 1920 then v (i + 80) else if 1920 \<le> i \<and> i < 2000 then BLANK else v i)
     = tl (screen_lines v) @ [replicate 80 BLANK]"
proof (rule screen_lines_eqI)
  fix j i :: nat
  assume j: "j < 25" and i: "i < 80"
  show "(tl (screen_lines v) @ [replicate 80 BLANK]) ! j ! i =
     (\<lambda>i. if 0 \<le> i \<and> i < 1920 then v (i + 80) else if 1920 \<le> i \<and> i < 2000 then BLANK else v i)
       (80 * int j + int i)"
  proof (cases "j = 24")
    case True
    then show ?thesis using i by (simp add: nth_append)
  next
    case False
    then have "j < 24" using j by simp
    then show ?thesis using i
      by (simp add: nth_append nth_tl screen_cell algebra_simps)
  qed
qed (auto simp: nth_append nth_tl)

lemma scroll_terminal:
  "unat (cur_x s) = 0 \<Longrightarrow> unat (cur_y s) = y + 1 \<Longrightarrow> y < 25 \<Longrightarrow>
     terminal_of (scroll s) = new_line (screen_lines (video_buffer s)) y"
  by (auto simp: terminal_of_def new_line_def scroll_buffer screen_lines_up word_unat_eq_iff)

lemma wrap_terminal:
  assumes "unat (cur_y s) < 25"
  shows "terminal_of (scroll (wrap_line s))
       = advance_to (unat (cur_x s)) (screen_lines (video_buffer s)) (unat (cur_y s))"
proof (cases "cur_x s \<ge> 80")
  case True
  then have "80 \<le> unat (cur_x s)" by (simp add: word_le_nat_alt)
  moreover have "terminal_of (scroll (s\<lparr>cur_x := 0, cur_y := cur_y s + 1\<rparr>))
      = new_line (screen_lines (video_buffer s)) (unat (cur_y s))"
    using assms by (subst scroll_terminal [where y = "unat (cur_y s)"]) (simp_all add: unat16_inc)
  ultimately show ?thesis using True by (simp add: wrap_line_def advance_to_def)
next
  case False
  then have "unat (cur_x s) < 80" by (simp add: word_le_nat_alt)
  moreover have "cur_y s \<noteq> 25" using assms by auto
  ultimately show ?thesis using False
    by (simp add: wrap_line_def advance_to_def terminal_of_def scroll_def)
qed

lemma terminal_of_move_cursor [simp]: "terminal_of (move_cursor s) = terminal_of s"
  by (simp add: terminal_of_def)

section \<open>One character\<close>

lemma place_cell:
  assumes "on_screen s"
  shows "int (unat (cur_y s)) * 80 + int (unat (cur_x s)) = 80 * int (unat (cur_y s)) + int (unat (cur_x s))"
    and "int (unat (cur_y s)) * 80 + int (unat (cur_x s)) < 2000"
  using assms unfolding on_screen_def by linarith+

lemma terminal_put_char:
  assumes "on_screen s"
  shows "terminal_of (monitor_put_attr c attr s) = terminal_put c attr (terminal_of s)"
proof -
  have x: "unat (cur_x s) < 80" and y: "unat (cur_y s) < 25" using assms by (auto simp: on_screen_def)
  have small: "terminal_of (scroll (wrap_line s')) = (screen_lines (video_buffer s'), unat (cur_x s'), unat (cur_y s'))"
    if "unat (cur_x s') < 80" "unat (cur_y s') < 25" for s' :: "'a monitor_scheme"
    using wrap_terminal [OF that(2)] that(1) by (simp add: advance_to_def)
  consider "c = 8" | "c = 9" | "c = 13" | "c = 10" | "c \<notin> {8, 9, 13, 10}" by auto
  then show ?thesis
  proof cases
    case 1
    then show ?thesis using x y
      by (cases "cur_x s = 0") (simp_all add: monitor_put_attr_def place_char_def small unat16_dec terminal_of_def [of s])
  next
    case 2
    then show ?thesis using x y tab_stop [OF x]
      by (simp add: monitor_put_attr_def place_char_def wrap_terminal terminal_of_def [of s])
  next
    case 3
    then show ?thesis using x y
      by (simp add: monitor_put_attr_def place_char_def small terminal_of_def [of s])
  next
    case 4
    then show ?thesis using y
      by (simp add: monitor_put_attr_def place_char_def wrap_line_def terminal_of_def [of s])
         (subst scroll_terminal [where y = "unat (cur_y s)"]; simp add: unat16_inc)
  next
    case 5
    then show ?thesis using x y
      by (simp add: monitor_put_attr_def place_char_def wrap_terminal terminal_of_def [of s] unat16_inc
          place_cell(1) [OF assms] screen_lines_update [OF x y] del: of_nat_unat)
  qed
qed

lemma terminal_on_screen: "on_screen s \<longleftrightarrow> fst (snd (terminal_of s)) < 80 \<and> snd (snd (terminal_of s)) < 25"
  by (simp add: on_screen_def terminal_of_def)

lemma on_screen_put:
  assumes "on_screen s"
  shows "on_screen (monitor_put_attr c attr s)"
proof -
  obtain ls x y where t: "terminal_of s = (ls, x, y)" "x < 80" "y < 25"
    using assms by (auto simp: on_screen_def terminal_of_def)
  then show ?thesis unfolding terminal_on_screen terminal_put_char [OF assms] t
    by (auto simp: advance_to_def new_line_def)
qed

lemma put_frame:
  assumes "on_screen s" "i < 0 \<or> 2000 \<le> i"
  shows "video_buffer (monitor_put_attr c attr s) i = video_buffer s i"
proof -
  have "i \<noteq> int (unat (cur_y s)) * 80 + int (unat (cur_x s))"
    using place_cell(2) [OF assms(1)] assms(2) by linarith
  then have "video_buffer (wrap_line (place_char c attr s)) i = video_buffer s i"
    by (simp add: wrap_line_def place_char_def del: of_nat_unat)
  moreover have "video_buffer (scroll s') i = video_buffer s' i" for s' :: "'a monitor_scheme"
    using assms(2) by (auto simp: scroll_buffer)
  ultimately show ?thesis by (simp add: monitor_put_attr_def)
qed

lemma put_ports:
  "port_writes (monitor_put_attr c attr s) = port_writes s
     @ (let p = 80 * cur_y (monitor_put_attr c attr s) + cur_x (monitor_put_attr c attr s)
        in [(0x3D4, 14), (0x3D5, ucast (drop_bit 8 p)), (0x3D4, 15), (0x3D5, ucast (p AND 0xFF))])"
proof -
  have "port_writes (scroll (wrap_line (place_char c attr s))) = port_writes s"
    by (simp add: scroll_def wrap_line_def place_char_def)
  then show ?thesis
    by (simp add: monitor_put_attr_def move_cursor_def outb_def Let_def)
qed

lemma two_bytes: "256 * unat (ucast (drop_bit 8 p) :: u8) + unat (ucast (p AND 0xFF) :: u8) = unat (p :: u16)"
proof -
  have lt: "unat p < 65536" using unsigned_less [of p] by simp
  have "unat (ucast (drop_bit 8 p) :: u8) = unat p div 256 mod 256"
    by (simp add: unsigned_ucast_eq take_bit_eq_mod drop_bit_eq_div unat_div)
  moreover have "p AND 0xFF = take_bit 8 p" by (simp add: take_bit_eq_mask mask_eq_exp_minus_1)
  then have "unat (ucast (p AND 0xFF) :: u8) = unat p mod 256"
    by (simp add: unsigned_ucast_eq take_bit_eq_mod unat_mod)
  moreover have "unat p div 256 mod 256 = unat p div 256" using lt by (intro mod_less) (simp add: less_mult_imp_div_less)
  ultimately show ?thesis by simp
qed

text \<open>
  C38.  With the cursor on the screen, \<open>__monitor_put\<close> is the terminal's step: a printing
  character is stored at the cursor with its attributes, the cursor moves on, wraps at column
  80 and scrolls the screen up below line 25; tab, carriage return, line feed and
  backspace move the cursor only.  The cursor stays on the screen, no cell outside the
  25 by 80 frame buffer is written, and the four port writes that follow tell the
  controller the new position, high byte first.
\<close>

theorem monitor_put_terminal:
  assumes "on_screen s"
  shows "terminal_of (monitor_put_attr c attr s) = terminal_put c attr (terminal_of s)
    \<and> on_screen (monitor_put_attr c attr s)
    \<and> (\<forall>i. i < 0 \<or> 2000 \<le> i \<longrightarrow> video_buffer (monitor_put_attr c attr s) i = video_buffer s i)
    \<and> (\<exists>hi lo. port_writes (monitor_put_attr c attr s)
         = port_writes s @ [(0x3D4, 14), (0x3D5, hi), (0x3D4, 15), (0x3D5, lo)]
       \<and> 256 * unat hi + unat lo
         = 80 * unat (cur_y (monitor_put_attr c attr s)) + unat (cur_x (monitor_put_attr c attr s)))"
proof -
  let ?s = "monitor_put_attr c attr s"
  let ?p = "80 * cur_y ?s + cur_x ?s"
  have on: "on_screen ?s" by (rule on_screen_put [OF assms])
  have p: "unat ?p = 80 * unat (cur_y ?s) + unat (cur_x ?s)"
    using on by (simp add: on_screen_def unat_word_ariths)
  have "256 * unat (ucast (drop_bit 8 ?p) :: u8) + unat (ucast (?p AND 0xFF) :: u8) = unat ?p"
    by (rule two_bytes)
  then show ?thesis
    using terminal_put_char [OF assms] on put_frame [OF assms] put_ports [of c attr s] p
    by (metis (no_types, lifting))
qed

definition blank_monitor :: monitor where
  "blank_monitor = \<lparr>port_writes = [], video_buffer = (\<lambda>_. BLANK), cur_x = 0, cur_y = 0\<rparr>"

lemma blank_on_screen [simp]: "on_screen blank_monitor"
  by (simp add: on_screen_def blank_monitor_def)

theorem monitor_put_terminal_witness:
  "terminal_of (monitor_put_attr 65 7 blank_monitor)
     = terminal_put 65 7 (terminal_of blank_monitor)"
  using monitor_put_terminal [OF blank_on_screen, of 65 7] by blast

section \<open>Strings\<close>

definition put_chars :: "u8 \<Rightarrow> u8 list \<Rightarrow> 'a monitor_scheme \<Rightarrow> 'a monitor_scheme" where
  "put_chars attr cs s = fold (\<lambda>c. monitor_put_attr c attr) cs s"

lemma put_chars_simps [simp]:
  "put_chars attr [] s = s"
  "put_chars attr (c # cs) s = put_chars attr cs (monitor_put_attr c attr s)"
  by (simp_all add: put_chars_def)

text \<open>What a larger state holds beside the screen is not touched.\<close>

lemma more_put [simp]: "monitor.more (monitor_put_attr c attr s) = monitor.more s"
  by (cases s) (simp add: monitor_put_attr_def move_cursor_def scroll_def wrap_line_def place_char_def outb_def Let_def)

lemma more_put_chars [simp]: "monitor.more (put_chars attr cs s) = monitor.more s"
  by (induction cs arbitrary: s) simp_all

lemma put_chars_append: "put_chars attr (cs @ ds) s = put_chars attr ds (put_chars attr cs s)"
  by (simp add: put_chars_def)

lemma put_chars_facts:
  assumes "on_screen s"
  shows "terminal_of (put_chars attr cs s) = fold (\<lambda>c. terminal_put c attr) cs (terminal_of s)"
    and "on_screen (put_chars attr cs s)"
    and "i < 0 \<or> 2000 \<le> i \<Longrightarrow> video_buffer (put_chars attr cs s) i = video_buffer s i"
  using assms
  by (induction cs arbitrary: s) (simp_all add: terminal_put_char on_screen_put put_frame)

lemma put_string_cstr: "cstr_at m p cs \<Longrightarrow> put_string m p attr s = Some (put_chars attr cs s)"
  by (induction cs arbitrary: p s) (simp_all add: put_string.simps)

text \<open>
  C39.  \<open>monitor_write\<close> of a string is the terminal fed with its characters, in light grey
  on black; a cursor on the screen stays there, and nothing outside the frame buffer
  is written.
\<close>

theorem monitor_write_string:
  assumes "on_screen s" "cstr_at m str cs"
  shows "\<exists>s'. monitor_write m str s = Some s'
    \<and> terminal_of s' = fold (\<lambda>c. terminal_put c 7) cs (terminal_of s) \<and> on_screen s'
    \<and> (\<forall>i. i < 0 \<or> 2000 \<le> i \<longrightarrow> video_buffer s' i = video_buffer s i)"
proof -
  have "FB_ATTR COL_LTGREY COL_BLACK = 7" by (simp add: FB_ATTR_def COL_LTGREY_def COL_BLACK_def)
  then show ?thesis
    unfolding monitor_write_def put_string_cstr [OF assms(2)]
    using put_chars_facts [OF assms(1), where attr = 7 and cs = cs] by simp
qed

theorem monitor_write_string_witness:
  "\<exists>s'. monitor_write ((\<lambda>a. 0)(0x10 := 72, 0x11 := 10)) 0x10 blank_monitor = Some s' \<and> on_screen s'"
proof -
  have "cstr_at ((\<lambda>a. 0)(0x10 := 72, 0x11 := 10)) 0x10 [72, 10]" by simp
  from monitor_write_string [OF blank_on_screen this] show ?thesis by blast
qed

text \<open>A row of printing characters that fits the line.\<close>

definition printing :: "u8 \<Rightarrow> bool" where
  "printing c \<longleftrightarrow> c \<notin> {8, 9, 10, 13}"

definition line_put :: "u16 list \<Rightarrow> nat \<Rightarrow> u16 list \<Rightarrow> u16 list" where
  "line_put l x ws = take x l @ ws @ drop (x + length ws) l"

lemma line_put_step:
  "x < length l \<Longrightarrow> x + Suc (length ws) \<le> length l \<Longrightarrow> line_put (l[x := w]) (Suc x) ws = line_put l x (w # ws)"
  by (simp add: line_put_def take_Suc_conv_app_nth)

lemma fold_terminal_line:
  "list_all printing cs \<Longrightarrow> x + length cs < 80 \<Longrightarrow> y < length ls \<Longrightarrow> length (ls ! y) = 80 \<Longrightarrow>
     fold (\<lambda>c. terminal_put c attr) cs (ls, x, y)
       = (ls[y := line_put (ls ! y) x (map (\<lambda>c. FB_WORD c attr) cs)], x + length cs, y)"
proof (induction cs arbitrary: ls x)
  case Nil
  then show ?case by (simp add: line_put_def)
next
  case (Cons c cs)
  let ?ls = "ls[y := (ls ! y)[x := FB_WORD c attr]]"
  have "terminal_put c attr (ls, x, y) = (?ls, Suc x, y)"
    using Cons.prems by (simp add: printing_def advance_to_def)
  moreover have "fold (\<lambda>c. terminal_put c attr) cs (?ls, Suc x, y)
      = (?ls[y := line_put (?ls ! y) (Suc x) (map (\<lambda>c. FB_WORD c attr) cs)], Suc x + length cs, y)"
    using Cons.prems by (intro Cons.IH) simp_all
  ultimately show ?case using Cons.prems by (simp add: line_put_step)
qed

lemma line_put_append:
  "x + length us + length ws \<le> length l \<Longrightarrow> line_put (line_put l x us) (x + length us) ws = line_put l x (us @ ws)"
  by (simp add: line_put_def add.commute add.left_commute)

lemma list_update_line_put: "x < length l \<Longrightarrow> l[x := w] = line_put l x [w]"
  by (simp add: line_put_def upd_conv_take_nth_drop)

lemma length_line_put [simp]: "x + length ws \<le> length l \<Longrightarrow> length (line_put l x ws) = length l"
  by (simp add: line_put_def)

text \<open>
  \<open>monitor_write_status\<close> of a printing string of at most 78 characters puts it in
  brackets at the right end of the cursor's line, green on success and red otherwise,
  leaves the rest of that line, and goes to the next line.
\<close>

lemma monitor_write_status_correct:
  assumes "on_screen s" "cstr_at m str cs" "list_all printing cs" "length cs \<le> 78"
    and "terminal_of s = (ls, x, y)"
  shows "\<exists>s'. monitor_write_status m str success s = Some s' \<and> on_screen s'
    \<and> terminal_of s' = new_line (ls[y := take (78 - length cs) (ls ! y)
         @ [FB_WORD 91 7] @ map (\<lambda>c. FB_WORD c (if success then 2 else 4)) cs @ [FB_WORD 93 7]]) y"
proof -
  let ?attr = "if success then FB_ATTR COL_GREEN COL_BLACK else FB_ATTR COL_RED COL_BLACK"
  let ?n = "length cs"
  define s0 where "s0 = s\<lparr>cur_x := word_of_int (80 - (int ?n + 2))\<rparr>"
  define s1 where "s1 = put_chars ?attr cs (monitor_put 91 s0)"
  have attr: "?attr = (if success then 2 else 4)" "FB_ATTR COL_LTGREY COL_BLACK = 7"
    by (simp_all add: FB_ATTR_def COL_GREEN_def COL_RED_def COL_BLACK_def COL_LTGREY_def)
  have run: "monitor_write_status m str success s = Some (monitor_put 93 s1)"
    by (simp add: monitor_write_status_def strlen_cstr [OF assms(2)] put_string_cstr [OF assms(2)]
        s0_def s1_def Let_def)
  have ls: "ls = screen_lines (video_buffer s)" and y: "y = unat (cur_y s)" "y < 25"
    using assms(1,5) by (auto simp: terminal_of_def on_screen_def)
  have lens: "length ls = 25" "length (ls ! y) = 80" using y ls by simp_all
  have "80 - (int ?n + 2) = int (78 - ?n)" using assms(4) by simp
  then have "cur_x s0 = of_nat (78 - ?n)" unfolding s0_def by (simp del: of_nat_diff)
  then have x0: "unat (cur_x s0) = 78 - ?n"
    using assms(4) by (simp add: unat_of_nat take_bit_nat_eq_self del: of_nat_diff)
  then have on0: "on_screen s0" using y by (simp add: on_screen_def s0_def)
  have t0: "terminal_of s0 = (ls, 78 - ?n, y)" using x0 ls y by (simp add: terminal_of_def s0_def)
  have k: "Suc (78 - ?n) = 79 - ?n" "\<not> 79 \<le> 78 - ?n" using assms(4) by simp_all
  let ?open = "ls[y := line_put (ls ! y) (78 - ?n) [FB_WORD 91 7]]"
  let ?ws = "map (\<lambda>c. FB_WORD c ?attr) cs"
  have t1: "terminal_of (monitor_put 91 s0) = (?open, 79 - ?n, y)"
    unfolding monitor_put_def terminal_put_char [OF on0] t0 attr(2)
    using k lens y by (simp add: advance_to_def list_update_line_put)
  have on1: "on_screen (monitor_put 91 s0)" unfolding monitor_put_def by (rule on_screen_put [OF on0])
  have "terminal_of s1 = fold (\<lambda>c. terminal_put c ?attr) cs (?open, 79 - ?n, y)"
    unfolding s1_def put_chars_facts(1) [OF on1] t1 ..
  also have "\<dots> = (?open[y := line_put (?open ! y) (79 - ?n) ?ws], 79 - ?n + ?n, y)"
    using assms(3,4) lens y by (intro fold_terminal_line) simp_all
  also have "\<dots> = (ls[y := line_put (ls ! y) (78 - ?n) (FB_WORD 91 7 # ?ws)], 79, y)"
    using assms(4) lens y line_put_append [of "78 - ?n" "[FB_WORD 91 7]" ?ws "ls ! y"] by (simp add: k)
  finally have t2: "terminal_of s1 = (ls[y := line_put (ls ! y) (78 - ?n) (FB_WORD 91 7 # ?ws)], 79, y)" .
  have on2: "on_screen s1" unfolding s1_def by (rule put_chars_facts(2) [OF on1])
  have "line_put (line_put (ls ! y) (78 - ?n) (FB_WORD 91 7 # ?ws)) 79 [FB_WORD 93 7]
      = take (78 - ?n) (ls ! y) @ FB_WORD 91 7 # ?ws @ [FB_WORD 93 7]"
    using line_put_append [of "78 - ?n" "FB_WORD 91 7 # ?ws" "[FB_WORD 93 7]" "ls ! y"] assms(4) lens
    by (simp add: line_put_def [of "ls ! y"])
  then have "terminal_of (monitor_put 93 s1) = new_line (ls[y := take (78 - ?n) (ls ! y)
         @ FB_WORD 91 7 # ?ws @ [FB_WORD 93 7]]) y"
    unfolding monitor_put_def terminal_put_char [OF on2] t2 attr(2)
    using lens y assms(4) by (simp add: advance_to_def list_update_line_put)
  moreover have "on_screen (monitor_put 93 s1)" unfolding monitor_put_def by (rule on_screen_put [OF on2])
  ultimately show ?thesis unfolding run attr(1) by simp
qed

section \<open>Numbers\<close>

lemma number_value_Cons: "number_value b (d # ds) = char_value d * b ^ length ds + number_value b ds"
proof -
  have "foldl (\<lambda>a c. a * b + char_value c) k ds = k * b ^ length ds + foldl (\<lambda>a c. a * b + char_value c) 0 ds" for k
  proof (induction ds arbitrary: k)
    case (Cons d ds)
    show ?case
      using Cons [of "k * b + char_value d"] Cons [of "char_value d"] by (simp add: algebra_simps)
  qed simp
  from this [of "char_value d"] show ?thesis by (simp add: number_value_def)
qed

definition decimal :: "u8 list \<Rightarrow> bool" where
  "decimal ds \<longleftrightarrow> list_all (\<lambda>c. 48 \<le> c \<and> c \<le> 57) ds"

lemma dec_digit:
  assumes "unat (d :: u32) < 10"
  shows "char_value (48 + ucast d) = unat d" "48 \<le> (48 + ucast d :: u8)" "(48 + ucast d :: u8) \<le> 57"
    "d \<noteq> 0 \<Longrightarrow> (48 + ucast d :: u8) \<noteq> 48"
proof -
  have "unat (ucast d :: u8) = unat d" using assms by (simp add: unsigned_ucast_eq take_bit_nat_eq_self)
  then have u: "unat (48 + ucast d :: u8) = 48 + unat d" using assms by (simp add: unat_word_ariths)
  show "char_value (48 + ucast d) = unat d" using assms by (simp add: char_value_def u)
  show "48 \<le> (48 + ucast d :: u8)" "(48 + ucast d :: u8) \<le> 57" using assms by (simp_all add: word_le_nat_alt u)
  assume "d \<noteq> 0"
  then have "0 < unat d" by (simp add: unat_gt_0)
  then show "(48 + ucast d :: u8) \<noteq> 48" using u by auto
qed

lemma pow10_u32:
  assumes "k \<le> 9"
  shows "unat (v div of_nat (10 ^ k) :: u32) = unat v div 10 ^ k"
proof -
  have "(10 :: nat) ^ k \<le> 10 ^ 9" using assms by (intro power_increasing) auto
  then have "unat (of_nat (10 ^ k) :: u32) = 10 ^ k" by (intro unat_of_nat32) simp
  then show ?thesis by (simp add: unat_div del: of_nat_power)
qed

lemma write_dec_loop_digits:
  "k \<le> 9 \<Longrightarrow> \<exists>ds. (\<forall>s :: 'a monitor_scheme. write_dec_loop (10 ^ k) v had s = fold monitor_put ds s)
     \<and> number_value 10 ds = unat v mod 10 ^ Suc k \<and> decimal ds \<and> ds \<noteq> [] \<and> (had \<longrightarrow> length ds = Suc k)
     \<and> (\<not> had \<and> 1 < length ds \<longrightarrow> hd ds \<noteq> 48)"
proof (induction k arbitrary: had)
  case 0
  let ?d = "(v div of_nat 1) mod 10"
  have u: "unat ?d = unat v mod 10" by (simp add: unat_mod)
  then have lt: "unat ?d < 10" by simp
  have "write_dec_loop (10 ^ 0) v had s = fold monitor_put [48 + ucast ?d] s" for s :: "'a monitor_scheme"
    by (subst write_dec_loop.simps) (simp add: write_dec_loop.simps)
  then show ?case
    using dec_digit [OF lt] u by (intro exI [of _ "[48 + ucast ?d]"]) (simp add: decimal_def number_value_def)
next
  case (Suc k)
  let ?d = "(v div of_nat (10 ^ Suc k)) mod 10"
  have u: "unat ?d = unat v div 10 ^ Suc k mod 10" using pow10_u32 [OF Suc.prems, of v] by (simp add: unat_mod del: of_nat_power power_Suc)
  then have lt: "unat ?d < 10" by simp
  have next_i: "10 ^ Suc k div 10 = (10 :: nat) ^ k" "(10 :: nat) ^ Suc k \<noteq> 0" "(10 :: nat) ^ Suc k \<noteq> 1" by simp_all
  have mod: "unat v mod 10 ^ Suc (Suc k) = unat ?d * 10 ^ Suc k + unat v mod 10 ^ Suc k"
    unfolding u using mod_mult2_eq [of "unat v" "10 ^ Suc k" 10] by (simp add: mult.commute)
  have k: "k \<le> 9" using Suc.prems by simp
  show ?case
  proof (cases "?d = 0 \<and> \<not> had")
    case True
    obtain ds where ds: "\<forall>s :: 'a monitor_scheme. write_dec_loop (10 ^ k) v had s = fold monitor_put ds s"
      "number_value 10 ds = unat v mod 10 ^ Suc k" "decimal ds" "ds \<noteq> []" "\<not> had \<and> 1 < length ds \<longrightarrow> hd ds \<noteq> 48"
      using Suc.IH [OF k, of had] by blast
    have "write_dec_loop (10 ^ Suc k) v had s = fold monitor_put ds s" for s :: "'a monitor_scheme"
      by (subst write_dec_loop.simps) (use True ds(1) next_i in \<open>simp add: Let_def del: power_Suc of_nat_power\<close>)
    then show ?thesis using ds mod True by (intro exI [of _ ds]) (simp del: power_Suc)
  next
    case False
    obtain ds where ds: "\<forall>s :: 'a monitor_scheme. write_dec_loop (10 ^ k) v True s = fold monitor_put ds s"
      "number_value 10 ds = unat v mod 10 ^ Suc k" "decimal ds" "length ds = Suc k"
      using Suc.IH [OF k, of True] by blast
    have run: "write_dec_loop (10 ^ Suc k) v had s = fold monitor_put ((48 + ucast ?d) # ds) s" for s :: "'a monitor_scheme"
      by (subst write_dec_loop.simps) (use False ds(1) next_i in \<open>auto simp add: Let_def simp del: power_Suc of_nat_power\<close>)
    have "number_value 10 ((48 + ucast ?d) # ds) = unat v mod 10 ^ Suc (Suc k)"
      unfolding number_value_Cons ds(2,4) dec_digit(1) [OF lt] mod ..
    then show ?thesis using run ds(3,4) dec_digit(2-4) [OF lt] False
      by (intro exI [of _ "(48 + ucast ?d) # ds"]) (auto simp add: decimal_def simp del: power_Suc of_nat_power)
  qed
qed

text \<open>
  \<open>monitor_write_dec\<close> writes the number in decimal: the characters put on the screen
  are digits, their value is the number, and there is no leading zero.
\<close>

lemma monitor_write_dec_correct:
  "\<exists>ds. monitor_write_dec v s = fold monitor_put ds s \<and> number_value 10 ds = unat v
     \<and> list_all (\<lambda>c. 48 \<le> c \<and> c \<le> 57) ds \<and> ds \<noteq> [] \<and> \<not> (hd ds = 48 \<and> 1 < length ds)"
proof -
  obtain ds where ds: "\<forall>s :: 'a monitor_scheme. write_dec_loop (10 ^ 9) v False s = fold monitor_put ds s"
    "number_value 10 ds = unat v mod 10 ^ Suc 9" "decimal ds" "ds \<noteq> []" "1 < length ds \<longrightarrow> hd ds \<noteq> 48"
    using write_dec_loop_digits [of 9 v False] by blast
  have "unat v mod 10 ^ Suc 9 = unat v" by (rule mod_less) (rule less_trans [OF unat_lt_32], simp)
  then show ?thesis using ds by (intro exI [of _ ds]) (auto simp: monitor_write_dec_def decimal_def)
qed

lemma nibble:
  assumes "i \<le> 28"
  shows "drop_bit i (v AND push_bit i 0x0F) = take_bit 4 (drop_bit i (v :: u32))"
proof -
  have "(0x0F :: u32) = mask 4" by (simp add: mask_eq_exp_minus_1)
  then show ?thesis using assms by (auto simp: bit_eq_iff bit_simps)
qed

lemma hex_letter_digit: "hex_letter (ucast (take_bit 4 v)) = digit_char (take_bit 4 (v :: u32))"
proof -
  have lt: "unat (take_bit 4 v) < 16" by (simp add: take_bit_eq_mod unat_mod)
  then have "unat (ucast (take_bit 4 v) :: u8) = unat (take_bit 4 v)"
    by (simp add: unsigned_ucast_eq take_bit_nat_eq_self)
  then show ?thesis by (simp add: hex_letter_def digit_char_def word_less_nat_alt)
qed

lemma hex_loop:
  "0 < n \<Longrightarrow> unat (i :: u32) < 16 ^ n \<Longrightarrow> digits_loop i 16 False (int n)
     = (map (\<lambda>k. digit_char (take_bit 4 (drop_bit (4 * k) i))) [0..<n], 0)"
proof (induction n arbitrary: i)
  case (Suc n)
  have d: "i mod 16 = take_bit 4 i" "i div 16 = drop_bit 4 i" by (simp_all add: take_bit_eq_mod drop_bit_eq_div)
  have drop: "drop_bit (4 * k) (i div 16) = drop_bit (4 * Suc k) i" for k
    unfolding d by (simp add: ac_simps)
  show ?case
  proof (cases n)
    case 0
    then have "i div 16 = 0" using Suc.prems(2) by (simp add: unat_div unat_eq_0 [symmetric] del: unat_eq_0)
    then show ?thesis using 0 by (subst digits_loop.simps) (simp add: d)
  next
    case (Suc m)
    have "unat (i div 16) < 16 ^ n" using Suc.prems(2) by (simp add: unat_div less_mult_imp_div_less)
    then have "digits_loop (i div 16) 16 False (int n)
        = (map (\<lambda>k. digit_char (take_bit 4 (drop_bit (4 * k) (i div 16)))) [0..<n], 0)"
      using Suc by (intro Suc.IH) simp_all
    moreover have "[0..<Suc n] = 0 # map Suc [0..<n]" by (simp add: map_Suc_upt upt_conv_Cons)
    ultimately show ?thesis using Suc
      by (subst digits_loop.simps) (simp add: d(1) drop del: upt_Suc)
  qed
qed simp

text \<open>
  \<open>monitor_write_hex\<close> agrees with the conversion \<open>"%08x"\<close> of \<open>vsprintf\<close>: the
  characters it puts on the screen are the eight that \<open>append_number\<close> with radix 16
  and width 8 stores in memory.
\<close>

lemma monitor_write_hex_append_number:
  "\<exists>m'. append_number m str v 16 ZERO_PADDED 8 = Inr (m', str + 8)
     \<and> monitor_write_hex v s = fold monitor_put (read_bytes m' str 8) s"
proof -
  define ds where "ds = map (\<lambda>k. digit_char (take_bit 4 (drop_bit (4 * k) v))) [0..<8]"
  have "digits_loop v 16 False (int 8) = (ds, 0)"
    unfolding ds_def by (rule hex_loop) (use unat_lt_32 [of v] in simp_all)
  then have buf: "number_buffer v 16 ZERO_PADDED 8 = (ds, 0)"
    by (simp add: number_buffer_def BUFSIZE_def has_flag_def ZERO_PADDED_def SIGNED_def LEFT_ALIGN_def SHOW_PREFIX_def)
  have len: "length (rev ds) = 8" by (simp add: ds_def)
  have app: "append_number m str v 16 ZERO_PADDED 8 = Inr (store_bytes m str (rev ds))"
    using len by (simp add: append_number_def buf BUFSIZE_def)
  have "read_bytes (fst (store_bytes m str (rev ds))) str 8 = rev ds"
    using read_store_bytes [of "rev ds" m str] len by simp
  moreover have "snd (store_bytes m str (rev ds)) = str + 8"
    using store_bytes_end [of m str "rev ds"] len by simp
  moreover have "monitor_write_hex v s = fold monitor_put (rev ds) s"
  proof -
    have "monitor_put (hex_letter (ucast (drop_bit i (v AND push_bit i 0x0F)))) = monitor_put (digit_char (take_bit 4 (drop_bit i v)))"
      if "i \<in> set [28, 24, 20, 16, 12, 8, 4, 0]" for i
      using that nibble [of i v] hex_letter_digit [of "drop_bit i v"] by auto
    then have "monitor_write_hex v s
        = fold (\<lambda>i. monitor_put (digit_char (take_bit 4 (drop_bit i v)))) [28, 24, 20, 16, 12, 8, 4, 0] s"
      unfolding monitor_write_hex_def by (intro fold_cong) (simp_all only:)
    then show ?thesis by (simp add: ds_def upt_rec)
  qed
  ultimately show ?thesis unfolding app by (metis prod.collapse)
qed

end
