(* ===== verification/Gdt.thy ===== *)
theory Gdt
  imports Printk
begin

text \<open>
  The segment descriptor table: \<open>src/src/gdt.c\<close>.  Bit fields are words of their width, so
  an assignment cuts its value as C does; \<open>entry_bytes\<close> is the packed layout the processor
  reads, lowest bit field first.  The addresses the linker gives \<open>gdt_entries\<close> and \<open>tss\<close>,
  and the global \<open>kernel_relocated_stack\<close>, are fields of the state; the instructions
  \<open>lgdt\<close>, \<open>ltr\<close> and the segment loads set the fields \<open>gdtr\<close>, \<open>task_register\<close> and the segment
  registers.
\<close>

section \<open>Descriptors\<close>

record access_flags =
  segment_params :: "3 word"
  is_code :: "1 word"
  af_reserved :: "1 word"
  ring :: "2 word"
  present :: "1 word"

record granularity_flags =
  limit_high :: "4 word"
  gf_reserved :: "2 word"
  operand_size :: "1 word"
  granularity_4k :: "1 word"

record gdt_entry =
  limit_lower :: u16
  base_lower :: u16
  base_mid :: u8
  ent_access :: access_flags
  ent_granularity :: granularity_flags
  base_high :: u8

record gdt_ptr =
  gp_limit :: u16
  gp_base :: u32

record tss_entry =
  prev_tss :: u32
  esp0 :: u32
  ss0 :: u32
  esp1 :: u32
  ss1 :: u32
  esp2 :: u32
  ss2 :: u32
  tss_cr3 :: u32
  tss_eip :: u32
  tss_eflags :: u32
  tss_eax :: u32
  tss_ecx :: u32
  tss_edx :: u32
  tss_ebx :: u32
  tss_esp :: u32
  tss_ebp :: u32
  tss_esi :: u32
  tss_edi :: u32
  tss_es :: u32
  tss_cs :: u32
  tss_ss :: u32
  tss_ds :: u32
  tss_fs :: u32
  tss_gs :: u32
  ldt :: u32
  trap :: u16
  iomap_base :: u16

text \<open>\<open>sizeof(tss_entry_t)\<close>: 25 double words and two words.\<close>

definition sizeof_tss :: u32 where "sizeof_tss = 25 * 4 + 2 * 2"
definition sizeof_gdt_entry :: u32 where "sizeof_gdt_entry = 8"

definition GDT_SEG_ACCESSED :: "3 word" where "GDT_SEG_ACCESSED = 1"
definition GDT_SEG_CODE_READABLE :: "3 word" where "GDT_SEG_CODE_READABLE = 2"
definition GDT_SEG_CODE_CONFORMING :: "3 word" where "GDT_SEG_CODE_CONFORMING = 4"
definition GDT_SEG_DATA_WRITEABLE :: "3 word" where "GDT_SEG_DATA_WRITEABLE = 2"
definition GDT_SEG_DATA_DIRECTION :: "3 word" where "GDT_SEG_DATA_DIRECTION = 4"
definition NUM_GDT_ENTRIES :: u32 where "NUM_GDT_ENTRIES = 6"

record gdt_state = monitor +
  gdt_entries :: "gdt_entry list"
  gdt_pointer :: gdt_ptr
  tss :: tss_entry
  gdt_entries_addr :: u32
  tss_addr :: u32
  kernel_relocated_stack :: u32
  gdtr :: gdt_ptr
  task_register :: u16
  seg_cs :: u16
  seg_data :: u16

definition gdt_set_entry ::
    "u32 \<Rightarrow> u32 \<Rightarrow> access_flags \<Rightarrow> s32 \<Rightarrow> gdt_entry \<Rightarrow> gdt_entry" where
  "gdt_set_entry base limit flags use_4kib ent =
     (let ent1 = ent\<lparr>base_lower := ucast (base AND 0xFFFF),
                     base_mid := ucast (drop_bit 16 base AND 0xFF),
                     base_high := ucast (drop_bit 24 base AND 0xFF)\<rparr>;
          (limit', use') = (if limit > 0xFFFF then (drop_bit 12 limit, 1) else (limit, use_4kib));
          g = (ent_granularity ent1)\<lparr>limit_high := ucast (drop_bit 16 limit' AND 0x0F),
                                    granularity_4k := word_of_int use',
                                    operand_size := 1\<rparr>
      in ent1\<lparr>limit_lower := ucast (limit' AND 0xFFFF), ent_granularity := g, ent_access := flags\<rparr>)"

definition zero_tss :: tss_entry where
  "zero_tss = \<lparr>prev_tss = 0, esp0 = 0, ss0 = 0, esp1 = 0, ss1 = 0, esp2 = 0, ss2 = 0, tss_cr3 = 0,
     tss_eip = 0, tss_eflags = 0, tss_eax = 0, tss_ecx = 0, tss_edx = 0, tss_ebx = 0, tss_esp = 0,
     tss_ebp = 0, tss_esi = 0, tss_edi = 0, tss_es = 0, tss_cs = 0, tss_ss = 0, tss_ds = 0,
     tss_fs = 0, tss_gs = 0, ldt = 0, trap = 0, iomap_base = 0\<rparr>"

definition tss_gate :: "u32 \<Rightarrow> gdt_entry \<Rightarrow> gdt_entry" where
  "tss_gate base ent =
     (let limit = sizeof_tss
      in ent\<lparr>base_lower := ucast (base AND 0xFFFF),
             base_mid := ucast (drop_bit 16 base AND 0xFF),
             base_high := ucast (drop_bit 24 base AND 0xFF),
             ent_access := \<lparr>segment_params = 1, is_code = 1, af_reserved = 0, ring = 3, present = 1\<rparr>,
             ent_granularity := \<lparr>limit_high = ucast (drop_bit 16 limit AND 0x0F), gf_reserved = 0,
                                operand_size = 0, granularity_4k = 0\<rparr>,
             limit_lower := ucast (limit AND 0xFFFF)\<rparr>)"

definition write_tss :: "nat \<Rightarrow> 'a gdt_state_scheme \<Rightarrow> 'a gdt_state_scheme" where
  "write_tss i s =
     s\<lparr>gdt_entries := (gdt_entries s)[i := tss_gate (tss_addr s) (gdt_entries s ! i)],
       tss := zero_tss\<lparr>ss0 := 0x10, esp0 := kernel_relocated_stack s, tss_cs := 0x08 OR 3,
                       tss_ss := 0x10 OR 3, tss_ds := 0x10 OR 3, tss_es := 0x10 OR 3,
                       tss_fs := 0x10 OR 3, tss_gs := 0x10 OR 3\<rparr>\<rparr>"

text \<open>\<open>gdt_load\<close> of \<open>src/src/gdt_asm.s\<close>: \<open>lgdt\<close>, then new data and code segments.\<close>

definition gdt_load :: "gdt_ptr \<Rightarrow> 'a gdt_state_scheme \<Rightarrow> 'a gdt_state_scheme" where
  "gdt_load p s = s\<lparr>gdtr := p, seg_data := 0x10, seg_cs := 0x08\<rparr>"

definition set_gdt :: "nat \<Rightarrow> u32 \<Rightarrow> u32 \<Rightarrow> access_flags \<Rightarrow> s32 \<Rightarrow> 'a gdt_state_scheme \<Rightarrow> 'a gdt_state_scheme" where
  "set_gdt i base limit flags use_4kib s =
     s\<lparr>gdt_entries := (gdt_entries s)[i := gdt_set_entry base limit flags use_4kib (gdt_entries s ! i)]\<rparr>"

text \<open>The first half of \<open>init_gdt\<close> fills the tables, the second loads them.\<close>

definition fill_gdt :: "bool \<Rightarrow> 'a gdt_state_scheme \<Rightarrow> 'a gdt_state_scheme" where
  "fill_gdt init_tss s =
     (let af0 = \<lparr>segment_params = 0, is_code = 0, af_reserved = 0, ring = 0, present = 0\<rparr>;
          s0 = set_gdt 0 0 0 af0 0 s;
          af1 = af0\<lparr>present := 1, ring := 0, af_reserved := 1, is_code := 1,
                    segment_params := GDT_SEG_CODE_READABLE\<rparr>;
          s1 = set_gdt 1 0 0xFFFFFFFF af1 1 s0;
          af2 = af1\<lparr>is_code := 0\<rparr>;
          s2 = set_gdt 2 0 0xFFFFFFFF af2 1 s1;
          af3 = af2\<lparr>ring := 3, is_code := 1\<rparr>;
          s3 = set_gdt 3 0 0xFFFFFFFF af3 1 s2;
          af4 = af3\<lparr>is_code := 0\<rparr>;
          s4 = set_gdt 4 0 0xFFFFFFFF af4 1 s3;
          s5 = s4\<lparr>gdt_pointer := \<lparr>gp_limit = ucast (sizeof_gdt_entry * NUM_GDT_ENTRIES - 1),
                                    gp_base = gdt_entries_addr s4\<rparr>\<rparr>
      in if init_tss then write_tss 5 s5 else s5)"

definition init_gdt :: "bool \<Rightarrow> 'a gdt_state_scheme \<Rightarrow> 'a gdt_state_scheme res" where
  "init_gdt init_tss s =
     bind_res (say ''Loading a new GDT'' [] (fill_gdt init_tss s)) (\<lambda>s1.
       let s2 = status ''DONE'' True (gdt_load (gdt_pointer s1) s1)
       in Inr (if init_tss then s2\<lparr>task_register := 0x2b\<rparr> else s2))"

section \<open>What the processor reads\<close>

definition access_byte :: "access_flags \<Rightarrow> u8" where
  "access_byte f = ucast (segment_params f) OR push_bit 3 (ucast (is_code f)) OR push_bit 4 (ucast (af_reserved f))
     OR push_bit 5 (ucast (ring f)) OR push_bit 7 (ucast (present f))"

definition granularity_byte :: "granularity_flags \<Rightarrow> u8" where
  "granularity_byte g = ucast (limit_high g) OR push_bit 4 (ucast (gf_reserved g))
     OR push_bit 6 (ucast (operand_size g)) OR push_bit 7 (ucast (granularity_4k g))"

definition entry_bytes :: "gdt_entry \<Rightarrow> u8 list" where
  "entry_bytes e = [ucast (limit_lower e), ucast (drop_bit 8 (limit_lower e)),
     ucast (base_lower e), ucast (drop_bit 8 (base_lower e)), base_mid e,
     access_byte (ent_access e), granularity_byte (ent_granularity e), base_high e]"

text \<open>The processor's side: base, last valid offset, type, privilege level of eight bytes.\<close>

definition cpu_base :: "u8 list \<Rightarrow> u32" where
  "cpu_base b = ucast (b ! 2) OR push_bit 8 (ucast (b ! 3)) OR push_bit 16 (ucast (b ! 4)) OR push_bit 24 (ucast (b ! 7))"

definition cpu_limit :: "u8 list \<Rightarrow> u32" where
  "cpu_limit b = ucast (b ! 0) OR push_bit 8 (ucast (b ! 1)) OR push_bit 16 (ucast (b ! 6 AND 0x0F))"

definition cpu_last :: "u8 list \<Rightarrow> u32" where
  "cpu_last b = (if bit (b ! 6) 7 then push_bit 12 (cpu_limit b) OR 0xFFF else cpu_limit b)"

lemma mask_literals:
  "(0xFFFF :: u32) = mask 16" "(0xFF :: u32) = mask 8" "(0x0F :: u32) = mask 4" "(0x0F :: u8) = mask 4"
  "(0xFFF :: u32) = mask 12"
  by (simp_all add: mask_eq_exp_minus_1)

lemma cpu_base_fields:
  assumes "base_lower e = ucast (base AND 0xFFFF)" "base_mid e = ucast (drop_bit 16 base AND 0xFF)"
    and "base_high e = ucast (drop_bit 24 base AND 0xFF)"
  shows "cpu_base (entry_bytes e) = (base :: u32)"
proof -
  have "entry_bytes e ! 2 = ucast base" "entry_bytes e ! 3 = ucast (drop_bit 8 base)"
    "entry_bytes e ! 4 = ucast (drop_bit 16 base)" "entry_bytes e ! 7 = ucast (drop_bit 24 base)"
    unfolding entry_bytes_def assms mask_literals
    by (auto intro!: bit_word_eqI simp: bit_simps)
  then show ?thesis using word32_of_bytes [of base] by (simp add: cpu_base_def)
qed

lemma cpu_limit_fields:
  assumes "limit_lower e = ucast (limit AND 0xFFFF)" "limit_high (ent_granularity e) = ucast (drop_bit 16 limit AND 0x0F)"
  shows "cpu_limit (entry_bytes e) = take_bit 20 (limit :: u32)"
proof -
  have b: "entry_bytes e ! 0 = ucast limit" "entry_bytes e ! 1 = ucast (drop_bit 8 limit)"
    unfolding entry_bytes_def assms(1) mask_literals
    by (auto intro!: bit_word_eqI simp: bit_simps)
  have c: "entry_bytes e ! 6 AND 0x0F = take_bit 4 (ucast (drop_bit 16 limit))"
    unfolding entry_bytes_def granularity_byte_def assms(2) mask_literals
    by (auto intro!: bit_word_eqI simp: bit_simps)
  show ?thesis unfolding cpu_limit_def b c
  proof (rule bit_word_eqI)
    fix n assume n: "n < LENGTH(32)"
    then consider "n < 8" | "8 \<le> n" "n < 16" | "16 \<le> n" "n < 32"
      by fastforce
    then show "bit (ucast (ucast limit :: u8) OR push_bit 8 (ucast (ucast (drop_bit 8 limit) :: u8))
        OR push_bit 16 (ucast (take_bit 4 (ucast (drop_bit 16 limit) :: u8))) :: u32) n = bit (take_bit 20 limit) n"
      by cases (auto simp: bit_simps)
  qed
qed

lemma one_bit_word: "bit (x :: 1 word) 0 = (x = 1)"
proof -
  have "x = 0 \<or> x = 1" using unsigned_less [of x, where 'a = nat] by (auto simp: word_unat_eq_iff less_2_cases_iff)
  then show ?thesis by auto
qed

lemma granularity_bits:
  "bit (granularity_byte g) 7 = (granularity_4k g = 1)" "bit (granularity_byte g) 6 = (operand_size g = 1)"
  by (auto simp: granularity_byte_def bit_simps one_bit_word dest: bit_imp_le_length)

definition segment_end :: "u32 \<Rightarrow> s32 \<Rightarrow> u32" where
  "segment_end limit use_4kib =
     (if limit > 0xFFFF then limit OR 0xFFF else if odd use_4kib then push_bit 12 limit OR 0xFFF else limit)"

lemma segment_end_ge: "limit \<le> segment_end limit use_4kib"
proof -
  have "limit \<le> push_bit 12 limit OR 0xFFF" if "\<not> limit > 0xFFFF"
  proof -
    have "unat limit \<le> 65535" using that by (simp add: word_less_nat_alt not_less)
    then have "unat (push_bit 12 limit) = unat limit * 4096"
      by (simp add: push_bit_eq_mult unat_word_ariths)
    then have "limit \<le> push_bit 12 limit" by (simp add: word_le_nat_alt)
    then show ?thesis using le_word_or2 order_trans by blast
  qed
  then show ?thesis by (auto simp: segment_end_def le_word_or2)
qed

lemma gdt_set_entry_bytes:
  "cpu_base (entry_bytes (gdt_set_entry base limit flags use_4kib ent)) = base
    \<and> entry_bytes (gdt_set_entry base limit flags use_4kib ent) ! 5 = access_byte flags
    \<and> bit (entry_bytes (gdt_set_entry base limit flags use_4kib ent) ! 6) 6
    \<and> cpu_last (entry_bytes (gdt_set_entry base limit flags use_4kib ent)) = segment_end limit use_4kib
    \<and> limit \<le> segment_end limit use_4kib"
proof -
  let ?e = "gdt_set_entry base limit flags use_4kib ent"
  let ?b = "entry_bytes ?e"
  let ?l = "if limit > 0xFFFF then drop_bit 12 limit else limit"
  have e: "base_lower ?e = ucast (base AND 0xFFFF)" "base_mid ?e = ucast (drop_bit 16 base AND 0xFF)"
    "base_high ?e = ucast (drop_bit 24 base AND 0xFF)" "limit_lower ?e = ucast (?l AND 0xFFFF)"
    "limit_high (ent_granularity ?e) = ucast (drop_bit 16 ?l AND 0x0F)" "ent_access ?e = flags"
    "operand_size (ent_granularity ?e) = 1"
    "granularity_4k (ent_granularity ?e) = (if limit > 0xFFFF then 1 else word_of_int use_4kib)"
    by (simp_all add: gdt_set_entry_def Let_def)
  have bytes: "?b ! 5 = access_byte flags" "?b ! 6 = granularity_byte (ent_granularity ?e)"
    by (simp_all add: entry_bytes_def e)
  have base: "cpu_base ?b = base" by (rule cpu_base_fields [OF e(1-3)])
  have lim: "cpu_limit ?b = take_bit 20 ?l" by (rule cpu_limit_fields [OF e(4,5)])
  have odd: "(word_of_int use_4kib :: 1 word) = 1 \<longleftrightarrow> odd use_4kib"
    unfolding one_bit_word [symmetric] by (simp only: bit_word_of_int_iff) (simp add: bit_0)
  have up: "push_bit 12 (take_bit 20 (drop_bit 12 limit)) OR 0xFFF = limit OR 0xFFF"
    unfolding mask_literals by (auto intro!: bit_word_eqI simp: bit_simps)
  have small: "take_bit 20 limit = limit" if "\<not> limit > 0xFFFF"
  proof -
    have "unat limit < 2 ^ 20" using that by (simp add: word_less_nat_alt not_less)
    then show ?thesis by (simp add: word_unat_eq_iff unsigned_take_bit_eq take_bit_nat_eq_self)
  qed
  have "bit (?b ! 6) 7 \<longleftrightarrow> limit > 0xFFFF \<or> odd use_4kib" "bit (?b ! 6) 6"
    unfolding bytes(2) granularity_bits e(7,8) using odd by simp_all
  then show ?thesis
    using bytes(1) base lim up small segment_end_ge by (auto simp: cpu_last_def segment_end_def)
qed

text \<open>
  C27.  A descriptor made by \<open>gdt_set_entry\<close> is read back by the processor with the base
  given, the access flags given and 32-bit operands.  A limit of up to 64 KiB without
  the 4 KiB flag is exact; a larger one is rounded up to the end of its 4 KiB page, so the
  segment never ends before the limit.
\<close>

theorem gdt_set_entry_decodes:
  "cpu_base (entry_bytes (gdt_set_entry base limit flags use_4kib ent)) = base
    \<and> entry_bytes (gdt_set_entry base limit flags use_4kib ent) ! 5 = access_byte flags
    \<and> bit (entry_bytes (gdt_set_entry base limit flags use_4kib ent) ! 6) 6
    \<and> cpu_last (entry_bytes (gdt_set_entry base limit flags use_4kib ent)) = segment_end limit use_4kib
    \<and> limit \<le> segment_end limit use_4kib"
  by (rule gdt_set_entry_bytes)

section \<open>The table of the kernel\<close>

lemma gdt_state_more:
  "monitor.more s' = monitor.more s \<Longrightarrow> gdt_entries s' = gdt_entries s \<and> gdt_pointer s' = gdt_pointer s
     \<and> tss s' = tss s \<and> gdt_entries_addr s' = gdt_entries_addr s \<and> tss_addr s' = tss_addr s
     \<and> kernel_relocated_stack s' = kernel_relocated_stack s \<and> gdtr s' = gdtr s
     \<and> task_register s' = task_register s \<and> seg_cs s' = seg_cs s \<and> seg_data s' = seg_data s"
  by (cases s, cases s') simp

text \<open>A descriptor as the processor sees it.\<close>

definition segment :: "gdt_entry \<Rightarrow> u32 \<times> u32 \<times> u8" where
  "segment e = (cpu_base (entry_bytes e), cpu_last (entry_bytes e), entry_bytes e ! 5)"

lemma segment_set_entry:
  "segment (gdt_set_entry base limit flags use_4kib e) = (base, segment_end limit use_4kib, access_byte flags)"
  using gdt_set_entry_bytes by (simp add: segment_def)

lemma segment_tss_gate: "segment (tss_gate base e) = (base, 104, 0xE9)"
proof -
  have e: "base_lower (tss_gate base e) = ucast (base AND 0xFFFF)"
    "base_mid (tss_gate base e) = ucast (drop_bit 16 base AND 0xFF)"
    "base_high (tss_gate base e) = ucast (drop_bit 24 base AND 0xFF)"
    "limit_lower (tss_gate base e) = ucast (sizeof_tss AND 0xFFFF)"
    "limit_high (ent_granularity (tss_gate base e)) = ucast (drop_bit 16 sizeof_tss AND 0x0F)"
    by (simp_all add: tss_gate_def Let_def)
  have "\<not> bit (entry_bytes (tss_gate base e) ! 6) 7"
    unfolding entry_bytes_def by (simp add: granularity_bits tss_gate_def Let_def)
  moreover have "entry_bytes (tss_gate base e) ! 5 = 0xE9"
    by (simp add: entry_bytes_def tss_gate_def access_byte_def Let_def)
  ultimately show ?thesis
    by (simp add: segment_def cpu_base_fields [OF e(1-3)] cpu_last_def cpu_limit_fields [OF e(4,5)] sizeof_tss_def)
qed

lemma update_six:
  "[a, b, c, d, e, f][0 := x] = [x, b, c, d, e, f]" "[a, b, c, d, e, f][1 := x] = [a, x, c, d, e, f]"
  "[a, b, c, d, e, f][2 := x] = [a, b, x, d, e, f]" "[a, b, c, d, e, f][3 := x] = [a, b, c, x, e, f]"
  "[a, b, c, d, e, f][4 := x] = [a, b, c, d, x, f]" "[a, b, c, d, e, f][5 := x] = [a, b, c, d, e, x]"
  by (simp_all add: eval_nat_numeral)

lemma fill_gdt_segments:
  assumes "length (gdt_entries s) = 6"
  shows "map segment (gdt_entries (fill_gdt True s)) = [(0, 0, 0), (0, 0xFFFFFFFF, 0x9A), (0, 0xFFFFFFFF, 0x92),
         (0, 0xFFFFFFFF, 0xFA), (0, 0xFFFFFFFF, 0xF2), (tss_addr s, 104, 0xE9)]"
    "gdt_pointer (fill_gdt True s) = \<lparr>gp_limit = 6 * 8 - 1, gp_base = gdt_entries_addr s\<rparr>"
    "ss0 (tss (fill_gdt True s)) = 16" "esp0 (tss (fill_gdt True s)) = kernel_relocated_stack s"
proof -
  obtain e0 e1 e2 e3 e4 e5 where es: "gdt_entries s = [e0, e1, e2, e3, e4, e5]"
    using assms by (auto simp: eval_nat_numeral length_Suc_conv)
  let ?af = "\<lambda>c r. \<lparr>segment_params = GDT_SEG_CODE_READABLE, is_code = c, af_reserved = 1, ring = r, present = 1\<rparr>"
  have entries: "gdt_entries (fill_gdt True s)
      = [gdt_set_entry 0 0 \<lparr>segment_params = 0, is_code = 0, af_reserved = 0, ring = 0, present = 0\<rparr> 0 e0,
         gdt_set_entry 0 0xFFFFFFFF (?af 1 0) 1 e1, gdt_set_entry 0 0xFFFFFFFF (?af 0 0) 1 e2,
         gdt_set_entry 0 0xFFFFFFFF (?af 1 3) 1 e3, gdt_set_entry 0 0xFFFFFFFF (?af 0 3) 1 e4,
         tss_gate (tss_addr s) e5]"
    by (simp add: fill_gdt_def Let_def set_gdt_def write_tss_def es update_six)
  show "map segment (gdt_entries (fill_gdt True s)) = [(0, 0, 0), (0, 0xFFFFFFFF, 0x9A), (0, 0xFFFFFFFF, 0x92),
         (0, 0xFFFFFFFF, 0xFA), (0, 0xFFFFFFFF, 0xF2), (tss_addr s, 104, 0xE9)]"
    unfolding entries
    by (simp add: segment_set_entry segment_tss_gate segment_end_def access_byte_def GDT_SEG_CODE_READABLE_def)
  show "gdt_pointer (fill_gdt True s) = \<lparr>gp_limit = 6 * 8 - 1, gp_base = gdt_entries_addr s\<rparr>"
    "ss0 (tss (fill_gdt True s)) = 16" "esp0 (tss (fill_gdt True s)) = kernel_relocated_stack s"
    by (simp_all add: fill_gdt_def Let_def set_gdt_def write_tss_def sizeof_gdt_entry_def NUM_GDT_ENTRIES_def)
qed

text \<open>
  C26.  \<open>init_gdt\<close> with a task state segment makes the flat memory model and loads it: a null
  segment, code and data for ring 0 and for ring 3, each from 0 to the end of the address
  space, and a task state segment over \<open>tss\<close>, whose stack for interrupts from user
  mode is the kernel's.  The table register covers the six entries and the task register
  selects the sixth with privilege level 3.
\<close>

theorem init_gdt_segments:
  assumes "length (gdt_entries s) = 6"
  shows "\<exists>s'. init_gdt True s = Inr s'
    \<and> map segment (gdt_entries s') = [(0, 0, 0), (0, 0xFFFFFFFF, 0x9A), (0, 0xFFFFFFFF, 0x92),
         (0, 0xFFFFFFFF, 0xFA), (0, 0xFFFFFFFF, 0xF2), (tss_addr s, 104, 0xE9)]
    \<and> gdtr s' = \<lparr>gp_limit = 6 * 8 - 1, gp_base = gdt_entries_addr s\<rparr>
    \<and> task_register s' = 5 * 8 + 3 \<and> seg_cs s' = 8 \<and> seg_data s' = 16
    \<and> ss0 (tss s') = 16 \<and> esp0 (tss s') = kernel_relocated_stack s"
proof -
  let ?s1 = "put_chars 7 (ascii ''Loading a new GDT'') (fill_gdt True s)"
  let ?s2 = "status ''DONE'' True (gdt_load (gdt_pointer ?s1) ?s1)"
  have "37 \<notin> set (ascii ''Loading a new GDT'')" "0 \<notin> set (ascii ''Loading a new GDT'')" by (simp_all add: ascii_def of_char_def)
  then have run: "init_gdt True s = Inr (?s2\<lparr>task_register := 0x2b\<rparr>)"
    by (simp add: init_gdt_def say_plain)
  note m1 = gdt_state_more [OF more_put_chars [of 7 "ascii ''Loading a new GDT''" "fill_gdt True s"]]
  note m2 = gdt_state_more [OF more_status [of "''DONE''" True "gdt_load (gdt_pointer ?s1) ?s1"]]
  show ?thesis
    unfolding run using fill_gdt_segments [OF assms] m1 m2
    by (intro exI [of _ "?s2\<lparr>task_register := 0x2b\<rparr>"]) (simp add: gdt_load_def)
qed

text \<open>A state to start from: empty tables and a blank screen.\<close>

definition null_entry :: gdt_entry where
  "null_entry = \<lparr>limit_lower = 0, base_lower = 0, base_mid = 0,
     ent_access = \<lparr>segment_params = 0, is_code = 0, af_reserved = 0, ring = 0, present = 0\<rparr>,
     ent_granularity = \<lparr>limit_high = 0, gf_reserved = 0, operand_size = 0, granularity_4k = 0\<rparr>, base_high = 0\<rparr>"

definition blank_gdt :: gdt_state where
  "blank_gdt = \<lparr>port_writes = [], video_buffer = (\<lambda>_. BLANK), cur_x = 0, cur_y = 0,
     gdt_entries = replicate 6 null_entry, gdt_pointer = \<lparr>gp_limit = 0, gp_base = 0\<rparr>, tss = zero_tss,
     gdt_entries_addr = 0x00105000, tss_addr = 0x00106000, kernel_relocated_stack = 0x00200000,
     gdtr = \<lparr>gp_limit = 0, gp_base = 0\<rparr>, task_register = 0, seg_cs = 0, seg_data = 0\<rparr>"

theorem init_gdt_segments_witness:
  "\<exists>s'. init_gdt True blank_gdt = Inr s' \<and> map segment (gdt_entries s') ! 5 = (0x00106000, 104, 0xE9)"
proof -
  have "length (gdt_entries blank_gdt) = 6" by (simp add: blank_gdt_def)
  then show ?thesis using init_gdt_segments [of blank_gdt] by (auto simp: blank_gdt_def simp del: nth_map)
qed

end
