(* ===== verification/Idt.thy ===== *)
theory Idt
  imports Gdt
begin

text \<open>
  Interrupts: the descriptor table, the interrupt controllers and the dispatch of
  \<open>src/src/idt.c\<close>, and the table of handlers of \<open>src/src/isr.c\<close>.  The entry stubs are
  assembly code; their addresses are fields of the state.  A handler is a function
  pointer: \<open>handler\<close> lists the functions the kernel registers, and the dispatchers take
  the meaning of a call as their argument (theory \<open>Interrupts\<close> gives it).
\<close>

section \<open>Handlers\<close>

record registers =
  reg_ds :: u32
  reg_edi :: u32
  reg_esi :: u32
  reg_ebp :: u32
  reg_esp :: u32
  reg_ebx :: u32
  reg_edx :: u32
  reg_ecx :: u32
  reg_eax :: u32
  int_no :: u32
  err_code :: u32
  reg_eip :: u32
  reg_cs :: u32
  reg_eflags :: u32
  reg_useresp :: u32
  reg_ss :: u32

datatype handler = Timer_Callback | Syscall_Handler | Page_Fault_Handler

definition PAGE_FAULT_ISR :: u32 where "PAGE_FAULT_ISR = 14"
definition ISR_SYSCALL :: u32 where "ISR_SYSCALL = 0x80"

section \<open>Gates\<close>

record idt_flags =
  gate_type :: "4 word"
  storage_segment :: "1 word"
  privilege_level :: "2 word"
  gate_present :: "1 word"

record idt_entry =
  handler_addr_lower :: u16
  gate_segment :: u16
  gate_reserved :: u8
  gate_flags :: idt_flags
  handler_addr_upper :: u16

record idt_ptr =
  ip_size :: u16
  ip_entries_addr :: u32

record idt_state = gdt_state +
  idt_entries :: "idt_entry list"
  idt_pointer :: idt_ptr
  idt_entries_addr :: u32
  isr_stub :: "nat \<Rightarrow> u32"
  irq_stub :: "nat \<Rightarrow> u32"
  idtr :: idt_ptr
  interrupt_handlers :: "handler option list"

definition isr_register_handler ::
    "u32 \<Rightarrow> handler \<Rightarrow> 'a idt_state_scheme \<Rightarrow> 'a idt_state_scheme res" where
  "isr_register_handler n h s =
     (if unat n < length (interrupt_handlers s)
      then Inr (s\<lparr>interrupt_handlers := (interrupt_handlers s)[unat n := Some h]\<rparr>)
      else Inl OutOfBounds)"

definition IDT_32BIT_INTERRUPT_GATE :: "4 word" where "IDT_32BIT_INTERRUPT_GATE = 0x0E"
definition PIC_MASTER_LOW_INT :: u32 where "PIC_MASTER_LOW_INT = 32"
definition PIC_SLAVE_LOW_INT :: u32 where "PIC_SLAVE_LOW_INT = 40"
definition sizeof_idt_entry :: u32 where "sizeof_idt_entry = 8"

definition idt_load :: "idt_ptr \<Rightarrow> 'a idt_state_scheme \<Rightarrow> 'a idt_state_scheme" where
  "idt_load p s = s\<lparr>idtr := p\<rparr>"

definition idt_set_handler :: "u32 \<Rightarrow> u16 \<Rightarrow> idt_flags \<Rightarrow> idt_entry \<Rightarrow> idt_entry" where
  "idt_set_handler address selector flags ent =
     ent\<lparr>handler_addr_lower := ucast (address AND 0xFFFF),
         handler_addr_upper := ucast (drop_bit 16 address AND 0xFFFF),
         gate_segment := selector, gate_reserved := 0, gate_flags := flags\<rparr>"

definition remap_pic :: "'a ports_scheme \<Rightarrow> 'a ports_scheme" where
  "remap_pic s =
     outb 0xA1 0 (outb 0x21 0
    (outb 0xA1 1 (outb 0x21 1
    (outb 0xA1 2 (outb 0x21 4
    (outb 0xA1 (ucast PIC_SLAVE_LOW_INT) (outb 0x21 (ucast PIC_MASTER_LOW_INT)
    (outb 0xA0 0x11 (outb 0x20 0x11 s)))))))))"

definition zero_gate :: idt_entry where
  "zero_gate = \<lparr>handler_addr_lower = 0, gate_segment = 0, gate_reserved = 0,
     gate_flags = \<lparr>gate_type = 0, storage_segment = 0, privilege_level = 0, gate_present = 0\<rparr>,
     handler_addr_upper = 0\<rparr>"

definition interrupt_flags :: "2 word \<Rightarrow> idt_flags" where
  "interrupt_flags level = \<lparr>gate_type = IDT_32BIT_INTERRUPT_GATE, storage_segment = 0,
     privilege_level = level, gate_present = 1\<rparr>"

text \<open>\<open>SET_HANDLER\<close> and \<open>SET_IRQ_HANDLER\<close>, and the lines that use them in their order.\<close>

definition set_gate :: "nat \<Rightarrow> u32 \<Rightarrow> idt_flags \<Rightarrow> idt_entry list \<Rightarrow> idt_entry list" where
  "set_gate i address flags es = es[i := idt_set_handler address 0x08 flags (es ! i)]"

definition fill_idt :: "(nat \<Rightarrow> u32) \<Rightarrow> (nat \<Rightarrow> u32) \<Rightarrow> idt_entry list \<Rightarrow> idt_entry list" where
  "fill_idt isr irq es =
     (let es0 = map (\<lambda>_. zero_gate) es;
          es1 = fold (\<lambda>i. set_gate i (isr i) (interrupt_flags 0)) [0..<32] es0;
          es2 = set_gate 0x80 (isr 0x80) (interrupt_flags 3) es1
      in fold (\<lambda>i. set_gate (32 + i) (irq i) (interrupt_flags 0)) [0..<16] es2)"

definition init_idt :: "'a idt_state_scheme \<Rightarrow> 'a idt_state_scheme res" where
  "init_idt s =
     (let s1 = s\<lparr>idt_pointer := \<lparr>ip_size = ucast (sizeof_idt_entry * 256 - 1), ip_entries_addr = idt_entries_addr s\<rparr>,
                 idt_entries := fill_idt (isr_stub s) (irq_stub s) (idt_entries s)\<rparr>
      in bind_res (say ''Loading a new IDT'' [] s1) (\<lambda>s2.
         bind_res (say ''Remapping the PIC'' [] (status ''DONE'' True (idt_load (idt_pointer s2) s2))) (\<lambda>s3.
         Inr (status ''DONE'' True (remap_pic s3)))))"

section \<open>Dispatch\<close>

text \<open>The array of names ends with a null pointer at index 19, and has no element behind it.\<close>

definition interrupt_name :: "string option list" where
  "interrupt_name =
     [Some ''Division by zero'', Some ''Single-step/debug exception'', Some ''Non-maskable interrupt'',
      Some ''Breakpoint'', Some ''Detected overflow (INTO)'', Some ''Bounds check failed (BOUND)'',
      Some ''Invalid opcode'', Some ''Coprocessor not available'', Some ''Double fault'',
      Some ''Coprocessor segment overrun'', Some ''Invalid TSS'', Some ''Segment not present'',
      Some ''Stack fault'', Some ''General protection fault'', Some ''Page fault'', Some ''(reserved)'',
      Some ''Coprocessor fault'', Some ''Alignment check exception'', Some ''Machine check exception'', None]"

definition default_interrupt_name :: string where
  "default_interrupt_name = ''unknown''"

type_synonym 'a call = "handler \<Rightarrow> registers \<Rightarrow> 'a idt_state_scheme \<Rightarrow> (registers \<times> 'a idt_state_scheme) res"

definition handler_of :: "u32 \<Rightarrow> 'a idt_state_scheme \<Rightarrow> handler option res" where
  "handler_of n s = (if unat n < length (interrupt_handlers s) then Inr (interrupt_handlers s ! unat n) else Inl OutOfBounds)"

definition name_of_interrupt :: "u32 \<Rightarrow> string res" where
  "name_of_interrupt n =
     (if unat n < length interrupt_name
      then Inr (case interrupt_name ! unat n of None \<Rightarrow> default_interrupt_name | Some name \<Rightarrow> name)
      else Inl OutOfBounds)"

definition isr_common_handler ::
    "'a call \<Rightarrow> registers \<Rightarrow> 'a idt_state_scheme \<Rightarrow> (registers \<times> 'a idt_state_scheme) res" where
  "isr_common_handler call regs s =
     bind_res (handler_of (int_no regs) s) (\<lambda>h.
     bind_res (case h of
         Some f \<Rightarrow> call f regs s
       | None \<Rightarrow> bind_res (name_of_interrupt (int_no regs)) (\<lambda>name.
           bind_res (say (''Received interrupt %d: %s'' @ [CHR 0x0A]) [Num (int_no regs), Str (ascii name)] s)
             (\<lambda>s'. Inr (regs, s'))))
       (\<lambda>(regs', s'). if int_no regs' = 13 then Inl (Panic ''General protection fault :('') else Inr (regs', s')))"

definition irq_common_handler ::
    "'a call \<Rightarrow> registers \<Rightarrow> 'a idt_state_scheme \<Rightarrow> (registers \<times> 'a idt_state_scheme) res" where
  "irq_common_handler call regs s =
     bind_res (handler_of (int_no regs) s) (\<lambda>h.
     bind_res (case h of Some f \<Rightarrow> call f regs s | None \<Rightarrow> Inr (regs, s))
       (\<lambda>(regs', s').
         let s1 = (if int_no regs' \<ge> PIC_SLAVE_LOW_INT then outb 0xA0 0x20 s' else s')
         in Inr (regs', outb 0x20 0x20 s1)))"

section \<open>What the processor reads\<close>

definition gate_bytes :: "idt_entry \<Rightarrow> u8 list" where
  "gate_bytes e = [ucast (handler_addr_lower e), ucast (drop_bit 8 (handler_addr_lower e)),
     ucast (gate_segment e), ucast (drop_bit 8 (gate_segment e)), gate_reserved e,
     ucast (gate_type (gate_flags e)) OR push_bit 4 (ucast (storage_segment (gate_flags e)))
       OR push_bit 5 (ucast (privilege_level (gate_flags e))) OR push_bit 7 (ucast (gate_present (gate_flags e))),
     ucast (handler_addr_upper e), ucast (drop_bit 8 (handler_addr_upper e))]"

text \<open>A present gate: entry point, selector, gate type, privilege level needed to call it.\<close>

definition cpu_gate :: "u8 list \<Rightarrow> (u32 \<times> u16 \<times> u8 \<times> u8) option" where
  "cpu_gate b = (if bit (b ! 5) 7
     then Some (ucast (b ! 0) OR push_bit 8 (ucast (b ! 1)) OR push_bit 16 (ucast (b ! 6)) OR push_bit 24 (ucast (b ! 7)),
                ucast (b ! 2) OR push_bit 8 (ucast (b ! 3)), b ! 5 AND 0x1F, drop_bit 5 (b ! 5) AND 3)
     else None)"

lemma cpu_gate_set:
  "cpu_gate (gate_bytes (idt_set_handler address 8 (interrupt_flags l) e)) = Some (address, 8, 0x0E, ucast l)"
proof -
  let ?e = "idt_set_handler address 8 (interrupt_flags l) e"
  let ?b = "gate_bytes ?e"
  have m: "(0x1F :: u8) = mask 5" "(3 :: u8) = mask 2" "(0xFFFF :: u32) = mask 16" by (simp_all add: mask_eq_exp_minus_1)
  have addr: "?b ! 0 = ucast address" "?b ! 1 = ucast (drop_bit 8 address)" "?b ! 6 = ucast (drop_bit 16 address)"
    "?b ! 7 = ucast (drop_bit 24 address)"
    unfolding gate_bytes_def idt_set_handler_def m by (auto intro!: bit_word_eqI simp: bit_simps)
  have sel: "?b ! 2 = 8" "?b ! 3 = 0" by (simp_all add: gate_bytes_def idt_set_handler_def)
  have b5: "?b ! 5 = 14 OR push_bit 5 (ucast l) OR 128"
    by (simp add: gate_bytes_def idt_set_handler_def interrupt_flags_def IDT_32BIT_INTERRUPT_GATE_def)
  have "unat l < 4" using unsigned_less [of l, where 'a = nat] by simp
  then have "l = 0 \<or> l = 1 \<or> l = 2 \<or> l = 3" by (auto simp: word_unat_eq_iff)
  then have "bit (?b ! 5) 7 \<and> ?b ! 5 AND 0x1F = 0x0E \<and> drop_bit 5 (?b ! 5) AND 3 = ucast l"
    unfolding b5 by (elim disjE) simp_all
  then show ?thesis unfolding cpu_gate_def addr sel by (simp add: word32_of_bytes)
qed

lemma cpu_gate_zero: "cpu_gate (gate_bytes zero_gate) = None"
  by (simp add: cpu_gate_def gate_bytes_def zero_gate_def)

lemma length_set_gate [simp]: "length (set_gate i a fl es) = length es"
  by (simp add: set_gate_def)

lemma nth_set_gate:
  "j < length es \<Longrightarrow> set_gate i a fl es ! j = (if i = j then idt_set_handler a 8 fl (es ! j) else es ! j)"
  by (simp add: set_gate_def nth_list_update)

lemma fold_set_gate:
  "length (fold (\<lambda>i. set_gate (k + i) (f i) fl) [0..<n] es) = length es
   \<and> (j < length es \<longrightarrow> fold (\<lambda>i. set_gate (k + i) (f i) fl) [0..<n] es ! j
        = (if k \<le> j \<and> j < k + n then idt_set_handler (f (j - k)) 8 fl (es ! j) else es ! j))"
proof (induction n)
  case (Suc n)
  then show ?case by (auto simp: nth_set_gate)
qed auto

lemma fill_idt_gates:
  assumes "length es = 256" "j < 256"
  shows "cpu_gate (gate_bytes (fill_idt isr irq es ! j)) =
     (if j < 32 then Some (isr j, 8, 0x0E, 0)
      else if j < 48 then Some (irq (j - 32), 8, 0x0E, 0)
      else if j = 0x80 then Some (isr 0x80, 8, 0x0E, 3) else None)"
proof -
  let ?es0 = "map (\<lambda>_. zero_gate) es"
  let ?es1 = "fold (\<lambda>i. set_gate i (isr i) (interrupt_flags 0)) [0..<32] ?es0"
  let ?es2 = "set_gate 0x80 (isr 0x80) (interrupt_flags 3) ?es1"
  have one: "length ?es1 = 256" "?es1 ! j = (if j < 32 then idt_set_handler (isr j) 8 (interrupt_flags 0) zero_gate else zero_gate)"
    using fold_set_gate [of 0 isr "interrupt_flags 0" 32 ?es0 j] assms by (simp_all del: upt_rec_numeral)
  have two: "length ?es2 = 256" "?es2 ! j = (if j = 0x80 then idt_set_handler (isr 0x80) 8 (interrupt_flags 3) (?es1 ! j) else ?es1 ! j)"
    using one assms by (simp_all add: nth_set_gate del: upt_rec_numeral)
  have "fill_idt isr irq es = fold (\<lambda>i. set_gate (32 + i) (irq i) (interrupt_flags 0)) [0..<16] ?es2"
    by (simp add: fill_idt_def Let_def del: upt_rec_numeral)
  then have "fill_idt isr irq es ! j = (if 32 \<le> j \<and> j < 48 then idt_set_handler (irq (j - 32)) 8 (interrupt_flags 0) (?es2 ! j) else ?es2 ! j)"
    using fold_set_gate [of 32 irq "interrupt_flags 0" 16 ?es2 j] two(1) assms(2) by (simp del: upt_rec_numeral)
  then show ?thesis unfolding two(2) one(2) by (auto simp: cpu_gate_set cpu_gate_zero)
qed

section \<open>The interrupt controllers\<close>

text \<open>
  An 8259 controller, as far as the kernel's writes go: a command with bit 4 set starts an
  initialisation of four words, of which the second is the vector base and the third the
  wiring of the slave; a write to the data port of a ready controller is the mask.
\<close>

datatype pic_phase = Ready | Icw2 | Icw3 | Icw4

record pic =
  pic_phase :: pic_phase
  vector_base :: u8
  cascade :: u8
  irq_mask :: u8

fun pic_write :: "u16 \<Rightarrow> u16 \<times> u8 \<Rightarrow> pic \<Rightarrow> pic" where
  "pic_write base (port, v) p =
     (if port = base then (if bit v 4 then p\<lparr>pic_phase := Icw2, irq_mask := 0\<rparr> else p)
      else if port = base + 1
      then (case pic_phase p of
              Ready \<Rightarrow> p\<lparr>irq_mask := v\<rparr>
            | Icw2 \<Rightarrow> p\<lparr>vector_base := v, pic_phase := Icw3\<rparr>
            | Icw3 \<Rightarrow> p\<lparr>cascade := v, pic_phase := Icw4\<rparr>
            | Icw4 \<Rightarrow> p\<lparr>pic_phase := Ready\<rparr>)
      else p)"

definition screen_ports :: "(u16 \<times> u8) list \<Rightarrow> bool" where
  "screen_ports ws \<longleftrightarrow> list_all (\<lambda>w. fst w = 0x3D4 \<or> fst w = 0x3D5) ws"

definition screen_output :: "'a ports_scheme \<Rightarrow> 'a ports_scheme \<Rightarrow> bool" where
  "screen_output s s' \<longleftrightarrow> (\<exists>ws. port_writes s' = port_writes s @ ws \<and> screen_ports ws)"

lemma screen_output_trans: "screen_output s s' \<Longrightarrow> screen_output s' s'' \<Longrightarrow> screen_output s s''"
  by (auto simp: screen_output_def screen_ports_def)

lemma put_chars_output: "screen_output s (put_chars attr cs s)"
proof (induction cs arbitrary: s)
  case (Cons c cs)
  have "screen_output s (monitor_put_attr c attr s)"
    using put_ports [of c attr s] by (auto simp: screen_output_def Let_def screen_ports_def)
  then show ?case using Cons screen_output_trans by fastforce
qed (simp add: screen_output_def screen_ports_def)

lemma status_output: "screen_output s (status txt success s)"
proof -
  let ?s0 = "s\<lparr>cur_x := word_of_int (80 - (int (length txt) + 2))\<rparr>"
  have "screen_output s ?s0" by (simp add: screen_output_def screen_ports_def)
  note out = screen_output_trans [OF this put_chars_output]
  have eq: "status txt success s = put_chars 7 [93] (put_chars (if success then 2 else 4) (ascii txt) (put_chars 7 [91] ?s0))"
    by (simp add: status_def monitor_put_def FB_ATTR_def COL_LTGREY_def COL_BLACK_def)
  show ?thesis unfolding eq
    by (rule screen_output_trans [OF screen_output_trans [OF out put_chars_output] put_chars_output])
qed

lemma pic_screen: "screen_ports ws \<Longrightarrow> base = 0x20 \<or> base = 0xA0 \<Longrightarrow> fold (pic_write base) ws p = p"
proof (induction ws arbitrary: p)
  case (Cons w ws)
  then have "pic_write base w p = p" by (cases w) (auto simp: screen_ports_def)
  then show ?case using Cons by (simp add: screen_ports_def)
qed simp

lemma remap_pic_writes:
  "port_writes (remap_pic s) = port_writes s @ [(0x20, 0x11), (0xA0, 0x11), (0x21, 32), (0xA1, 40),
     (0x21, 4), (0xA1, 2), (0x21, 1), (0xA1, 1), (0x21, 0), (0xA1, 0)]"
  by (simp add: remap_pic_def outb_def PIC_MASTER_LOW_INT_def PIC_SLAVE_LOW_INT_def)

lemma remap_pic_phases:
  "fold (pic_write 0x20) [(0x20, 0x11), (0xA0, 0x11), (0x21, 32), (0xA1, 40),
     (0x21, 4), (0xA1, 2), (0x21, 1), (0xA1, 1), (0x21, 0), (0xA1, 0)] p
     = p\<lparr>pic_phase := Ready, vector_base := 32, cascade := 4, irq_mask := 0\<rparr>"
  "fold (pic_write 0xA0) [(0x20, 0x11), (0xA0, 0x11), (0x21, 32), (0xA1, 40),
     (0x21, 4), (0xA1, 2), (0x21, 1), (0xA1, 1), (0x21, 0), (0xA1, 0)] p
     = p\<lparr>pic_phase := Ready, vector_base := 40, cascade := 2, irq_mask := 0\<rparr>"
  by simp_all

lemma idt_state_more:
  "monitor.more s' = monitor.more s \<Longrightarrow> idt_entries s' = idt_entries s \<and> idt_pointer s' = idt_pointer s
     \<and> idt_entries_addr s' = idt_entries_addr s \<and> isr_stub s' = isr_stub s \<and> irq_stub s' = irq_stub s
     \<and> idtr s' = idtr s \<and> interrupt_handlers s' = interrupt_handlers s"
  by (cases s, cases s') simp

text \<open>
  C25.  \<open>init_idt\<close> fills and loads the table: vectors 0 to 31 enter the exception stubs,
  32 to 47 the stubs of the 16 interrupt lines, 0x80 the system call stub, which alone
  user mode may call, and no other gate is present; all are 32-bit interrupt gates in
  the kernel's code segment.  Whatever state the two interrupt controllers were in, they end
  up initialised with the vectors 32 and 40, wired to each other by line 2, and unmasked.
\<close>

theorem init_idt_gates:
  assumes "length (idt_entries s) = 256"
  shows "\<exists>s' ws. init_idt s = Inr s' \<and> idtr s' = \<lparr>ip_size = 256 * 8 - 1, ip_entries_addr = idt_entries_addr s\<rparr>
    \<and> (\<forall>j < 256. cpu_gate (gate_bytes (idt_entries s' ! j)) =
         (if j < 32 then Some (isr_stub s j, 8, 0x0E, 0)
          else if j < 48 then Some (irq_stub s (j - 32), 8, 0x0E, 0)
          else if j = 0x80 then Some (isr_stub s 0x80, 8, 0x0E, 3) else None))
    \<and> port_writes s' = port_writes s @ ws
    \<and> (\<forall>p. fold (pic_write 0x20) ws p = p\<lparr>pic_phase := Ready, vector_base := 32, cascade := 4, irq_mask := 0\<rparr>)
    \<and> (\<forall>p. fold (pic_write 0xA0) ws p = p\<lparr>pic_phase := Ready, vector_base := 40, cascade := 2, irq_mask := 0\<rparr>)"
proof -
  let ?ptr = "\<lparr>ip_size = 2047, ip_entries_addr = idt_entries_addr s\<rparr>"
  define s1 where "s1 = s\<lparr>idt_pointer := ?ptr, idt_entries := fill_idt (isr_stub s) (irq_stub s) (idt_entries s)\<rparr>"
  define s2 where "s2 = put_chars 7 (ascii ''Loading a new IDT'') s1"
  define s3 where "s3 = status ''DONE'' True (idt_load (idt_pointer s2) s2)"
  define s4 where "s4 = put_chars 7 (ascii ''Remapping the PIC'') s3"
  define s5 where "s5 = status ''DONE'' True (remap_pic s4)"
  have "37 \<notin> set (ascii ''Loading a new IDT'')" "37 \<notin> set (ascii ''Remapping the PIC'')"
    "0 \<notin> set (ascii ''Loading a new IDT'')" "0 \<notin> set (ascii ''Remapping the PIC'')"
    by (simp_all add: ascii_def of_char_def)
  then have run: "init_idt s = Inr s5"
    by (simp add: init_idt_def say_plain s1_def s2_def s3_def s4_def s5_def Let_def sizeof_idt_entry_def)
  have m2: "monitor.more s2 = monitor.more s1" and m4: "monitor.more s4 = monitor.more s3" by (simp_all add: s2_def s4_def)
  have m3: "monitor.more s3 = monitor.more (idt_load (idt_pointer s2) s2)" by (simp add: s3_def)
  have "monitor.more (remap_pic s4) = monitor.more s4" by (cases s4) (simp add: remap_pic_def outb_def)
  then have m5: "monitor.more s5 = monitor.more s4" by (simp add: s5_def)
  have e: "idt_entries s5 = idt_entries s1" "idtr s5 = ?ptr"
    using idt_state_more [OF m2] idt_state_more [OF m3] idt_state_more [OF m4] idt_state_more [OF m5]
    by (simp_all add: idt_load_def s1_def)
  have "screen_output s1 s2" unfolding s2_def by (rule put_chars_output)
  moreover have "screen_output (idt_load (idt_pointer s2) s2) s3" unfolding s3_def by (rule status_output)
  moreover have "screen_output s3 s4" unfolding s4_def by (rule put_chars_output)
  ultimately have "screen_output s s4"
    by (auto simp: s1_def idt_load_def screen_output_def screen_ports_def)
  then obtain vs where vs: "port_writes s4 = port_writes s @ vs" "screen_ports vs" by (auto simp: screen_output_def)
  obtain us where us: "port_writes s5 = port_writes (remap_pic s4) @ us" "screen_ports us"
    using status_output [of "remap_pic s4" "''DONE''" True] by (auto simp: s5_def screen_output_def)
  let ?icw = "[(0x20, 0x11), (0xA0, 0x11), (0x21, 32), (0xA1, 40), (0x21, 4), (0xA1, 2), (0x21, 1), (0xA1, 1), (0x21, 0), (0xA1, 0)]"
  have ws: "port_writes s5 = port_writes s @ (vs @ ?icw @ us)" using vs us remap_pic_writes [of s4] by simp
  have pics: "fold (pic_write base) (vs @ ?icw @ us) p = fold (pic_write base) ?icw p" if "base = 0x20 \<or> base = 0xA0" for base p
    using pic_screen [OF vs(2) that] pic_screen [OF us(2) that] by (simp del: pic_write.simps)
  show ?thesis
    by (intro exI [of _ s5] exI [of _ "vs @ ?icw @ us"] conjI)
       (use run e ws fill_idt_gates [OF assms] pics remap_pic_phases in \<open>simp_all add: s1_def del: fold_append pic_write.simps fold.simps\<close>)
qed

section \<open>Dispatch\<close>

lemma received_text:
  assumes "number_chars v 10 SIGNED 0 = Some ds"
  shows "format_chars (ascii (''Received interrupt %d: %s'' @ [CHR 0x0A])) [Num v, Str nm]
    = Some (ascii ''Received interrupt '' @ ds @ ascii '': '' @ nm @ [10])"
  using assms
  by (simp add: ascii_def of_char_def is_digit_def directive_chars_def string_chars_def spaces_def has_flag_def LEFT_ALIGN_def)

lemma name_of_interrupt_text:
  assumes "unat n < 20"
  shows "\<exists>name. name_of_interrupt n = Inr name \<and> 0 \<notin> set (ascii name)"
proof -
  have "\<forall>name \<in> set interrupt_name. 0 \<notin> set (ascii (case name of None \<Rightarrow> default_interrupt_name | Some nm \<Rightarrow> nm))"
    by (simp add: interrupt_name_def ascii_def of_char_def default_interrupt_name_def)
  moreover have "length interrupt_name = 20" by (simp add: interrupt_name_def)
  ultimately show ?thesis using assms nth_mem [of "unat n" interrupt_name] by (simp add: name_of_interrupt_def)
qed

text \<open>
  An exception without a handler is reported on the screen with its number and
  name and the interrupted program goes on; a general protection fault stops the
  kernel.  A vector of 20 or more without a handler reads behind the array of names.
\<close>

lemma isr_without_handler:
  assumes "handler_of (int_no regs) s = Inr None"
  shows "(20 \<le> unat (int_no regs) \<longrightarrow> isr_common_handler call regs s = Inl OutOfBounds)
   \<and> (int_no regs = 13 \<longrightarrow> isr_common_handler call regs s = Inl (Panic ''General protection fault :(''))
   \<and> (unat (int_no regs) < 20 \<and> int_no regs \<noteq> 13 \<longrightarrow>
       (\<exists>ds name. name_of_interrupt (int_no regs) = Inr name \<and> number_value 10 ds = unat (int_no regs)
          \<and> isr_common_handler call regs s = Inr (regs, put_chars 7
              (ascii ''Received interrupt '' @ ds @ ascii '': '' @ ascii name @ [10]) s)))"
proof (cases "20 \<le> unat (int_no regs)")
  case True
  then have "name_of_interrupt (int_no regs) = Inl OutOfBounds"
    by (simp add: name_of_interrupt_def interrupt_name_def)
  moreover have "int_no regs \<noteq> 13" using True by auto
  ultimately show ?thesis using True by (simp add: isr_common_handler_def assms)
next
  case False
  then have lt: "unat (int_no regs) < 20" by simp
  then obtain ds where ds: "number_chars (int_no regs) 10 SIGNED 0 = Some ds" "number_value 10 ds = unat (int_no regs)" "0 \<notin> set ds"
    using decimal_chars [of "int_no regs"] by auto
  obtain name where name: "name_of_interrupt (int_no regs) = Inr name" "0 \<notin> set (ascii name)"
    using name_of_interrupt_text [OF lt] by blast
  have said: "say (''Received interrupt %d: %s'' @ [CHR 0x0A]) [Num (int_no regs), Str (ascii name)] s
      = Inr (put_chars 7 (ascii ''Received interrupt '' @ ds @ ascii '': '' @ ascii name @ [10]) s)"
    by (rule say_chars [OF received_text [OF ds(1)]]) (use ds(3) name(2) in \<open>simp add: ascii_def of_char_def\<close>)
  have "isr_common_handler call regs s = (if int_no regs = 13 then Inl (Panic ''General protection fault :('')
      else Inr (regs, put_chars 7 (ascii ''Received interrupt '' @ ds @ ascii '': '' @ ascii name @ [10]) s))"
    unfolding isr_common_handler_def assms bind_res_Inr option.case name said by simp
  then show ?thesis using lt ds(2) name by auto
qed

definition blank_idt :: idt_state where
  "blank_idt = gdt_state.extend blank_gdt
     \<lparr>idt_entries = replicate 256 zero_gate, idt_pointer = \<lparr>ip_size = 0, ip_entries_addr = 0\<rparr>,
      idt_entries_addr = 0x00107000, isr_stub = (\<lambda>i. 0x00100000 + 16 * of_nat i),
      irq_stub = (\<lambda>i. 0x00101000 + 16 * of_nat i), idtr = \<lparr>ip_size = 0, ip_entries_addr = 0\<rparr>,
      interrupt_handlers = replicate 256 None\<rparr>"

definition sample_regs :: "u32 \<Rightarrow> registers" where
  "sample_regs n = \<lparr>reg_ds = 0x10, reg_edi = 0, reg_esi = 0, reg_ebp = 0, reg_esp = 0, reg_ebx = 0, reg_edx = 0,
     reg_ecx = 0, reg_eax = 0, int_no = n, err_code = 0, reg_eip = 0x00100000, reg_cs = 0x08, reg_eflags = 0x202,
     reg_useresp = 0, reg_ss = 0x10\<rparr>"

lemma blank_idt_fields [simp]:
  "idt_entries blank_idt = replicate 256 zero_gate" "interrupt_handlers blank_idt = replicate 256 None"
  "irq_stub blank_idt = (\<lambda>i. 0x00101000 + 16 * of_nat i)"
  by (simp_all add: blank_idt_def gdt_state.extend_def)

theorem init_idt_gates_witness:
  "\<exists>s'. init_idt blank_idt = Inr s' \<and> cpu_gate (gate_bytes (idt_entries s' ! 33)) = Some (0x00101010, 8, 0x0E, 0)"
proof -
  have "length (idt_entries blank_idt) = 256" by simp
  from init_idt_gates [OF this] obtain s' where s': "init_idt blank_idt = Inr s'"
    "\<forall>j < 256. cpu_gate (gate_bytes (idt_entries s' ! j)) =
         (if j < 32 then Some (isr_stub blank_idt j, 8, 0x0E, 0)
          else if j < 48 then Some (irq_stub blank_idt (j - 32), 8, 0x0E, 0)
          else if j = 0x80 then Some (isr_stub blank_idt 0x80, 8, 0x0E, 3) else None)" by blast
  from spec [OF s'(2), of 33] show ?thesis using s'(1) by simp
qed

text \<open>
  After an interrupt request has been handled, the controllers are told so: the slave
  exactly when the request came from one of its lines, then the master.
\<close>

lemma irq_acknowledged:
  assumes "handler_of (int_no regs) s = Inr h"
    and "(case h of None \<Rightarrow> Inr (regs, s) | Some f \<Rightarrow> call f regs s) = r"
  shows "irq_common_handler call regs s = (case r of
      Inl e \<Rightarrow> Inl e
    | Inr (regs', s') \<Rightarrow> Inr (regs', s'\<lparr>port_writes := port_writes s'
          @ (if 40 \<le> unat (int_no regs') then [(0xA0, 0x20)] else []) @ [(0x20, 0x20)]\<rparr>))"
  using assms
  by (cases r) (auto simp: irq_common_handler_def outb_def PIC_SLAVE_LOW_INT_def word_le_nat_alt Let_def split: option.splits)

end
