(* ===== verification/Paging.thy ===== *)
theory Paging
  imports Kmalloc Idt
begin

text \<open>
  Address spaces: the rest of \<open>src/src/mm/paging.c\<close>.  The state adds to the memory
  manager's the memory behind private pages, by physical address, and the control registers;
  \<open>translation\<close> is the directory whose tables \<open>cr3\<close> selects (\<open>current_directory\<close> is the
  kernel's variable, which \<open>task_switch\<close> leaves alone).  The kernel's own tables are shared by
  every directory, so its virtual memory is the one \<open>mem\<close> of \<open>mm_state\<close>; a page whose table
  this directory does not share with the kernel's, and the page at \<open>PAGE_CLONING_BUFFER\<close>, are
  read and written through their entries in \<open>physical\<close>.  \<open>invlpg\<close> has no effect here:
  translations are not cached.  The first argument \<open>d\<close> is the depth of \<open>kmalloc\<close>.
\<close>

record vm_state = idt_state +
  mm :: mm_state
  physical :: memory
  cr2 :: u32
  cr3 :: u32
  cr0 :: u32
  translation :: u32

definition PAGE_CLONING_BUFFER :: u32 where "PAGE_CLONING_BUFFER = 0xF0000000"
definition CR0_PG_BIT :: u32 where "CR0_PG_BIT = 0x80000000"

text \<open>Output changes none of it.\<close>

lemma vm_state_more:
  "monitor.more s' = monitor.more s \<Longrightarrow> mm s' = mm s \<and> physical s' = physical s \<and> translation s' = translation s
     \<and> cr2 s' = cr2 s \<and> cr3 s' = cr3 s \<and> cr0 s' = cr0 s \<and> vm_state.more s' = vm_state.more s"
  by (cases s, cases s') simp

text \<open>Operations of the memory manager on the whole state.\<close>

definition with_mm :: "(mm_state \<Rightarrow> ('r \<times> mm_state) res) \<Rightarrow> 'a vm_state_scheme \<Rightarrow> ('r \<times> 'a vm_state_scheme) res" where
  "with_mm f s = bind_res (f (mm s)) (\<lambda>(x, m). Inr (x, s\<lparr>mm := m\<rparr>))"

definition update_mem :: "(memory \<Rightarrow> memory) \<Rightarrow> 'a vm_state_scheme \<Rightarrow> 'a vm_state_scheme" where
  "update_mem f s = s\<lparr>mm := (mm s)\<lparr>mem := f (mem (mm s))\<rparr>\<rparr>"

abbreviation kload :: "'a vm_state_scheme \<Rightarrow> u32 \<Rightarrow> u32" where
  "kload s \<equiv> load32 (mem (mm s))"

section \<open>Virtual memory\<close>

definition table_of :: "'a vm_state_scheme \<Rightarrow> u32 \<Rightarrow> u32 \<Rightarrow> u32" where
  "table_of s dir a = kload s (dir_table dir (a div PAGE_SIZE div PAGES_PER_TABLE))"

definition in_window :: "u32 \<Rightarrow> bool" where
  "in_window a \<longleftrightarrow> a div PAGE_SIZE = PAGE_CLONING_BUFFER div PAGE_SIZE"

definition frame_behind :: "u32 \<Rightarrow> u32 \<Rightarrow> u32" where
  "frame_behind entry a = page_address entry * PAGE_SIZE + a mod PAGE_SIZE"

definition virtual_byte :: "'a vm_state_scheme \<Rightarrow> u32 \<Rightarrow> u8 res" where
  "virtual_byte s a =
     (let t = table_of s (translation s) a
      in if in_window a then Inr (physical s (frame_behind (kload s (cloning_buffer_page (mm s))) a))
         else if t = table_of s (kernel_directory (mm s)) a then Inr (mem (mm s) a)
         else if t = 0 then Inl (Panic ''Page fault!'')
         else let e = kload s (page_entry t (a div PAGE_SIZE mod PAGES_PER_TABLE))
              in if page_present e then Inr (physical s (frame_behind e a)) else Inl (Panic ''Page fault!''))"

text \<open>
  \<open>memcpy\<close> to the page at \<open>PAGE_CLONING_BUFFER\<close>, from the offset \<open>off\<close> on.
\<close>

fun window_copy :: "nat \<Rightarrow> u32 \<Rightarrow> u32 \<Rightarrow> 'a vm_state_scheme \<Rightarrow> 'a vm_state_scheme res" where
  "window_copy 0 off src s = Inr s"
| "window_copy (Suc n) off src s =
     (if off \<ge> PAGE_SIZE then Inl OutOfBounds
      else bind_res (virtual_byte s src) (\<lambda>b.
           window_copy n (off + 1) (src + 1)
             (s\<lparr>physical := (physical s)(page_address (kload s (cloning_buffer_page (mm s))) * PAGE_SIZE + off := b)\<rparr>)))"

definition map_window :: "u32 \<Rightarrow> 'a vm_state_scheme \<Rightarrow> 'a vm_state_scheme res" where
  "map_window dest_physical s =
     (let page = cloning_buffer_page (mm s)
      in if page = 0 then Inl NullDereference
         else Inr (update_mem (\<lambda>m. store32 m page
                (set_flag 0 True (set_page_address (dest_physical div PAGE_SIZE) (load32 m page)))) s))"

definition clone_page_to_physical :: "u32 \<Rightarrow> u32 \<Rightarrow> 'a vm_state_scheme \<Rightarrow> 'a vm_state_scheme res" where
  "clone_page_to_physical src_virtual dest_physical s =
     bind_res (map_window dest_physical s) (window_copy (unat PAGE_SIZE) 0 src_virtual)"

definition mm_memcpy_physical :: "u32 \<Rightarrow> u32 \<Rightarrow> u32 \<Rightarrow> 'a vm_state_scheme \<Rightarrow> 'a vm_state_scheme res" where
  "mm_memcpy_physical dest_physical src sz s =
     (if (dest_physical AND 0x0FFF) + sz > 0x1000
      then Inl (Panic ''mm_memcpy_physical() has not been implemented properly'')
      else bind_res (map_window dest_physical s)
             (window_copy (unat sz) (dest_physical AND 0x0FFF) src))"

definition switch_page_directory :: "u32 \<Rightarrow> 'a vm_state_scheme \<Rightarrow> 'a vm_state_scheme" where
  "switch_page_directory dir s =
     s\<lparr>mm := (mm s)\<lparr>current_directory := dir\<rparr>, cr3 := kload s (dir_ismeta dir), cr0 := cr0 s OR CR0_PG_BIT,
       translation := dir\<rparr>"

section \<open>Cloning\<close>

text \<open>The loop of \<open>clone_table\<close>; the first argument is the number of entries left.\<close>

fun clone_pages :: "nat \<Rightarrow> u32 \<Rightarrow> u32 \<Rightarrow> u32 \<Rightarrow> 'a vm_state_scheme \<Rightarrow> 'a vm_state_scheme res" where
  "clone_pages 0 table_index src dest s = Inr s"
| "clone_pages (Suc k) table_index src dest s =
     (let i = PAGES_PER_TABLE - of_nat (Suc k);
          sp = kload s (page_entry src i);
          dp = page_entry dest i
      in if page_address sp \<noteq> 0
         then bind_res (with_mm (\<lambda>m. bind_res (page_alloc m dp (of_bool (\<not> page_user_mode sp))
                                      (of_bool (page_writeable sp))) (\<lambda>m'. Inr ((), m'))) s) (\<lambda>(_, s1).
              let page_index = table_index * PAGES_PER_TABLE + i
              in bind_res (clone_page_to_physical (page_index * PAGE_SIZE)
                             (page_address (kload s1 dp) * PAGE_SIZE) s1)
                   (clone_pages k table_index src dest))
         else clone_pages k table_index src dest s)"

definition clone_table :: "nat \<Rightarrow> u32 \<Rightarrow> u32 \<Rightarrow> 'a vm_state_scheme \<Rightarrow> ((u32 \<times> u32) \<times> 'a vm_state_scheme) res" where
  "clone_table d table_index src s =
     bind_res (with_mm (\<lambda>m. kmalloc_ap d m sizeof_page_table) s) (\<lambda>((dest, phys), s1).
     bind_res (clone_pages (unat PAGES_PER_TABLE) table_index src dest
                 (update_mem (\<lambda>m. memset m dest 0 sizeof_page_table) s1)) (\<lambda>s2.
       Inr ((dest, phys), s2)))"

fun clone_tables :: "nat \<Rightarrow> nat \<Rightarrow> u32 \<Rightarrow> u32 \<Rightarrow> 'a vm_state_scheme \<Rightarrow> 'a vm_state_scheme res" where
  "clone_tables 0 d src dir s = Inr s"
| "clone_tables (Suc k) d src dir s =
     (let i = TABLES_PER_DIRECTORY - of_nat (Suc k);
          table = kload s (dir_table src i)
      in if table = 0 then clone_tables k d src dir s
         else if kload s (dir_table (kernel_directory (mm s)) i) = table
         then clone_tables k d src dir
                (update_mem (\<lambda>m. let m1 = store32 m (dir_table dir i) table
                                  in store32 m1 (dir_table_physical dir i) (load32 m1 (dir_table_physical src i))) s)
         else bind_res (say (''Clone!'' @ [CHR 0x0A]) [] s) (\<lambda>s1.
              bind_res (clone_table d i table s1) (\<lambda>((dest, phys), s2).
                clone_tables k d src dir
                  (update_mem (\<lambda>m. store32 (store32 m (dir_table dir i) dest) (dir_table_physical dir i) (phys OR 7)) s2))))"

definition clone_directory :: "nat \<Rightarrow> u32 \<Rightarrow> 'a vm_state_scheme \<Rightarrow> (u32 \<times> 'a vm_state_scheme) res" where
  "clone_directory d src s =
     bind_res (with_mm (\<lambda>m. kmalloc_ap d m sizeof_page_directory) s) (\<lambda>((dir, phys), s1).
     let offset = dir_table_physical dir 0 - dir;
         s2 = update_mem (\<lambda>m. store32 (memset m dir 0 sizeof_page_directory) (dir_ismeta dir) (phys + offset)) s1
     in bind_res (clone_tables (unat TABLES_PER_DIRECTORY) d src dir s2) (\<lambda>s3. Inr (dir, s3)))"

section \<open>Setting paging up\<close>

text \<open>The loops over the pages of the heap: \<open>n\<close> pages from \<open>a\<close> on.\<close>

fun heap_tables :: "nat \<Rightarrow> nat \<Rightarrow> u32 \<Rightarrow> mm_state \<Rightarrow> mm_state res" where
  "heap_tables 0 d a m = Inr m"
| "heap_tables (Suc n) d a m =
     bind_res (get_page (\<lambda>sz m. kmalloc_ap d m sz) m a True (kernel_directory m)) (\<lambda>(_, m1).
       heap_tables n d (a + PAGE_SIZE) m1)"

fun heap_frames :: "nat \<Rightarrow> nat \<Rightarrow> u32 \<Rightarrow> mm_state \<Rightarrow> mm_state res" where
  "heap_frames 0 d a m = Inr m"
| "heap_frames (Suc n) d a m =
     bind_res (get_page (\<lambda>sz m. kmalloc_ap d m sz) m a False (kernel_directory m)) (\<lambda>(page, m1).
     bind_res (page_alloc m1 page 0 1) (heap_frames n d (a + PAGE_SIZE)))"

definition identity_page :: "nat \<Rightarrow> u32 \<Rightarrow> mm_state \<Rightarrow> mm_state res" where
  "identity_page d i m =
     bind_res (get_page (\<lambda>sz m. kmalloc_ap d m sz) m i True (kernel_directory m)) (\<lambda>(page, m1).
     bind_res (page_alloc m1 page 0 1) (\<lambda>m2.
     bind_res (assert_k (page_address (load32 (mem m2) page) = i div PAGE_SIZE)
                (''Cannot identity-map lower memory'' @ [CHR 0x0A])) (\<lambda>_. Inr m2)))"

text \<open>The bound of this loop moves up while it runs: a new table takes a page.\<close>

partial_function (option) identity_map :: "nat \<Rightarrow> u32 \<Rightarrow> mm_state \<Rightarrow> mm_state res option" where
  "identity_map d i m =
     (if i < mem_first_unused m + PAGE_SIZE * 4
      then case identity_page d i m of
             Inl e \<Rightarrow> Some (Inl e)
           | Inr m' \<Rightarrow> identity_map d (i + PAGE_SIZE) m'
      else Some (Inr m))"

definition map_kernel :: "nat \<Rightarrow> mm_state \<Rightarrow> mm_state res option" where
  "map_kernel d m =
     (case bind_res (kmalloc_ap d m sizeof_page_directory) (\<lambda>((dir, phys), m1).
             let offset = dir_table_physical dir 0 - dir
             in heap_tables 16 d KHEAP_START
                  (m1\<lparr>kernel_directory := dir,
                      mem := store32 (memset (mem m1) dir 0 sizeof_page_directory) (dir_ismeta dir) (phys + offset)\<rparr>)) of
        Inl e \<Rightarrow> Some (Inl e)
      | Inr m2 \<Rightarrow> map_option (\<lambda>r. bind_res r (\<lambda>m3.
           bind_res (heap_frames 16 d KHEAP_START m3) (\<lambda>m4.
           bind_res (get_page (\<lambda>sz m. kmalloc_ap d m sz) m4 PAGE_CLONING_BUFFER True (kernel_directory m4)) (\<lambda>(page, m5).
             page_alloc (m5\<lparr>cloning_buffer_page := page\<rparr>) page 1 1))))
           (identity_map d 0 m2))"

definition init_paging :: "nat \<Rightarrow> 'a vm_state_scheme \<Rightarrow> 'a vm_state_scheme res option" where
  "init_paging d s =
     map_option (\<lambda>r. bind_res r (\<lambda>m.
       bind_res (say ''Enabling paging'' [] (s\<lparr>mm := m\<rparr>)) (\<lambda>s1.
       bind_res (isr_register_handler PAGE_FAULT_ISR Page_Fault_Handler s1) (\<lambda>s2.
       let s3 = status ''DONE'' True (switch_page_directory (kernel_directory (mm s2)) s2)
       in bind_res (say ''Setting up the heap'' [] s3) (\<lambda>s4.
          bind_res (with_mm (\<lambda>m. heap_create d m KHEAP_START (KHEAP_START + KHEAP_INITIAL_SIZE) KHEAP_MAX_ADDRESS 0 1) s4) (\<lambda>(heap, s5).
          let s6 = status ''DONE'' True (s5\<lparr>mm := (mm s5)\<lparr>kernel_heap := heap\<rparr>\<rparr>)
          in bind_res (say ''Trying to clone the page directory'' [] s6) (\<lambda>s7.
             bind_res (clone_directory d (kernel_directory (mm s7)) s7) (\<lambda>(dir, s8).
               Inr (status ''DONE'' True (switch_page_directory dir s8))))))))))
       (map_kernel d (mm s))"

definition page_fault_report :: "registers \<Rightarrow> 'a vm_state_scheme \<Rightarrow> 'a vm_state_scheme res" where
  "page_fault_report regs s =
     (let pick = (\<lambda>n a b. Str (ascii (if bit (err_code regs) n then a else b)))
      in bind_res (say (''Page-fault: page %spresent; failed on %s in %s-mode at 0x%08x'' @ [CHR 0x0A])
                [pick 0 [] ''NOT '', pick 1 ''write'' ''read'', pick 2 ''user'' ''kernel'', Num (cr2 s)] s) (\<lambda>s1.
         bind_res (if bit (err_code regs) 3 then say (''Also trampled reserved bits'' @ [CHR 0x0A]) [] s1 else Inr s1) (\<lambda>s2.
         bind_res (if bit (err_code regs) 4 then say (''Error occurred during op-fetch'' @ [CHR 0x0A]) [] s2 else Inr s2) (\<lambda>s3.
           say (''At eip=%p'' @ [CHR 0x0A]) [Num (reg_eip regs)] s3))))"

definition page_fault_handler :: "registers \<Rightarrow> 'a vm_state_scheme \<Rightarrow> (registers \<times> 'a vm_state_scheme) res" where
  "page_fault_handler regs s = bind_res (page_fault_report regs s) (\<lambda>_. Inl (Panic ''Page fault!''))"

section \<open>The cloning window\<close>

lemma with_mm_state [simp]: "mm (update_mem f s) = (mm s)\<lparr>mem := f (mem (mm s))\<rparr>"
  "physical (update_mem f s) = physical s" "translation (update_mem f s) = translation s"
  by (simp_all add: update_mem_def)

text \<open>A byte of the kernel's own memory, whose lookup the window's page entry does not change.\<close>

definition kernel_byte :: "'a vm_state_scheme \<Rightarrow> u32 \<Rightarrow> bool" where
  "kernel_byte s a \<longleftrightarrow> \<not> in_window a
     \<and> table_of s (translation s) a = table_of s (kernel_directory (mm s)) a
     \<and> a \<notin> bytes (cloning_buffer_page (mm s)) 4
     \<and> (\<forall>dir \<in> {translation s, kernel_directory (mm s)}.
          bytes (dir_table dir (a div PAGE_SIZE div PAGES_PER_TABLE)) 4 \<inter> bytes (cloning_buffer_page (mm s)) 4 = {})"

lemma read_bytes_Suc: "read_bytes m p (Suc n) = m p # read_bytes m (p + 1) n"
proof -
  have "[0..<Suc n] = 0 # map Suc [0..<n]" by (simp add: map_Suc_upt upt_conv_Cons del: upt_Suc)
  then show ?thesis by (simp add: read_bytes_def add.assoc o_def del: upt_Suc)
qed

lemma window_copy_kernel:
  "\<forall>k < n. virtual_byte s (src + of_nat k) = Inr (mem (mm s) (src + of_nat k))
       \<and> \<not> in_window (src + of_nat k)
       \<and> table_of s (translation s) (src + of_nat k) = table_of s (kernel_directory (mm s)) (src + of_nat k) \<Longrightarrow>
   unat off + n \<le> 4096 \<Longrightarrow>
   window_copy n off src s = Inr (s\<lparr>physical := fst (store_bytes (physical s)
      (page_address (kload s (cloning_buffer_page (mm s))) * PAGE_SIZE + off) (read_bytes (mem (mm s)) src n))\<rparr>)"
proof (induction n arbitrary: off src s)
  case 0
  then show ?case by (simp add: read_bytes_def)
next
  case (Suc n)
  let ?p = "page_address (kload s (cloning_buffer_page (mm s))) * PAGE_SIZE"
  let ?s = "s\<lparr>physical := (physical s)(?p + off := mem (mm s) src)\<rparr>"
  have b: "virtual_byte s src = Inr (mem (mm s) src)" using Suc.prems(1) [rule_format, of 0] by simp
  have off: "\<not> off \<ge> PAGE_SIZE" "unat (off + 1) = unat off + 1"
    using Suc.prems(2) by (simp_all add: PAGE_SIZE_def word_le_nat_alt unat_add32)
  have rest: "virtual_byte ?s (src + 1 + of_nat k) = Inr (mem (mm ?s) (src + 1 + of_nat k))
       \<and> \<not> in_window (src + 1 + of_nat k)
       \<and> table_of ?s (translation ?s) (src + 1 + of_nat k) = table_of ?s (kernel_directory (mm ?s)) (src + 1 + of_nat k)"
    if "k < n" for k
    using Suc.prems(1) [rule_format, of "Suc k"] that
    by (simp add: virtual_byte_def table_of_def add.assoc Let_def)
  define new where "new = (physical s)(?p + off := mem (mm s) src)"
  have "window_copy n (off + 1) (src + 1) (s\<lparr>physical := new\<rparr>) = Inr (s\<lparr>physical := fst (store_bytes new
      (?p + off + 1) (read_bytes (mem (mm s)) (src + 1) n))\<rparr>)"
    using Suc.IH [of "s\<lparr>physical := new\<rparr>" "src + 1" "off + 1"] rest [folded new_def] Suc.prems(2) off(2)
    by (simp add: add.assoc)
  then show ?case using off(1) b unfolding new_def by (simp add: read_bytes_Suc)
qed

lemma map_window_ok:
  assumes "cloning_buffer_page (mm s) \<noteq> 0"
  shows "\<exists>w. map_window dest s = Inr (update_mem (\<lambda>m. store32 m (cloning_buffer_page (mm s)) w) s)
    \<and> page_present w \<and> page_address w = dest div PAGE_SIZE"
proof -
  let ?w = "set_flag 0 True (set_page_address (dest div PAGE_SIZE) (kload s (cloning_buffer_page (mm s))))"
  have "unat dest div 4096 < 1048576" using unat_lt_32 [of dest] by linarith
  then have "take_bit 20 (dest div PAGE_SIZE) = dest div PAGE_SIZE"
    by (intro take_bit_20_small) (simp add: PAGE_SIZE_def unat_div)
  then have "page_present ?w \<and> page_address ?w = dest div PAGE_SIZE" by simp
  moreover have "map_window dest s = Inr (update_mem (\<lambda>m. store32 m (cloning_buffer_page (mm s)) ?w) s)"
    using assms by (simp add: map_window_def Let_def update_mem_def)
  ultimately show ?thesis by blast
qed

lemma page_and_offset: "x div PAGE_SIZE * PAGE_SIZE + (x AND 0x0FFF) = (x :: u32)"
  "unat (x AND 0x0FFF) = unat x mod 4096"
proof -
  have m: "(0x0FFF :: u32) = mask 12" by (simp add: mask_eq_exp_minus_1)
  have a: "x AND 0x0FFF = x mod 4096" unfolding m by (simp only: take_bit_eq_mask [symmetric] take_bit_eq_mod) simp
  then show "unat (x AND 0x0FFF) = unat x mod 4096" by simp
  show "x div PAGE_SIZE * PAGE_SIZE + (x AND 0x0FFF) = x" unfolding a PAGE_SIZE_def by (rule div_mult_mod_eq)
qed

lemma kernel_byte_window:
  assumes "kernel_byte s a" "s' = update_mem (\<lambda>m. store32 m (cloning_buffer_page (mm s)) w) s"
  shows "virtual_byte s' a = Inr (mem (mm s) a)" "\<not> in_window a"
    "table_of s' (translation s') a = table_of s' (kernel_directory (mm s')) a"
proof -
  have t: "table_of s' dir a = table_of s dir a" if "dir \<in> {translation s, kernel_directory (mm s)}" for dir
  proof -
    have "bytes (cloning_buffer_page (mm s)) 4 \<inter> bytes (dir_table dir (a div PAGE_SIZE div PAGES_PER_TABLE)) 4 = {}"
      using assms(1) that unfolding kernel_byte_def by blast
    from load32_store32_apart [OF this] show ?thesis by (simp add: table_of_def assms(2))
  qed
  have dirs: "translation s' = translation s" "kernel_directory (mm s') = kernel_directory (mm s)"
    by (simp_all add: assms(2))
  show "table_of s' (translation s') a = table_of s' (kernel_directory (mm s')) a"
    using t assms(1) unfolding dirs kernel_byte_def by simp
  moreover show "\<not> in_window a" using assms(1) by (simp add: kernel_byte_def)
  moreover have "mem (mm s') a = mem (mm s) a"
    using assms(1) store32_outside [of a "cloning_buffer_page (mm s)"] by (simp add: assms(2) kernel_byte_def)
  ultimately show "virtual_byte s' a = Inr (mem (mm s) a)" by (simp add: virtual_byte_def Let_def)
qed

lemma read_bytes_cong: "(\<And>k. k < n \<Longrightarrow> m' (p + of_nat k) = m (p + of_nat k)) \<Longrightarrow> read_bytes m' p n = read_bytes m p n"
  by (simp add: read_bytes_def)

lemma mm_memcpy_physical_ok:
  assumes "cloning_buffer_page (mm s) \<noteq> 0" "unat dest mod 4096 + unat sz \<le> 4096"
    and "\<forall>k < unat sz. kernel_byte s (src + of_nat k)"
  shows "\<exists>s' w. mm_memcpy_physical dest src sz s = Inr s'
    \<and> (\<forall>x. physical s' x = (if x \<in> bytes dest (unat sz) then mem (mm s) (src + (x - dest)) else physical s x))
    \<and> mm s' = (mm s)\<lparr>mem := store32 (mem (mm s)) (cloning_buffer_page (mm s)) w\<rparr>
    \<and> page_present w \<and> page_address w = dest div PAGE_SIZE \<and> s' = s\<lparr>mm := mm s', physical := physical s'\<rparr>"
proof -
  obtain w where w: "map_window dest s = Inr (update_mem (\<lambda>m. store32 m (cloning_buffer_page (mm s)) w) s)"
    "page_present w" "page_address w = dest div PAGE_SIZE" using map_window_ok [OF assms(1)] by blast
  define s1 where "s1 = update_mem (\<lambda>m. store32 m (cloning_buffer_page (mm s)) w) s"
  let ?bs = "read_bytes (mem (mm s)) src (unat sz)"
  have k: "virtual_byte s1 (src + of_nat k) = Inr (mem (mm s1) (src + of_nat k))"
    "mem (mm s1) (src + of_nat k) = mem (mm s) (src + of_nat k)" "\<not> in_window (src + of_nat k)"
    "table_of s1 (translation s1) (src + of_nat k) = table_of s1 (kernel_directory (mm s1)) (src + of_nat k)"
    if "k < unat sz" for k
  proof -
    note b = assms(3) [rule_format, OF that]
    show same: "mem (mm s1) (src + of_nat k) = mem (mm s) (src + of_nat k)"
      using b store32_outside by (simp add: s1_def kernel_byte_def)
    show "virtual_byte s1 (src + of_nat k) = Inr (mem (mm s1) (src + of_nat k))"
      unfolding same by (rule kernel_byte_window(1) [OF b s1_def])
    show "\<not> in_window (src + of_nat k)" by (rule kernel_byte_window(2) [OF b s1_def])
    show "table_of s1 (translation s1) (src + of_nat k) = table_of s1 (kernel_directory (mm s1)) (src + of_nat k)"
      by (rule kernel_byte_window(3) [OF b s1_def])
  qed
  have entry: "kload s1 (cloning_buffer_page (mm s1)) = w" by (simp add: s1_def)
  have "read_bytes (mem (mm s1)) src (unat sz) = ?bs" by (rule read_bytes_cong) (rule k(2))
  then have "window_copy (unat sz) (dest AND 0x0FFF) src s1
      = Inr (s1\<lparr>physical := fst (store_bytes (physical s) dest ?bs)\<rparr>)"
    using window_copy_kernel [of "unat sz" s1 src "dest AND 0x0FFF"] k assms(2) w(3)
    by (simp add: entry page_and_offset s1_def)
  moreover have "\<not> (dest AND 0x0FFF) + sz > 0x1000"
    using assms(2) by (simp add: word_less_nat_alt not_less unat_add32 page_and_offset(2))
  ultimately have run: "mm_memcpy_physical dest src sz s = Inr (s1\<lparr>physical := fst (store_bytes (physical s) dest ?bs)\<rparr>)"
    unfolding mm_memcpy_physical_def w(1) s1_def by simp
  have "fst (store_bytes (physical s) dest ?bs) x
      = (if x \<in> bytes dest (unat sz) then mem (mm s) (src + (x - dest)) else physical s x)" for x
    by (simp add: store_bytes_apply read_bytes_def)
  then show ?thesis using run w(2,3) by (intro exI [of _ "s1\<lparr>physical := fst (store_bytes (physical s) dest ?bs)\<rparr>"] exI [of _ w])
      (simp add: s1_def update_mem_def)
qed


text \<open>A state with one directory, of no tables yet.\<close>

definition blank_vm :: vm_state where
  "blank_vm = idt_state.extend blank_idt
     \<lparr>mm = sample_frames\<lparr>kernel_directory := 0x4000, current_directory := 0x4000, cloning_buffer_page := 0x8000\<rparr>,
      physical = (\<lambda>_. 0), cr2 = 0, cr3 = 0, cr0 = 0, translation = 0x4000\<rparr>"

lemma blank_vm_fields [simp]:
  "mm blank_vm = sample_frames\<lparr>kernel_directory := 0x4000, current_directory := 0x4000, cloning_buffer_page := 0x8000\<rparr>"
  "physical blank_vm = (\<lambda>_. 0)" "translation blank_vm = 0x4000"
  by (simp_all add: blank_vm_def idt_state.extend_def)


section \<open>Cloning the kernel's directory\<close>

text \<open>The entry \<open>i\<close> of the clone, when the source has no private tables.\<close>

definition share_slot :: "u32 \<Rightarrow> u32 \<Rightarrow> nat \<Rightarrow> memory \<Rightarrow> memory" where
  "share_slot src dir i m =
     (if load32 m (dir_table src (of_nat i)) = 0 then m
      else store32 (store32 m (dir_table dir (of_nat i)) (load32 m (dir_table src (of_nat i))))
             (dir_table_physical dir (of_nat i))
             (load32 (store32 m (dir_table dir (of_nat i)) (load32 m (dir_table src (of_nat i))))
               (dir_table_physical src (of_nat i))))"

lemma slot_within:
  "slot \<in> {dir_table, dir_table_physical} \<Longrightarrow> i < 1024 \<Longrightarrow> bytes (slot dir (of_nat i)) 4 \<subseteq> bytes dir 8192"
  using elem_bytes [of i 2048 dir] elem_bytes [of "1024 + i" 2048 dir]
  by (auto simp: dir_table_def dir_table_physical_def algebra_simps simp del: in_bytes)

text \<open>Directories that do not overlap.\<close>

definition dirs_apart :: "u32 \<Rightarrow> u32 \<Rightarrow> bool" where
  "dirs_apart a b \<longleftrightarrow> unat a + 8196 \<le> 4294967296 \<and> unat b + 8196 \<le> 4294967296
     \<and> (unat a + 8196 \<le> unat b \<or> unat b + 8196 \<le> unat a)"

lemma dirs_apart_bytes:
  assumes "dirs_apart a b"
  shows "bytes a 8192 \<inter> bytes b 8196 = {}"
proof -
  have "unat a + 8192 \<le> unat b \<or> unat b + 8196 \<le> unat a" using assms unfolding dirs_apart_def by linarith
  then show ?thesis using bytes_disjoint_nat [of "unat a" 8192 "unat b" 8196] assms by (simp add: dirs_apart_def)
qed

lemma slot_other_dir:
  assumes "dirs_apart src dir" "slot \<in> {dir_table, dir_table_physical}" "i < 1024"
    and "\<And>x. x \<notin> bytes dir 8196 \<Longrightarrow> m' x = m x"
  shows "load32 m' (slot src (of_nat i)) = load32 m (slot src (of_nat i))"
  using slot_within [OF assms(2,3), of src] dirs_apart_bytes [OF assms(1)] assms(4) by (intro load32_cong) blast

lemma share_slot_outside:
  assumes "i < 1024" "x \<notin> bytes dir 8196"
  shows "share_slot src dir i m x = m x"
proof -
  have "x \<notin> bytes dir 8192" using assms(2) by simp
  then have "x \<notin> bytes (dir_table dir (of_nat i)) 4" "x \<notin> bytes (dir_table_physical dir (of_nat i)) 4"
    using slot_within [OF _ assms(1), of _ dir] by blast+
  then show ?thesis by (simp add: share_slot_def store32_outside)
qed

text \<open>A source whose tables are the kernel's.\<close>

definition shares_kernel :: "u32 \<Rightarrow> mm_state \<Rightarrow> bool" where
  "shares_kernel src m \<longleftrightarrow> (\<forall>i < 1024. load32 (mem m) (dir_table src (of_nat i)) = load32 (mem m) (dir_table (kernel_directory m) (of_nat i)))"

lemma shares_kernel_self [simp]: "shares_kernel (kernel_directory m) m"
  by (simp add: shares_kernel_def)

lemma clone_tables_kernel:
  "k \<le> 1024 \<Longrightarrow> shares_kernel src (mm s) \<Longrightarrow> dirs_apart src dir \<Longrightarrow> dirs_apart (kernel_directory (mm s)) dir \<Longrightarrow>
     clone_tables k d src dir s = Inr (update_mem (\<lambda>m. fold (share_slot src dir) [1024 - k..<1024] m) s)"
proof (induction k arbitrary: s)
  case 0
  then show ?case by (simp add: update_mem_def)
next
  case (Suc k)
  let ?i = "1024 - Suc k" and ?kd = "kernel_directory (mm s)"
  let ?s = "update_mem (\<lambda>m. share_slot src dir ?i m) s"
  have i: "TABLES_PER_DIRECTORY - of_nat (Suc k) = of_nat ?i" "?i < 1024"
    using Suc.prems(1) by (simp_all add: TABLES_PER_DIRECTORY_def)
  have range: "[?i..<1024] = ?i # [1024 - k..<1024]"
  proof -
    have "Suc ?i = 1024 - k" using Suc.prems(1) by simp
    then show ?thesis using upt_conv_Cons [of ?i 1024] i(2) by simp
  qed
  have up: "?s = (if kload s (dir_table src (of_nat ?i)) = 0 then s
     else update_mem (\<lambda>m. let m1 = store32 m (dir_table dir (of_nat ?i)) (kload s (dir_table src (of_nat ?i)))
            in store32 m1 (dir_table_physical dir (of_nat ?i)) (load32 m1 (dir_table_physical src (of_nat ?i)))) s)"
    by (simp add: update_mem_def share_slot_def Let_def del: of_nat_diff)
  have "kload s (dir_table ?kd (of_nat ?i)) = kload s (dir_table src (of_nat ?i))"
    using Suc.prems(2) i(2) by (simp add: shares_kernel_def del: of_nat_diff)
  then have step: "clone_tables (Suc k) d src dir s = clone_tables k d src dir ?s"
    unfolding up clone_tables.simps i(1) Let_def by simp
  have out: "mem (mm ?s) x = mem (mm s) x" if "x \<notin> bytes dir 8196" for x
    using share_slot_outside [OF i(2) that] by simp
  have "kload ?s (dir_table b (of_nat j)) = kload s (dir_table b (of_nat j))" if "j < 1024" "b \<in> {src, ?kd}" for b j
    using that Suc.prems(3,4) by (intro slot_other_dir [OF _ _ that(1) out]) auto
  then have "shares_kernel src (mm ?s)" using Suc.prems(2) by (simp add: shares_kernel_def)
  then have "clone_tables k d src dir ?s
      = Inr (update_mem (\<lambda>m. fold (share_slot src dir) [1024 - k..<1024] m) ?s)"
    using Suc.IH [of ?s] Suc.prems by simp
  then show ?case unfolding step range by (simp add: update_mem_def del: upt_rec_numeral)
qed

definition shared :: "memory \<Rightarrow> u32 \<Rightarrow> nat \<Rightarrow> (u32 \<Rightarrow> u32 \<Rightarrow> u32) \<Rightarrow> u32" where
  "shared m src i slot = (if load32 m (dir_table src (of_nat i)) = 0 then 0 else load32 m (slot src (of_nat i)))"

lemma share_slots:
  assumes apart: "dirs_apart src dir"
    and zero: "\<And>i slot. i < 1024 \<Longrightarrow> slot \<in> {dir_table, dir_table_physical} \<Longrightarrow> load32 m (slot dir (of_nat i)) = 0"
  shows "n \<le> 1024 \<Longrightarrow>
     (\<forall>x. x \<notin> bytes dir 8192 \<longrightarrow> fold (share_slot src dir) [0..<n] m x = m x)
   \<and> (\<forall>i < 1024. \<forall>slot \<in> {dir_table, dir_table_physical}.
        load32 (fold (share_slot src dir) [0..<n] m) (slot dir (of_nat i)) = (if i < n then shared m src i slot else 0))"
proof (induction n)
  case 0
  then show ?case using zero by simp
next
  case (Suc n)
  define m' where "m' = fold (share_slot src dir) [0..<n] m"
  have IH: "\<And>x. x \<notin> bytes dir 8192 \<Longrightarrow> m' x = m x"
    "\<And>i slot. i < 1024 \<Longrightarrow> slot \<in> {dir_table, dir_table_physical} \<Longrightarrow>
       load32 m' (slot dir (of_nat i)) = (if i < n then shared m src i slot else 0)"
    using Suc by (auto simp: m'_def)
  have n: "n < 1024" using Suc.prems by simp
  have dt: "dir_table b (of_nat i) = of_nat (unat b + 4 * i)" "dir_table_physical b (of_nat i) = of_nat (unat b + 4096 + 4 * i)"
    for b i by (simp_all add: dir_table_def dir_table_physical_def)
  have dirs: "unat dir + 8196 \<le> 4294967296" using apart by (simp add: dirs_apart_def)
  have outside: "load32 m1 (slot src (of_nat i)) = load32 m0 (slot src (of_nat i))"
    if "\<And>x. x \<notin> bytes dir 8192 \<Longrightarrow> m1 x = m0 x" "i < 1024" "slot \<in> {dir_table, dir_table_physical}" for m1 m0 i slot
    by (rule slot_other_dir [OF apart that(3,2)]) (use that(1) in simp)
  let ?t = "load32 m (dir_table src (of_nat n))" and ?p = "load32 m (dir_table_physical src (of_nat n))"
  have t: "load32 m' (dir_table src (of_nat n)) = ?t" by (rule outside [OF IH(1) n]) simp_all
  have in_dir: "x \<notin> bytes dir 8192 \<Longrightarrow> store32 m0 (slot dir (of_nat n)) v x = m0 x"
    if "slot \<in> {dir_table, dir_table_physical}" for m0 v x slot
  proof (rule store32_outside)
    assume x: "x \<notin> bytes dir 8192"
    have "bytes (dir + 4 * of_nat k) 4 \<subseteq> bytes dir 8192" if "k < 2048" for k
      using elem_bytes [of k 2048 dir] that by simp
    from this [of n] this [of "1024 + n"] show "x \<notin> bytes (slot dir (of_nat n)) 4"
      using x that n by (auto simp: dir_table_def dir_table_physical_def algebra_simps simp del: in_bytes)
  qed
  show ?case
  proof (cases "?t = 0")
    case True
    then have "fold (share_slot src dir) [0..<Suc n] m = m'" by (simp add: share_slot_def t m'_def [symmetric])
    then show ?thesis using IH True by (auto simp: shared_def less_Suc_eq)
  next
    case False
    define m1 where "m1 = store32 m' (dir_table dir (of_nat n)) ?t"
    have m1: "x \<notin> bytes dir 8192 \<Longrightarrow> m1 x = m x" for x unfolding m1_def using in_dir [of dir_table] IH(1) by simp
    have p: "load32 m1 (dir_table_physical src (of_nat n)) = ?p" by (rule outside [OF m1 n]) simp_all
    have m2: "fold (share_slot src dir) [0..<Suc n] m = store32 m1 (dir_table_physical dir (of_nat n)) ?p"
      using False by (simp add: share_slot_def t p m1_def [symmetric] m'_def [symmetric])
    have "load32 (store32 m1 (dir_table_physical dir (of_nat n)) ?p) (slot dir (of_nat i))
        = (if i < Suc n then shared m src i slot else 0)" if i: "i < 1024" and slot: "slot \<in> {dir_table, dir_table_physical}" for i slot
    proof -
      have apart: "load32 (store32 m0 (of_nat a) v) (of_nat b) = load32 m0 (of_nat b)"
        if "a + 4 \<le> b \<or> b + 4 \<le> a" "a + 4 \<le> 4294967296" "b + 4 \<le> 4294967296" for m0 a b v
        using that by (rule load32_store32_nat)
      consider "slot = dir_table" "i = n" | "slot = dir_table_physical" "i = n" | "i \<noteq> n" using slot by auto
      then show ?thesis
      proof cases
        case 1
        have "load32 (store32 m1 (dir_table_physical dir (of_nat n)) ?p) (dir_table dir (of_nat n)) = load32 m1 (dir_table dir (of_nat n))"
          unfolding dt using n dirs by (intro apart) auto
        then show ?thesis using 1 False by (simp add: m1_def shared_def)
      next
        case 2
        then show ?thesis using False by (simp add: shared_def)
      next
        case 3
        have "load32 (store32 m1 (dir_table_physical dir (of_nat n)) ?p) (slot dir (of_nat i)) = load32 m1 (slot dir (of_nat i))"
          using slot 3 n i dirs by (auto simp: dt simp del: of_nat_add of_nat_mult intro!: apart)
        also have "\<dots> = load32 m' (slot dir (of_nat i))"
          unfolding m1_def using slot 3 n i dirs by (auto simp: dt simp del: of_nat_add of_nat_mult intro!: apart)
        finally show ?thesis using IH(2) [OF i slot] 3 by auto
      qed
    qed
    then show ?thesis unfolding m2 using in_dir [of dir_table_physical] m1 by auto
  qed
qed

text \<open>
  Cloning the kernel's directory shares its tables: the clone has the same table at
  every place, with the same physical address, the physical address of its own array of
  tables behind it, and nothing but the new directory is written; no page is copied.
\<close>

lemma clone_kernel_shares:
  assumes "kmalloc_ap d (mm s) sizeof_page_directory = Inr ((dir, phys), m1)"
    and "shares_kernel src m1" "dirs_apart src dir" "dirs_apart (kernel_directory m1) dir"
  shows "\<exists>s'. clone_directory d src s = Inr (dir, s') \<and> physical s' = physical s
    \<and> (\<forall>i < 1024. kload s' (dir_table dir (of_nat i)) = load32 (mem m1) (dir_table src (of_nat i)))
    \<and> (\<forall>i < 1024. kload s' (dir_table_physical dir (of_nat i))
         = (if load32 (mem m1) (dir_table src (of_nat i)) = 0 then 0
            else load32 (mem m1) (dir_table_physical src (of_nat i))))
    \<and> kload s' (dir_ismeta dir) = phys + 4096
    \<and> (\<forall>x. x \<notin> bytes dir 8196 \<longrightarrow> mem (mm s') x = mem m1 x)
    \<and> mm s' = m1\<lparr>mem := mem (mm s')\<rparr> \<and> s' = s\<lparr>mm := mm s'\<rparr>"
proof -
  define m2 where "m2 = store32 (memset (mem m1) dir 0 sizeof_page_directory) (dir_ismeta dir) (phys + 4096)"
  define m3 where "m3 = fold (share_slot src dir) [0..<1024] m2"
  have dirs: "unat dir + 8196 \<le> 4294967296" using assms(3) by (simp add: dirs_apart_def)
  define s2 where "s2 = (s\<lparr>mm := m1\<rparr>)\<lparr>mm := m1\<lparr>mem := m2\<rparr>\<rparr>"
  have sz: "unat sizeof_page_directory = 8196" by (simp add: sizeof_page_directory_def)
  have meta: "dir_ismeta dir = of_nat (unat dir + 8192)" by (simp add: dir_ismeta_def)
  have meta_in: "bytes (dir_ismeta dir) 4 \<subseteq> bytes dir 8196"
    using elem_bytes [of 2048 2049 dir] by (simp add: dir_ismeta_def)
  have m2_out: "m2 x = mem m1 x" if "x \<notin> bytes dir 8196" for x
  proof -
    have "x \<notin> bytes (dir_ismeta dir) 4" using that meta_in by blast
    then show ?thesis using that by (simp add: m2_def store32_outside memset_apply sz)
  qed
  have meta_apart: "bytes (dir_ismeta dir) 4 \<inter> bytes dir 8192 = {}"
    unfolding meta using bytes_disjoint_nat [of "unat dir + 8192" 4 "unat dir" 8192] dirs by simp
  have zero: "load32 m2 (slot dir (of_nat i)) = 0" if "i < 1024" "slot \<in> {dir_table, dir_table_physical}" for i slot
  proof -
    have "load32 m2 (slot dir (of_nat i)) = load32 (memset (mem m1) dir 0 sizeof_page_directory) (slot dir (of_nat i))"
      unfolding m2_def using slot_within [OF that(2,1), of dir] meta_apart by (intro load32_store32_apart) blast
    also have "\<dots> = 0"
      using slot_within [OF that(2,1), of dir] bytes_mono [of 8192 8196 dir] by (intro load32_memset_zero) (auto simp: sz simp del: in_bytes)
    finally show ?thesis .
  qed
  have share: "(\<forall>x. x \<notin> bytes dir 8192 \<longrightarrow> m3 x = m2 x)
    \<and> (\<forall>i < 1024. \<forall>slot \<in> {dir_table, dir_table_physical}.
         load32 m3 (slot dir (of_nat i)) = (if i < 1024 then shared m2 src i slot else 0))"
    unfolding m3_def by (rule share_slots [OF assms(3) _ order_refl]) (rule zero)
  have src: "load32 m2 (slot src (of_nat i)) = load32 (mem m1) (slot src (of_nat i))"
    if "i < 1024" "slot \<in> {dir_table, dir_table_physical}" for i slot
    by (rule slot_other_dir [OF assms(3) that(2,1) m2_out])
  have m3_meta: "load32 m3 (dir_ismeta dir) = phys + 4096"
  proof -
    have "load32 m3 (dir_ismeta dir) = load32 m2 (dir_ismeta dir)"
      by (rule load32_cong) (use share meta_apart in blast)
    then show ?thesis by (simp add: m2_def)
  qed
  have m3_out: "m3 x = mem m1 x" if "x \<notin> bytes dir 8196" for x
  proof -
    have "x \<notin> bytes dir 8192" using that by simp
    then have "m3 x = m2 x" using share by blast
    then show ?thesis using m2_out [OF that] by simp
  qed
  have off: "dir_table_physical dir 0 - dir = 4096" by (simp add: dir_table_physical_def)
  have kd: "kernel_directory (mm s2) = kernel_directory m1" and mem2: "mem (mm s2) = m2" by (simp_all add: s2_def)
  have "load32 m2 (dir_table b (of_nat i)) = load32 (mem m1) (dir_table b (of_nat i))"
    if "i < 1024" "b \<in> {src, kernel_directory m1}" for b i
    using that assms(3,4) by (intro slot_other_dir [OF _ _ that(1) m2_out]) auto
  then have "shares_kernel src (mm s2)" using assms(2) by (simp add: shares_kernel_def kd mem2)
  then have "clone_tables (unat TABLES_PER_DIRECTORY) d src dir s2 = Inr (update_mem (\<lambda>m. fold (share_slot src dir) [0..<1024] m) s2)"
    using clone_tables_kernel [of 1024 src s2 dir d] assms(3,4) by (simp add: kd TABLES_PER_DIRECTORY_def del: upt_rec_numeral)
  then have run: "clone_directory d src s = Inr (dir, s2\<lparr>mm := m1\<lparr>mem := m3\<rparr>\<rparr>)"
    unfolding clone_directory_def with_mm_def assms(1) bind_res_Inr prod.case Let_def off
    by (simp add: update_mem_def s2_def m2_def m3_def del: upt_rec_numeral)
  show ?thesis
    by (rule exI [of _ "s2\<lparr>mm := m1\<lparr>mem := m3\<rparr>\<rparr>"])
       (use run share src m3_meta m3_out in \<open>simp add: s2_def shared_def\<close>)
qed

end
