(* ===== verification/Task.thy ===== *)
theory Task
  imports Paging
begin

text \<open>
  Tasks: \<open>src/src/task/task.c\<close>.  The task table is an array in memory at \<open>tasks_addr\<close>, each
  \<open>task_t\<close> 76 bytes: \<open>pid\<close>, \<open>alive\<close>, \<open>page_directory\<close> and the 16 words of \<open>saved_state\<close>.
  The inline assembly at the end of \<open>task_switch\<close> is \<open>enter_user\<close>: it pushes the frame for
  \<open>iret\<close> on the task's stack, pops the general registers below it, and leaves the processor in
  the state \<open>cpu\<close>.
\<close>

record cpu_context =
  ctx_eip :: u32
  ctx_cs :: u32
  ctx_eflags :: u32
  ctx_esp :: u32
  ctx_ss :: u32
  ctx_ds :: u16
  ctx_edi :: u32
  ctx_esi :: u32
  ctx_ebp :: u32
  ctx_ebx :: u32
  ctx_edx :: u32
  ctx_ecx :: u32
  ctx_eax :: u32

record kernel_state = vm_state +
  tasks_addr :: u32
  current_task :: u32
  eflags :: u32
  cpu :: "cpu_context option"

definition MAX_NUM_TASKS :: u32 where "MAX_NUM_TASKS = 256"
definition TASK_IMAGE_BASE :: u32 where "TASK_IMAGE_BASE = 0x10000000"
definition TASK_KERNEL_STACK_BOTTOM :: u32 where "TASK_KERNEL_STACK_BOTTOM = 0x20000000"
definition TASK_USER_STACK_BOTTOM :: u32 where "TASK_USER_STACK_BOTTOM = 0xF0000000"
definition sizeof_task :: u32 where "sizeof_task = 76"
definition sizeof_registers :: u32 where "sizeof_registers = 64"

section \<open>The task table\<close>

definition task_ptr :: "'a kernel_state_scheme \<Rightarrow> u32 \<Rightarrow> u32" where
  "task_ptr s pid = tasks_addr s + sizeof_task * pid"

definition task_pid :: "u32 \<Rightarrow> u32" where "task_pid task = task"
definition task_alive :: "u32 \<Rightarrow> u32" where "task_alive task = task + 4"
definition task_directory :: "u32 \<Rightarrow> u32" where "task_directory task = task + 8"
definition saved_state :: "u32 \<Rightarrow> u32" where "saved_state task = task + 12"
definition saved_ds :: "u32 \<Rightarrow> u32" where "saved_ds task = saved_state task"
definition saved_edi :: "u32 \<Rightarrow> u32" where "saved_edi task = saved_state task + 4"
definition saved_esp :: "u32 \<Rightarrow> u32" where "saved_esp task = saved_state task + 16"
definition saved_eip :: "u32 \<Rightarrow> u32" where "saved_eip task = saved_state task + 44"
definition saved_cs :: "u32 \<Rightarrow> u32" where "saved_cs task = saved_state task + 48"
definition saved_ss :: "u32 \<Rightarrow> u32" where "saved_ss task = saved_state task + 60"

definition alive :: "'a kernel_state_scheme \<Rightarrow> u32 \<Rightarrow> bool" where
  "alive s pid \<longleftrightarrow> kload s (task_alive (task_ptr s pid)) \<noteq> 0"

definition init_tasking :: "'a kernel_state_scheme \<Rightarrow> 'a kernel_state_scheme" where
  "init_tasking s = s\<lparr>current_task := - 1\<rparr>"

text \<open>The loops count \<open>i\<close> up to 256; the first argument is what is left of it.\<close>

fun available_loop :: "nat \<Rightarrow> 'a kernel_state_scheme \<Rightarrow> u32 res" where
  "available_loop 0 s = Inl (Panic ''No tasks available'')"
| "available_loop (Suc k) s =
     (let i = MAX_NUM_TASKS - of_nat (Suc k)
      in if \<not> alive s i then Inr i else available_loop k s)"

definition find_available_task :: "'a kernel_state_scheme \<Rightarrow> u32 res" where
  "find_available_task s = available_loop (unat MAX_NUM_TASKS) s"

fun next_loop :: "nat \<Rightarrow> u32 \<Rightarrow> 'a kernel_state_scheme \<Rightarrow> u32 res" where
  "next_loop 0 nxt s = Inr (- 1)"
| "next_loop (Suc k) nxt s =
     (if nxt \<ge> MAX_NUM_TASKS then Inl OutOfBounds
      else if alive s nxt then Inr nxt
      else next_loop k ((nxt + 1) mod MAX_NUM_TASKS) s)"

definition find_next_task :: "'a kernel_state_scheme \<Rightarrow> u32 res" where
  "find_next_task s = next_loop (unat MAX_NUM_TASKS) (current_task s + 1) s"

section \<open>Creating a task\<close>

definition task_page :: "nat \<Rightarrow> u32 \<Rightarrow> u32 \<Rightarrow> 'a kernel_state_scheme \<Rightarrow> (u32 \<times> 'a kernel_state_scheme) res" where
  "task_page d address dir =
     with_mm (\<lambda>m. bind_res (get_page (\<lambda>sz m. kmalloc_ap d m sz) m address True dir) (\<lambda>(page, m1).
                  bind_res (page_alloc m1 page 0 1) (\<lambda>m2. Inr (page, m2))))"

definition new_task :: "u32 \<Rightarrow> u32 \<Rightarrow> memory \<Rightarrow> memory" where
  "new_task pid task m =
     (let m1 = memset m task 0 sizeof_task;
          m2 = store32 m1 (task_alive task) 1;
          m3 = store32 m2 (task_pid task) pid;
          m4 = memset m3 (saved_state task) 0 sizeof_registers;
          m5 = store32 m4 (saved_cs task) (0x18 OR 3);
          m6 = store32 m5 (saved_eip task) TASK_IMAGE_BASE;
          m7 = store32 m6 (saved_ds task) (0x20 OR 3);
          m8 = store32 m7 (saved_ss task) (load32 m7 (saved_ds task))
      in store32 m8 (saved_esp task) (TASK_USER_STACK_BOTTOM + 0x0FFC))"

definition task_create :: "nat \<Rightarrow> u32 \<Rightarrow> u32 \<Rightarrow> 'a kernel_state_scheme \<Rightarrow> (u32 \<times> 'a kernel_state_scheme) res" where
  "task_create d img image_size s =
     bind_res (find_available_task s) (\<lambda>pid.
     let task = task_ptr s pid;
         s1 = update_mem (new_task pid task) s
     in bind_res (clone_directory d (current_directory (mm s1)) s1) (\<lambda>(dir, s2).
     let s3 = update_mem (\<lambda>m. store32 m (task_directory task) dir) s2
     in bind_res (task_page d TASK_IMAGE_BASE (kload s3 (task_directory task)) s3) (\<lambda>(image_page, s4).
        bind_res (task_page d TASK_USER_STACK_BOTTOM (kload s4 (task_directory task)) s4) (\<lambda>(_, s5).
        bind_res (task_page d TASK_KERNEL_STACK_BOTTOM (kload s5 (task_directory task)) s5) (\<lambda>(_, s6).
        bind_res (mm_memcpy_physical (page_address (kload s6 image_page) * 0x1000) img 0x1000 s6) (\<lambda>s7.
          Inr (pid, s7)))))))"

section \<open>Switching\<close>

text \<open>The physical address behind \<open>a\<close> in the directory \<open>dir\<close>, the segment's base being 0.\<close>

definition frame_address :: "'a vm_state_scheme \<Rightarrow> u32 \<Rightarrow> u32 \<Rightarrow> u32" where
  "frame_address s dir a = frame_behind (kload s (page_entry (table_of s dir a) (a div PAGE_SIZE mod PAGES_PER_TABLE))) a"

definition push32 :: "u32 \<Rightarrow> u32 \<Rightarrow> u32 \<times> 'a vm_state_scheme \<Rightarrow> u32 \<times> 'a vm_state_scheme" where
  "push32 dir v = (\<lambda>(esp, s). (esp - 4, s\<lparr>physical := store32 (physical s) (frame_address s dir (esp - 4)) v\<rparr>))"

definition enter_user :: "u32 \<Rightarrow> u32 \<Rightarrow> u32 \<Rightarrow> 'a kernel_state_scheme \<Rightarrow> 'a kernel_state_scheme" where
  "enter_user dir esp eip s =
     (let fl = eflags s OR 0x200;
          (p, s1) = push32 dir eip (push32 dir 0x1b (push32 dir fl (push32 dir esp (push32 dir 0x23
                      (esp, s\<lparr>cr3 := kload s (dir_ismeta dir), translation := dir\<rparr>)))));
          pop = (\<lambda>i. load32 (physical s1) (frame_address s1 dir (p - 32 + 4 * i)))
      in s1\<lparr>eflags := fl,
            cpu := Some \<lparr>ctx_eip = eip, ctx_cs = 0x1b, ctx_eflags = fl, ctx_esp = esp, ctx_ss = 0x23, ctx_ds = 0x23,
              ctx_edi = pop 0, ctx_esi = pop 1, ctx_ebp = pop 2, ctx_ebx = pop 4, ctx_edx = pop 5,
              ctx_ecx = pop 6, ctx_eax = pop 7\<rparr>\<rparr>)"

definition task_switch :: "'a kernel_state_scheme \<Rightarrow> 'a kernel_state_scheme res" where
  "task_switch s =
     bind_res (find_next_task s) (\<lambda>next_task.
     if next_task \<ge> MAX_NUM_TASKS then Inl OutOfBounds
     else
       let task = task_ptr s next_task;
           s1 = s\<lparr>current_task := next_task\<rparr>;
           offset = kload s1 (saved_esp task) - TASK_USER_STACK_BOTTOM - 8 * 5;
           dir = kload s1 (task_directory task)
       in bind_res (with_mm (\<lambda>m. get_page (\<lambda>_ _. Inl StackExhausted) m TASK_USER_STACK_BOTTOM False dir) s1) (\<lambda>(page, s2).
          if page = 0 then Inl NullDereference
          else bind_res (mm_memcpy_physical (page_address (kload s2 page) * 0x1000 + offset) (saved_edi task) (8 * 4) s2) (\<lambda>s3.
          let s4 = outb 0xA0 0x20 (outb 0x20 0x20 s3)
          in Inr (enter_user (kload s4 (task_directory task)) (kload s4 (saved_esp task)) (kload s4 (saved_eip task)) s4))))"

section \<open>The scheduler's choice\<close>

text \<open>The \<open>j\<close>-th task behind \<open>a\<close> in the ring of 256.\<close>

definition ring_task :: "nat \<Rightarrow> nat \<Rightarrow> u32" where
  "ring_task a j = of_nat ((a + j) mod 256)"

lemma next_in_ring:
  assumes "unat nxt < 256"
  shows "unat ((nxt + 1) mod MAX_NUM_TASKS) = (unat nxt + 1) mod 256" "\<not> nxt \<ge> MAX_NUM_TASKS" "ring_task (unat nxt) 0 = nxt"
    "ring_task (unat ((nxt + 1) mod MAX_NUM_TASKS)) j = ring_task (unat nxt) (Suc j)"
proof -
  have "unat (nxt + 1) = unat nxt + 1" using assms by (simp add: unat_add32)
  then show u: "unat ((nxt + 1) mod MAX_NUM_TASKS) = (unat nxt + 1) mod 256" by (simp add: MAX_NUM_TASKS_def unat_mod)
  show "\<not> nxt \<ge> MAX_NUM_TASKS" using assms by (simp add: MAX_NUM_TASKS_def word_le_nat_alt)
  show "ring_task (unat nxt) 0 = nxt" using assms by (simp add: ring_task_def)
  show "ring_task (unat ((nxt + 1) mod MAX_NUM_TASKS)) j = ring_task (unat nxt) (Suc j)"
    unfolding ring_task_def u by (simp add: mod_add_left_eq)
qed

lemma next_loop_cases:
  "unat nxt < 256 \<Longrightarrow>
     (\<forall>j < k. \<not> alive s (ring_task (unat nxt) j)) \<and> next_loop k nxt s = Inr (- 1)
   \<or> (\<exists>j < k. next_loop k nxt s = Inr (ring_task (unat nxt) j) \<and> alive s (ring_task (unat nxt) j)
        \<and> (\<forall>i < j. \<not> alive s (ring_task (unat nxt) i)))"
proof (induction k arbitrary: nxt)
  case (Suc k)
  note ring = next_in_ring [OF Suc.prems]
  let ?n = "(nxt + 1) mod MAX_NUM_TASKS"
  show ?case
  proof (cases "alive s nxt")
    case True
    then show ?thesis using ring(2,3) by (intro disjI2 exI [of _ 0]) simp
  next
    case False
    then have step: "next_loop (Suc k) nxt s = next_loop k ?n s" using ring(2) by simp
    have "unat ?n < 256" unfolding ring(1) by simp
    from Suc.IH [OF this] show ?thesis
    proof (elim disjE exE conjE)
      assume "\<forall>j < k. \<not> alive s (ring_task (unat ?n) j)" "next_loop k ?n s = Inr (- 1)"
      then show ?thesis unfolding step ring(4) using False ring(3)
        by (intro disjI1) (metis Suc_less_eq not0_implies_Suc)
    next
      fix j assume "j < k" "next_loop k ?n s = Inr (ring_task (unat ?n) j)" "alive s (ring_task (unat ?n) j)"
        "\<forall>i < j. \<not> alive s (ring_task (unat ?n) i)"
      then show ?thesis unfolding step ring(4) using False ring(3)
        by (intro disjI2 exI [of _ "Suc j"]) (auto simp: less_Suc_eq_0_disj)
    qed
  qed
qed simp

lemma find_next_task_ring:
  assumes "current_task s \<noteq> 255" "unat (current_task s) < 256 \<or> current_task s = - 1" "alive s (of_nat t)" "t < 256"
  shows "\<exists>j < 256. find_next_task s = Inr (ring_task (unat (current_task s + 1)) j)
     \<and> alive s (ring_task (unat (current_task s + 1)) j) \<and> j \<le> (t + 256 - unat (current_task s + 1)) mod 256"
proof -
  let ?a = "unat (current_task s + 1)"
  have a: "?a < 256"
  proof (cases "current_task s = - 1")
    case False
    then have "unat (current_task s) < 256" using assms(2) by simp
    moreover have "unat (current_task s) \<noteq> 255" using assms(1) by (auto simp: word_unat_eq_iff)
    ultimately show ?thesis by (simp add: unat_add32)
  qed simp
  let ?d = "(t + 256 - ?a) mod 256"
  have "(?a + ?d) mod 256 = (?a + (t + 256 - ?a)) mod 256" by (simp add: mod_add_right_eq)
  also have "?a + (t + 256 - ?a) = t + 256" using a by simp
  finally have "ring_task ?a ?d = of_nat t" using assms(4) by (simp add: ring_task_def)
  then have d: "alive s (ring_task ?a ?d)" "?d < 256" using assms(3) by simp_all
  then show ?thesis using next_loop_cases [OF a, of 256 s]
    by (auto simp: find_next_task_def MAX_NUM_TASKS_def) (metis not_le_imp_less)
qed

lemma find_next_first:
  assumes "alive s (current_task s + 1)" "current_task s + 1 < MAX_NUM_TASKS"
  shows "find_next_task s = Inr (current_task s + 1)"
proof -
  have "unat MAX_NUM_TASKS = Suc 255" by (simp add: MAX_NUM_TASKS_def)
  then show ?thesis using assms unfolding find_next_task_def \<open>unat MAX_NUM_TASKS = Suc 255\<close> next_loop.simps
    by (simp add: not_le [symmetric])
qed

lemma alive_current [simp]: "alive (s\<lparr>current_task := c\<rparr>) p = alive s p"
  by (simp add: alive_def task_ptr_def)

text \<open>The choices of \<open>n\<close> calls of \<open>task_switch\<close>, one after the other.\<close>

fun choices :: "nat \<Rightarrow> 'a kernel_state_scheme \<Rightarrow> 'a kernel_state_scheme res" where
  "choices 0 s = Inr s"
| "choices (Suc n) s = bind_res (find_next_task s) (\<lambda>p. choices n (s\<lparr>current_task := p\<rparr>))"

lemma ring_distance:
  fixes a t j :: nat
  assumes "a < 256" "t < 256" "j < (t + 256 - a) mod 256" "(a + j) mod 256 \<noteq> 255"
  shows "(t + 256 - ((a + j) mod 256 + 1)) mod 256 < (t + 256 - a) mod 256"
proof (cases "a \<le> t")
  case True
  then have d: "(t + 256 - a) mod 256 = t - a" using assms(2) by (simp add: mod_if)
  then have "a + j < t" using assms(3) by simp
  then have "(a + j) mod 256 = a + j" "(t + 256 - (a + j + 1)) mod 256 = t - (a + j + 1)" using assms(2) by (simp_all add: mod_if)
  then show ?thesis using d \<open>a + j < t\<close> by simp
next
  case False
  then have d: "(t + 256 - a) mod 256 = t + 256 - a" using assms(1) by simp
  show ?thesis
  proof (cases "a + j < 256")
    case True
    then have "a + j < 255" using assms(4) by (auto simp: less_Suc_eq)
    then have "(t + 256 - (a + j + 1)) mod 256 = t + 256 - (a + j + 1)" using False by (intro mod_less) linarith
    then show ?thesis using False d \<open>a + j < 255\<close> by simp
  next
    case wrap: False
    have j: "j < t + 256 - a" using assms(3) d by simp
    then have "(a + j) mod 256 = a + j - 256" using wrap assms(1,2) by (simp add: mod_if)
    moreover have "a + j - 256 < t" using j wrap False by linarith
    then have "t + 256 - (a + j - 256 + 1) = t - (a + j - 256 + 1) + 256" by linarith
    then have "(t + 256 - (a + j - 256 + 1)) mod 256 = (t - (a + j - 256 + 1)) mod 256"
      by (simp only: mod_add_self2)
    then have "(t + 256 - (a + j - 256 + 1)) mod 256 \<le> t - (a + j - 256 + 1)" by (simp only: mod_less_eq_dividend)
    ultimately have "(t + 256 - ((a + j) mod 256 + 1)) mod 256 \<le> t - (a + j - 256 + 1)" by (simp only:)
    then show ?thesis unfolding d using \<open>a + j - 256 < t\<close> False by linarith
  qed
qed

lemma scheduled_within:
  assumes "alive s (of_nat t)" "t < 255" "\<not> alive s 255"
  shows "current_task s \<noteq> 255 \<Longrightarrow> unat (current_task s) < 256 \<or> current_task s = - 1 \<Longrightarrow>
    (t + 256 - unat (current_task s + 1)) mod 256 = d \<Longrightarrow>
    \<exists>n. 0 < n \<and> n \<le> d + 1 \<and> choices n s = Inr (s\<lparr>current_task := of_nat t\<rparr>)"
  using assms
proof (induction d arbitrary: s rule: less_induct)
  case (less d)
  let ?a = "unat (current_task s + 1)"
  obtain j where j: "j < 256" "find_next_task s = Inr (ring_task ?a j)" "alive s (ring_task ?a j)" "j \<le> d"
    using find_next_task_ring [of s t] less.prems by auto
  let ?c = "(?a + j) mod 256"
  have c: "unat (ring_task ?a j) = ?c" by (simp add: ring_task_def unat_of_nat take_bit_nat_eq_self)
  have a: "?a < 256"
  proof (cases "current_task s = - 1")
    case False
    then have "unat (current_task s) < 256" "unat (current_task s) \<noteq> 255" using less.prems by (auto simp: word_unat_eq_iff)
    then show ?thesis by (simp add: unat_add32)
  qed simp
  have ne: "?c \<noteq> 255" using j(3) less.prems(6) by (auto simp: ring_task_def)
  show ?case
  proof (cases "?c = t")
    case True
    then have "ring_task ?a j = of_nat t" by (simp add: ring_task_def)
    then show ?thesis using j(2) by (intro exI [of _ 1]) simp
  next
    case False
    have "(?a + d) mod 256 = t"
    proof -
      have "(?a + d) mod 256 = (?a + (t + 256 - ?a)) mod 256" unfolding less.prems(3) [symmetric] by (simp add: mod_add_right_eq)
      also have "?a + (t + 256 - ?a) = t + 256" using a by simp
      finally show ?thesis using less.prems(5) by simp
    qed
    then have lt: "j < d" using False j(4) by (metis le_neq_implies_less)
    let ?s = "s\<lparr>current_task := ring_task ?a j\<rparr>"
    have next_a: "unat (current_task ?s + 1) = ?c + 1" using c by (simp add: unat_add32)
    have "(t + 256 - unat (current_task ?s + 1)) mod 256 < d"
      unfolding next_a less.prems(3) [symmetric] using a less.prems(3,5) lt ne by (intro ring_distance) simp_all
    moreover have "current_task ?s \<noteq> 255" "unat (current_task ?s) < 256" using ne c by (auto simp: word_unat_eq_iff)
    ultimately obtain n where n: "0 < n" "n \<le> (t + 256 - unat (current_task ?s + 1)) mod 256 + 1"
      "choices n ?s = Inr (?s\<lparr>current_task := of_nat t\<rparr>)"
      using less.IH [of "(t + 256 - unat (current_task ?s + 1)) mod 256" ?s] less.prems(4-6) by auto
    then show ?thesis using j(2) \<open>(t + 256 - unat (current_task ?s + 1)) mod 256 < d\<close>
      by (intro exI [of _ "Suc n"]) simp
  qed
qed

text \<open>
  The scheduler is fair: as long as the table does not change and its last place is
  free, every live task is chosen again within 256 switches, whichever task runs now.
\<close>

lemma every_task_scheduled:
  assumes "alive s (of_nat t)" "t < 255" "\<not> alive s 255"
    and "unat (current_task s) < 255 \<or> current_task s = - 1"
  shows "\<exists>n. 0 < n \<and> n \<le> 256 \<and> choices n s = Inr (s\<lparr>current_task := of_nat t\<rparr>)"
proof -
  have "current_task s \<noteq> 255" "unat (current_task s) < 256 \<or> current_task s = - 1" using assms(4) by auto
  from scheduled_within [OF assms(1-3) this refl] obtain n where n: "0 < n"
    "n \<le> (t + 256 - unat (current_task s + 1)) mod 256 + 1" "choices n s = Inr (s\<lparr>current_task := of_nat t\<rparr>)" by blast
  have "(t + 256 - unat (current_task s + 1)) mod 256 < 256" by simp
  then show ?thesis using n by (intro exI [of _ n]) simp
qed

text \<open>
  A table at \<open>0x100000\<close> whose tasks 0 and 1 are alive, task 0 in the directory at \<open>0x4000\<close>, and
  a cloning buffer page in frame 5.
\<close>

definition sample_tasks :: kernel_state where
  "sample_tasks = vm_state.extend (blank_vm\<lparr>mm := (mm blank_vm)\<lparr>mem :=
       store32 (store32 (store32 (store32 (store32 (store32 (\<lambda>_. 0) 0x100004 1) 0x100050 1)
         0x100008 0x4000) 0x10001C 0xF0000FFC) 0x8000 0x5001) 0x4F00 0x8000\<rparr>\<rparr>)
     \<lparr>tasks_addr = 0x100000, current_task = 1, eflags = 2, cpu = None\<rparr>"

lemma sample_tasks_fields [simp]:
  "tasks_addr sample_tasks = 0x100000" "current_task sample_tasks = 1" "translation sample_tasks = 0x4000"
  "mm sample_tasks = (mm blank_vm)\<lparr>mem :=
       store32 (store32 (store32 (store32 (store32 (store32 (\<lambda>_. 0) 0x100004 1) 0x100050 1)
         0x100008 0x4000) 0x10001C 0xF0000FFC) 0x8000 0x5001) 0x4F00 0x8000\<rparr>"
  by (simp_all add: sample_tasks_def vm_state.extend_def)

lemmas sample_loads = alive_def task_ptr_def task_alive_def sizeof_task_def load32_store32_cyclic

text \<open>
  C20.  Where choosing fails: with no live task the result is -1, which \<open>task_switch\<close> takes
  for an index, and behind task 255 the search starts at the 257th place of the table.  So a
  timer interrupt before the first \<open>task_create\<close> leaves the table.
\<close>

theorem task_switch_out_of_table:
  assumes "current_task s = 255 \<or> (\<forall>i < 256. \<not> alive s (of_nat i))"
  shows "task_switch s = Inl OutOfBounds"
proof (cases "current_task s + 1 \<ge> MAX_NUM_TASKS")
  case True
  have "unat MAX_NUM_TASKS = Suc 255" by (simp add: MAX_NUM_TASKS_def)
  then have "find_next_task s = Inl OutOfBounds"
    unfolding find_next_task_def \<open>unat MAX_NUM_TASKS = Suc 255\<close> next_loop.simps using True by simp
  then show ?thesis by (simp add: task_switch_def)
next
  case False
  then have "unat (current_task s + 1) < 256" by (simp add: MAX_NUM_TASKS_def word_le_nat_alt)
  moreover have "\<forall>i < 256. \<not> alive s (of_nat i)" using False assms by (auto simp: MAX_NUM_TASKS_def)
  ultimately have "find_next_task s = Inr (- 1)"
    using next_loop_cases [of "current_task s + 1" 256 s] by (auto simp: find_next_task_def MAX_NUM_TASKS_def ring_task_def)
  then show ?thesis by (simp add: task_switch_def MAX_NUM_TASKS_def word_le_nat_alt)
qed

theorem task_switch_out_of_table_witness: "task_switch (sample_tasks\<lparr>current_task := 255\<rparr>) = Inl OutOfBounds"
  using task_switch_out_of_table [of "sample_tasks\<lparr>current_task := 255\<rparr>"] by simp

section \<open>The registers a task resumes with\<close>

lemma copied_word:
  assumes "\<forall>x. m' x = (if x \<in> bytes dest n then m (src + (x - dest)) else m'' x)" "unat k + 4 \<le> n" "n \<le> 4096"
  shows "load32 m' (dest + k) = load32 m (src + k)"
proof -
  have "m' (dest + k + j) = m (src + k + j)" if "unat j < 4" for j
  proof -
    have "unat (k + j) = unat k + unat j" using that assms(2,3) by (intro unat_add32) linarith
    then have "dest + k + j \<in> bytes dest n" using that assms(2) by (simp add: add.assoc)
    then show ?thesis using assms(1) by (simp add: add.assoc)
  qed
  from this [of 0] this [of 1] this [of 2] this [of 3] show ?thesis by (simp add: load32_def)
qed

lemma uncopied_word:
  assumes "\<forall>x. m' x = (if x \<in> bytes dest n then m (src + (x - dest)) else m'' x)"
    and "bytes a 4 \<inter> bytes dest n = {}"
  shows "load32 m' a = load32 m'' a"
  using assms by (intro load32_cong) auto

lemma kernel_byte_current [simp]: "kernel_byte (s\<lparr>current_task := c\<rparr>) a = kernel_byte s a"
  by (simp add: kernel_byte_def table_of_def)

lemma frame_address_other [simp]:
  "frame_address (s\<lparr>physical := m\<rparr>) = frame_address s" "frame_address (s\<lparr>cr3 := v, translation := d\<rparr>) = frame_address s"
  by (simp_all add: frame_address_def table_of_def fun_eq_iff)

text \<open>
  The stack page, in the frame at \<open>B\<close>: the five words of the frame for \<open>iret\<close> go to its
  offsets \<open>0xFE8\<close> to \<open>0xFF8\<close>, and \<open>popa\<close> reads the eight words from \<open>0xFC8\<close> on.
\<close>

lemma enter_user_registers:
  assumes "\<And>a. a div PAGE_SIZE = 0xF0000 \<Longrightarrow> frame_address s dir a = B + a mod PAGE_SIZE"
    and "esp = TASK_USER_STACK_BOTTOM + 0x0FFC"
  shows "\<exists>c. cpu (enter_user dir esp eip s) = Some c \<and> ctx_eip c = eip \<and> ctx_esp c = esp
    \<and> ctx_edi c = load32 (physical s) (B + 0xFC8) \<and> ctx_esi c = load32 (physical s) (B + 0xFCC)
    \<and> ctx_ebp c = load32 (physical s) (B + 0xFD0) \<and> ctx_ebx c = load32 (physical s) (B + 0xFD8)
    \<and> ctx_edx c = load32 (physical s) (B + 0xFDC) \<and> ctx_ecx c = load32 (physical s) (B + 0xFE0)
    \<and> ctx_eax c = load32 (physical s) (B + 0xFE4)"
  unfolding assms(2)
  by (simp add: enter_user_def push32_def TASK_USER_STACK_BOTTOM_def assms(1) PAGE_SIZE_def load32_store32_cyclic Let_def)

lemma page_offset_split:
  assumes "k < 4096"
  shows "unat (page_address e * 0x1000 + of_nat k) mod 4096 = k" "(page_address e * 0x1000 + of_nat k) div PAGE_SIZE = page_address e"
proof -
  have a: "unat (page_address e) = unat e div 4096" by (simp add: page_address_def drop_bit_eq_div unat_div)
  have "unat e div 4096 < 1048576" using unat_lt_32 [of e] by linarith
  then have lt: "unat e div 4096 * 4096 + k < 4294967296" using assms by linarith
  then have m: "unat (page_address e * 0x1000) = unat e div 4096 * 4096" using a by (simp add: unat_word_ariths)
  then have u: "unat (page_address e * 0x1000 + of_nat k) = unat e div 4096 * 4096 + k"
    using lt assms by (subst unat_add32) (simp_all add: unat_of_nat32)
  then show "unat (page_address e * 0x1000 + of_nat k) mod 4096 = k" using assms by simp
  show "(page_address e * 0x1000 + of_nat k) div PAGE_SIZE = page_address e"
    using assms by (simp add: word_unat_eq_iff unat_div u a PAGE_SIZE_def)
qed

text \<open>What \<open>task_switch\<close> relies on: a live task \<open>p\<close>, its stack page and its \<open>saved_state\<close> in reach.\<close>

definition can_resume :: "'a kernel_state_scheme \<Rightarrow> u32 \<Rightarrow> bool" where
  "can_resume s p \<longleftrightarrow>
     (let task = task_ptr s p; w = cloning_buffer_page (mm s); dir = kload s (task_directory task)
      in p < MAX_NUM_TASKS \<and> w \<noteq> 0
       \<and> kload s (dir_table dir 960) \<noteq> 0 \<and> page_entry (kload s (dir_table dir 960)) 0 = w
       \<and> kload s (saved_esp task) = TASK_USER_STACK_BOTTOM + 0x0FFC
       \<and> (\<forall>k < 32. kernel_byte s (saved_edi task + of_nat k))
       \<and> bytes w 4 \<inter> bytes (dir_table dir 960) 4 = {} \<and> bytes w 4 \<inter> bytes task 76 = {})"

lemma task_word_apart:
  assumes "bytes w 4 \<inter> bytes task 76 = {}" "unat k \<le> 72"
  shows "load32 (store32 m w v) (task + k) = load32 m (task + k)"
proof (rule load32_store32_apart)
  have "bytes (task + k) 4 \<subseteq> bytes task 76"
  proof
    fix x assume "x \<in> bytes (task + k) 4"
    then have "unat (x - (task + k)) < 4" by simp
    moreover have "x - task = (x - (task + k)) + k" by simp
    ultimately have "unat (x - task) = unat (x - (task + k)) + unat k" using assms(2) by (simp only: unat_add32)
    then show "x \<in> bytes task 76" using \<open>unat (x - (task + k)) < 4\<close> assms(2) by simp
  qed
  then show "bytes w 4 \<inter> bytes (task + k) 4 = {}" using assms(1) by blast
qed

lemma task_switch_resumes:
  assumes "find_next_task s = Inr p" "can_resume s p"
  shows "\<exists>s' c. task_switch s = Inr s' \<and> cpu s' = Some c \<and>
    (let task = task_ptr s p; B = page_address (kload s (cloning_buffer_page (mm s))) * 0x1000
     in ctx_eip c = kload s (saved_eip task) \<and> ctx_esp c = kload s (saved_esp task)
    \<and> ctx_ebx c = kload s (saved_edi task + 4) \<and> ctx_edx c = kload s (saved_edi task + 8)
    \<and> ctx_ecx c = kload s (saved_edi task + 12) \<and> ctx_eax c = kload s (saved_edi task + 16)
    \<and> ctx_edi c = load32 (physical s) (B + 0xFC8) \<and> ctx_esi c = load32 (physical s) (B + 0xFCC)
    \<and> ctx_ebp c = load32 (physical s) (B + 0xFD0))"
proof -
  define task where "task = task_ptr s p"
  define w where "w = cloning_buffer_page (mm s)"
  define dir where "dir = kload s (task_directory task)"
  define B where "B = page_address (kload s w) * 0x1000"
  note r = assms(2) [unfolded can_resume_def Let_def, folded task_def w_def, folded dir_def]
  let ?s = "s\<lparr>current_task := p\<rparr>"
  have page: "get_page al (mm s) TASK_USER_STACK_BOTTOM False dir = Inr (w, mm s)" for al
    using r by (simp add: get_page_def Let_def TASK_USER_STACK_BOTTOM_def PAGE_SIZE_def PAGES_PER_TABLE_def)
  have offset: "kload s (saved_esp task) - TASK_USER_STACK_BOTTOM - 8 * 5 = 0xFD4" using r by simp
  have fits: "unat (B + 0xFD4) mod 4096 + unat (32 :: u32) \<le> 4096"
    and div: "(B + 0xFD4) div PAGE_SIZE = page_address (kload s w)"
    using page_offset_split [where k = "0xFD4" and e = "kload s w"] by (simp_all add: B_def)
  have "cloning_buffer_page (mm ?s) \<noteq> 0" "\<forall>k < unat (32 :: u32). kernel_byte ?s (saved_edi task + of_nat k)"
    using r by (simp_all add: w_def)
  from mm_memcpy_physical_ok [OF this(1) fits this(2)] obtain s3 v where
    s3: "mm_memcpy_physical (B + 0xFD4) (saved_edi task) 32 ?s = Inr s3"
    and ph: "\<forall>x. physical s3 x = (if x \<in> bytes (B + 0xFD4) (unat (32 :: u32))
               then mem (mm ?s) (saved_edi task + (x - (B + 0xFD4))) else physical ?s x)"
    and mm3: "mm s3 = (mm s)\<lparr>mem := store32 (mem (mm s)) w v\<rparr>" and v: "page_address v = page_address (kload s w)"
    unfolding div w_def by auto
  have same: "load32 (store32 m w v) (task + k) = load32 m (task + k)" if "unat k \<le> 72" for k m
    using task_word_apart that r by blast
  note same = this this [unfolded add.commute [of task]]
  have frame: "frame_address s3 dir a = B + a mod PAGE_SIZE" if "a div PAGE_SIZE = 0xF0000" for a
    using r that v by (simp add: frame_address_def table_of_def mm3 frame_behind_def PAGES_PER_TABLE_def
        load32_store32_apart B_def PAGE_SIZE_def)
  define s4 where "s4 = outb 0xA0 0x20 (outb 0x20 0x20 s3)"
  define esp where "esp = TASK_USER_STACK_BOTTOM + 0x0FFC"
  have fields: "kload s4 (task_directory task) = dir" "kload s4 (saved_esp task) = esp"
    "kload s4 (saved_eip task) = kload s (saved_eip task)"
    using r same by (simp_all add: s4_def outb_def mm3 esp_def dir_def task_directory_def saved_esp_def saved_eip_def saved_state_def)
  have "frame_address s4 dir a = B + a mod PAGE_SIZE" if "a div PAGE_SIZE = 0xF0000" for a
    using frame [OF that] by (simp add: s4_def outb_def frame_address_def table_of_def)
  from enter_user_registers [OF this esp_def, of "kload s4 (saved_eip task)"] obtain c where
    "cpu (enter_user dir esp (kload s4 (saved_eip task)) s4) = Some c"
    and c: "ctx_eip c = kload s4 (saved_eip task)" "ctx_esp c = esp"
      "ctx_edi c = load32 (physical s4) (B + 0xFC8)" "ctx_esi c = load32 (physical s4) (B + 0xFCC)"
      "ctx_ebp c = load32 (physical s4) (B + 0xFD0)" "ctx_ebx c = load32 (physical s4) (B + 0xFD8)"
      "ctx_edx c = load32 (physical s4) (B + 0xFDC)" "ctx_ecx c = load32 (physical s4) (B + 0xFE0)"
      "ctx_eax c = load32 (physical s4) (B + 0xFE4)" by blast
  moreover have ph4: "physical s4 = physical s3" by (simp add: s4_def outb_def)
  have stale: "load32 (physical s4) (B + k) = load32 (physical s) (B + k)" if "k \<in> {0xFC8, 0xFCC, 0xFD0}" for k
    unfolding ph4 by (subst uncopied_word [OF ph], rule bytes_disjoint) (use that in auto)
  have saved: "load32 (physical s4) (B + (0xFD4 + k)) = kload s (saved_edi task + k)" if "unat k \<le> 28" for k
    using copied_word [OF ph, of k] that by (simp add: ph4 add.assoc)
  have "task_switch s = Inr (enter_user dir esp (kload s4 (saved_eip task)) s4)"
  proof -
    have p: "\<not> MAX_NUM_TASKS \<le> p" "w \<noteq> 0" using r by (simp_all add: not_le)
    have dest: "page_address (kload s w) * 4096 + 4052 = B + 4052" by (simp add: B_def)
    have "s\<lparr>current_task := p, mm := mm s\<rparr> = ?s" by simp
    with assms(1) p s3 fields page [unfolded dir_def] offset show ?thesis
      by (simp add: task_switch_def Let_def with_mm_def dest flip: s4_def task_def)
  qed
  ultimately show ?thesis using fields(3) r stale [of "0xFC8"] stale [of "0xFCC"] stale [of "0xFD0"]
      saved [of 4] saved [of 8] saved [of 12] saved [of 16]
    by (intro exI conjI) (assumption | simp add: Let_def esp_def flip: task_def w_def B_def)+
qed

text \<open>
  C18.  A task resumes at its saved instruction and stack pointer, but not with its saved
  registers: they are copied 40 bytes below the stack pointer, and \<open>popa\<close> reads 52 bytes below
  it.  So ebx, edx, ecx and eax get the saved esi, ebp, esp and ebx, and edi, esi and ebp
  get what the page held before.
\<close>

theorem task_switch_registers:
  assumes "find_next_task s = Inr p" "can_resume s p"
  shows "\<exists>s' c. task_switch s = Inr s' \<and> cpu s' = Some c \<and>
    (let task = task_ptr s p; B = page_address (kload s (cloning_buffer_page (mm s))) * 0x1000
     in ctx_eip c = kload s (saved_eip task) \<and> ctx_esp c = kload s (saved_esp task)
    \<and> ctx_ebx c = kload s (saved_edi task + 4) \<and> ctx_edx c = kload s (saved_edi task + 8)
    \<and> ctx_ecx c = kload s (saved_edi task + 12) \<and> ctx_eax c = kload s (saved_edi task + 16)
    \<and> ctx_edi c = load32 (physical s) (B + 0xFC8) \<and> ctx_esi c = load32 (physical s) (B + 0xFCC)
    \<and> ctx_ebp c = load32 (physical s) (B + 0xFD0))"
  by (rule task_switch_resumes [OF assms])

lemma sample_resumes:
  "find_next_task (sample_tasks\<lparr>current_task := - 1\<rparr>) = Inr 0" "can_resume (sample_tasks\<lparr>current_task := - 1\<rparr>) 0"
proof -
  let ?s = "sample_tasks\<lparr>current_task := - 1\<rparr>"
  show "find_next_task ?s = Inr 0"
    by (subst find_next_first) (simp_all add: MAX_NUM_TASKS_def sample_loads)
  have "kernel_byte ?s (0x100010 + of_nat k)" if "k < 32" for k
  proof -
    have "unat (0x100010 + of_nat k :: u32) = 0x100010 + k" "unat (0xF8010 + of_nat k :: u32) = 0xF8010 + k"
      using that by (subst unat_add32; simp add: unat_of_nat32)+
    then have "(0x100010 + of_nat k :: u32) div PAGE_SIZE = 256" "4 \<le> unat (0xF8010 + of_nat k :: u32)"
      using that by (simp_all add: word_unat_eq_iff unat_div PAGE_SIZE_def)
    moreover have "bytes (dir_table 0x4000 0) 4 \<inter> bytes 0x8000 4 = {}"
      by (rule bytes_disjoint) (simp_all add: dir_table_def)
    moreover have "PAGE_CLONING_BUFFER div PAGE_SIZE = 0xF0000" by (simp add: PAGE_CLONING_BUFFER_def PAGE_SIZE_def)
    ultimately show ?thesis by (simp add: kernel_byte_def in_window_def PAGES_PER_TABLE_def)
  qed
  then show "can_resume ?s 0"
    using bytes_disjoint [of 4 "0x4F00" "0x8000" 4] bytes_disjoint [of 4 "0x100000" "0x8000" 76]
    by (simp add: can_resume_def Let_def sample_loads task_directory_def saved_esp_def saved_state_def MAX_NUM_TASKS_def
        dir_table_def page_entry_def TASK_USER_STACK_BOTTOM_def saved_edi_def)
qed

theorem task_switch_registers_witness:
  "\<exists>s' c. task_switch (sample_tasks\<lparr>current_task := - 1\<rparr>) = Inr s' \<and> cpu s' = Some c
     \<and> ctx_eip c = 0 \<and> ctx_ecx c = 0xF0000FFC"
  using task_switch_registers [OF sample_resumes]
  by (auto simp: Let_def sample_loads saved_edi_def saved_state_def saved_eip_def)

section \<open>What a switch keeps\<close>

lemma window_copy_mm: "window_copy n off src s = Inr s' \<Longrightarrow> mm s' = mm s"
  by (induction n arbitrary: off src s) (fastforce simp: res_simps split: if_splits)+

lemma mm_memcpy_physical_mm:
  assumes "mm_memcpy_physical dest src sz s = Inr s'"
  shows "\<exists>w. mm s' = (mm s)\<lparr>mem := store32 (mem (mm s)) (cloning_buffer_page (mm s)) w\<rparr>"
  using assms window_copy_mm
  by (fastforce simp: mm_memcpy_physical_def map_window_def Let_def res_simps split: if_splits)

lemma enter_user_mm [simp]: "mm (enter_user dir esp eip s) = mm s"
  by (simp add: enter_user_def push32_def Let_def)

lemma get_page_present:
  assumes "get_page al m a False dir = Inr (page, m')"
  shows "m' = m"
  using assms by (auto simp: get_page_def Let_def split: if_splits)

text \<open>
  A switch writes nothing to the kernel's memory but the entry of the cloning buffer: the
  state of the task that was running is not saved, and every live task is entered
  again at its entry point, each time.
\<close>

lemma task_switch_saves_nothing:
  assumes "task_switch s = Inr s'" "x \<notin> bytes (cloning_buffer_page (mm s)) 4"
  shows "mem (mm s') x = mem (mm s) x"
proof -
  obtain p page m1 dest sz src s3 where
    "get_page (\<lambda>_ _. Inl StackExhausted) (mm s) TASK_USER_STACK_BOTTOM False (kload s (task_directory (task_ptr s p))) = Inr (page, m1)"
    and copy: "mm_memcpy_physical dest src sz (s\<lparr>current_task := p, mm := m1\<rparr>) = Inr s3" and mm3: "mm s' = mm s3"
    using assms(1) unfolding task_switch_def Let_def with_mm_def
    by (auto simp: res_simps outb_def split: if_splits)
  then have m1: "m1 = mm s" using get_page_present by blast
  obtain w where "mm s3 = (mm s)\<lparr>mem := store32 (mem (mm s)) (cloning_buffer_page (mm s)) w\<rparr>"
    using mm_memcpy_physical_mm [OF copy] by (auto simp: m1)
  then show ?thesis using store32_outside [OF assms(2)] by (simp add: mm3)
qed

end
