(* ===== verification/Timer.thy ===== *)
theory Timer
  imports Task
begin

text \<open>
  The timer, \<open>src/src/timer.c\<close>: \<open>init_timer\<close> registers the callback that switches tasks and
  programs channel 0 of the interval timer with the divisor for the frequency asked for.
\<close>

definition PIT_CLOCK_FREQ :: u32 where "PIT_CLOCK_FREQ = 1193180"
definition IRQ_0 :: u32 where "IRQ_0 = 32"

definition timer_callback :: "registers \<Rightarrow> 'a kernel_state_scheme \<Rightarrow> 'a kernel_state_scheme res" where
  "timer_callback regs s = task_switch s"

definition init_timer :: "u32 \<Rightarrow> 'a idt_state_scheme \<Rightarrow> 'a idt_state_scheme res" where
  "init_timer freq s =
     bind_res (isr_register_handler IRQ_0 Timer_Callback s) (\<lambda>s1.
     if freq = 0 then Inl DivideError
     else
       let divisor = PIT_CLOCK_FREQ div freq;
           low = (divisor AND NOT 0xFFFF \<noteq> 0)
       in bind_res (if low then say (''WARN: frequency is too low'' @ [CHR 0x0A]) [] s1 else Inr s1) (\<lambda>s2.
          let divisor = (if low then 0xFFFF else divisor)
          in bind_res (say ''Initialising timer'' [] s2) (\<lambda>s3.
             let s4 = outb 0x40 (ucast (drop_bit 8 divisor AND 0xFF))
                        (outb 0x40 (ucast (divisor AND 0xFF)) (outb 0x43 0x36 s3))
             in Inr (status ''DONE'' True s4))))"

section \<open>The interval timer\<close>

text \<open>
  Channel 0 of an 8253, as far as the kernel's writes go: the command \<open>0x36\<close> selects the
  square wave with a count written low byte first; a count of 0 stands for 65536.
\<close>

datatype pit_phase = Idle | Low_Byte | High_Byte u8

record pit =
  pit_phase :: pit_phase
  pit_count :: "nat option"

fun pit_write :: "u16 \<times> u8 \<Rightarrow> pit \<Rightarrow> pit" where
  "pit_write (port, v) p =
     (if port = 0x43 then (if v = 0x36 then \<lparr>pit_phase = Low_Byte, pit_count = None\<rparr> else \<lparr>pit_phase = Idle, pit_count = None\<rparr>)
      else if port = 0x40
      then (case pit_phase p of
              Idle \<Rightarrow> p
            | Low_Byte \<Rightarrow> p\<lparr>pit_phase := High_Byte v\<rparr>
            | High_Byte l \<Rightarrow> \<lparr>pit_phase = Low_Byte,
                pit_count = Some (if unat l + 256 * unat v = 0 then 65536 else unat l + 256 * unat v)\<rparr>)
      else p)"

lemma pit_screen: "screen_ports ws \<Longrightarrow> fold pit_write ws p = p"
proof (induction ws arbitrary: p)
  case (Cons w ws)
  then have "pit_write w p = p" by (cases w) (auto simp: screen_ports_def)
  then show ?case using Cons by (simp add: screen_ports_def)
qed simp

lemma pit_three:
  "fold pit_write [(0x43, 0x36), (0x40, a), (0x40, b)] p = \<lparr>pit_phase = Low_Byte,
     pit_count = Some (if unat a + 256 * unat b = 0 then 65536 else unat a + 256 * unat b)\<rparr>"
  by simp

lemma pit_programmed:
  fixes divisor :: u32
  assumes "unat divisor < 65536"
  shows "fold pit_write [(0x43, 0x36), (0x40, ucast (divisor AND 0xFF)), (0x40, ucast (drop_bit 8 divisor AND 0xFF))] p
    = \<lparr>pit_phase = Low_Byte, pit_count = Some (if divisor = 0 then 65536 else unat divisor)\<rparr>"
proof -
  have m: "(0xFF :: u32) = mask 8" by (simp add: mask_eq_exp_minus_1)
  have "unat (ucast (divisor AND 0xFF) :: u8) = unat divisor mod 256"
    unfolding m take_bit_eq_mask [symmetric] by (simp add: unsigned_ucast_eq unsigned_take_bit_eq take_bit_eq_mod unat_mod)
  moreover have "unat (ucast (drop_bit 8 divisor AND 0xFF) :: u8) = unat divisor div 256"
    unfolding m take_bit_eq_mask [symmetric] using assms
    by (simp add: unsigned_ucast_eq unsigned_take_bit_eq take_bit_eq_mod drop_bit_eq_div unat_div unat_mod less_mult_imp_div_less)
  ultimately have "unat (ucast (divisor AND 0xFF) :: u8) + 256 * unat (ucast (drop_bit 8 divisor AND 0xFF) :: u8) = unat divisor"
    by simp
  then show ?thesis unfolding pit_three by (simp add: word_unat_eq_iff)
qed

lemma divisor_high: "(x :: u32) AND NOT 0xFFFF \<noteq> 0 \<longleftrightarrow> 65536 \<le> unat x"
proof -
  have m: "(0xFFFF :: u32) = mask 16" by (simp add: mask_eq_exp_minus_1)
  have "x AND NOT 0xFFFF = 0 \<longleftrightarrow> x AND 0xFFFF = x" using and_complement [of x "0xFFFF"] by auto
  also have "\<dots> \<longleftrightarrow> unat x mod 65536 = unat x"
    unfolding m take_bit_eq_mask [symmetric] by (simp add: word_unat_eq_iff unsigned_take_bit_eq take_bit_eq_mod unat_mod)
  also have "\<dots> \<longleftrightarrow> unat x < 65536" by (metis mod_less mod_less_divisor zero_less_numeral)
  finally show ?thesis by auto
qed

lemma screen_output_refl: "screen_output s s"
  by (simp add: screen_output_def screen_ports_def)

lemma timer_text:
  "\<exists>s2 s3. (if low then say (''WARN: frequency is too low'' @ [CHR 0x0A]) [] s1 else Inr s1) = Inr s2
     \<and> say ''Initialising timer'' [] s2 = Inr s3 \<and> monitor.more s3 = monitor.more s1 \<and> screen_output s1 s3"
proof -
  let ?warn = "''WARN: frequency is too low'' @ [CHR 0x0A]"
  define s2 where "s2 = (if low then put_chars 7 (ascii ?warn) s1 else s1)"
  have s2: "(if low then say ?warn [] s1 else Inr s1) = Inr s2"
    by (simp add: s2_def say_plain ascii_def of_char_def)
  have s3: "say ''Initialising timer'' [] s2 = Inr (put_chars 7 (ascii ''Initialising timer'') s2)"
    by (rule say_plain) (simp_all add: ascii_def of_char_def)
  have "screen_output s1 s2" by (simp add: s2_def put_chars_output screen_output_refl)
  then have "screen_output s1 (put_chars 7 (ascii ''Initialising timer'') s2)"
    using put_chars_output by (rule screen_output_trans)
  moreover have "monitor.more (put_chars 7 (ascii ''Initialising timer'') s2) = monitor.more s1" by (simp add: s2_def)
  ultimately show ?thesis using s2 s3 by blast
qed

text \<open>
  C29.  \<open>init_timer\<close> makes \<open>timer_callback\<close> the handler of interrupt 32 and has the timer count
  down from the rounded quotient of the clock by the frequency; below 19 Hz, after a
  warning, from 65535.  Above 1193180 Hz the divisor is 0, which the timer takes for
  65536: the fastest rates asked for give the slowest.
\<close>

theorem init_timer_rate:
  assumes "freq \<noteq> 0" "32 < length (interrupt_handlers s)"
  shows "\<exists>s' ws. init_timer freq s = Inr s'
    \<and> interrupt_handlers s' = (interrupt_handlers s)[32 := Some Timer_Callback]
    \<and> port_writes s' = port_writes s @ ws
    \<and> (\<forall>p. pit_count (fold pit_write ws p) = Some (
          if unat freq < 19 then 65535 else if 1193180 < unat freq then 65536 else 1193180 div unat freq))"
proof -
  define s1 where "s1 = s\<lparr>interrupt_handlers := (interrupt_handlers s)[32 := Some Timer_Callback]\<rparr>"
  define q where "q = PIT_CLOCK_FREQ div freq"
  define divisor where "divisor = (if q AND NOT 0xFFFF \<noteq> 0 then 0xFFFF else q)"
  have q: "unat q = 1193180 div unat freq" by (simp add: q_def PIT_CLOCK_FREQ_def unat_div)
  have pos: "0 < unat freq" using assms(1) by (simp add: unat_gt_0)
  have low: "q AND NOT 0xFFFF \<noteq> 0 \<longleftrightarrow> unat freq < 19"
    using pos unfolding divisor_high q by (simp add: less_eq_div_iff_mult_less_eq) linarith
  have zero: "1193180 div unat freq = 0 \<longleftrightarrow> 1193180 < unat freq" using pos by (simp add: div_eq_0_iff)
  have count: "(if divisor = 0 then 65536 else unat divisor) =
      (if unat freq < 19 then 65535 else if 1193180 < unat freq then 65536 else 1193180 div unat freq)" "unat divisor < 65536"
    using low zero q divisor_high [of q] by (auto simp: divisor_def word_unat_eq_iff)
  obtain s2 s3 where s2: "(if q AND NOT 0xFFFF \<noteq> 0 then say (''WARN: frequency is too low'' @ [CHR 0x0A]) [] s1 else Inr s1) = Inr s2"
    and s3: "say ''Initialising timer'' [] s2 = Inr s3" "monitor.more s3 = monitor.more s1" "screen_output s1 s3"
    using timer_text by blast
  define s4 where "s4 = outb 0x40 (ucast (drop_bit 8 divisor AND 0xFF)) (outb 0x40 (ucast (divisor AND 0xFF)) (outb 0x43 0x36 s3))"
  have "isr_register_handler IRQ_0 Timer_Callback s = Inr s1"
    using assms(2) by (simp add: isr_register_handler_def IRQ_0_def s1_def)
  then have run: "init_timer freq s = Inr (status ''DONE'' True s4)"
    unfolding init_timer_def Let_def
    by (simp only: bind_res_Inr if_not_P [OF assms(1)] q_def [symmetric] s2 s3(1) divisor_def [symmetric] s4_def [symmetric])
  obtain us where us: "port_writes s3 = port_writes s1 @ us" "screen_ports us"
    using s3(3) by (auto simp: screen_output_def)
  obtain vs where vs: "port_writes (status ''DONE'' True s4) = port_writes s4 @ vs" "screen_ports vs"
    using status_output [of s4 "''DONE''" True] by (auto simp: screen_output_def)
  let ?three = "[(0x43, 0x36), (0x40, ucast (divisor AND 0xFF)), (0x40, ucast (drop_bit 8 divisor AND 0xFF))]"
  have "port_writes s4 = port_writes s3 @ ?three" by (simp add: s4_def outb_def)
  then have ws: "port_writes (status ''DONE'' True s4) = port_writes s @ (us @ ?three @ vs)"
    using us vs by (simp add: s1_def)
  have "pit_count (fold pit_write (us @ ?three @ vs) p) = Some (if divisor = 0 then 65536 else unat divisor)" for p
    unfolding fold_append o_apply pit_screen [OF us(2)] pit_screen [OF vs(2)] pit_programmed [OF count(2)] by simp
  moreover have "monitor.more (status ''DONE'' True s4) = monitor.more s1"
    using s3(2) by (cases s3) (simp add: s4_def outb_def)
  from idt_state_more [OF this]
  have "interrupt_handlers (status ''DONE'' True s4) = (interrupt_handlers s)[32 := Some Timer_Callback]"
    by (simp add: s1_def)
  ultimately show ?thesis using run ws unfolding count(1) by blast
qed

theorem init_timer_rate_witness:
  "\<exists>s' ws. init_timer 50 blank_idt = Inr s' \<and> port_writes s' = port_writes blank_idt @ ws
     \<and> pit_count (fold pit_write ws \<lparr>pit_phase = Idle, pit_count = None\<rparr>) = Some 23863"
  using init_timer_rate [of 50 blank_idt] by fastforce

end
