(* ===== verification/Syscall.thy ===== *)
theory Syscall
  imports Paging
begin

text \<open>
  System calls, \<open>src/src/syscall.c\<close>: the two calls of the kernel and the handler of interrupt
  \<open>0x80\<close>.  The number is in \<open>eax\<close>, the arguments in \<open>ebx\<close>, \<open>ecx\<close>, \<open>edx\<close>, \<open>esi\<close> and \<open>edi\<close>, and
  the result goes back in \<open>eax\<close>.
\<close>

text \<open>The loop of \<open>tty_write\<close>, \<open>n\<close> characters from \<open>p\<close> on; \<open>char\<close> is signed.\<close>

fun write_chars :: "nat \<Rightarrow> u32 \<Rightarrow> 'a vm_state_scheme \<Rightarrow> 'a vm_state_scheme res" where
  "write_chars 0 p s = Inr s"
| "write_chars (Suc n) p s =
     bind_res (virtual_byte s p) (\<lambda>b.
     bind_res (say ''%c'' [Num (scast b)] s) (write_chars n (p + 1)))"

definition tty_write :: "u32 \<Rightarrow> u32 \<Rightarrow> 'a vm_state_scheme \<Rightarrow> (u32 \<times> 'a vm_state_scheme) res" where
  "tty_write data cnt s = bind_res (write_chars (unat cnt) data s) (\<lambda>s'. Inr (cnt, s'))"

definition null_syscall :: "'a vm_state_scheme \<Rightarrow> (u32 \<times> 'a vm_state_scheme) res" where
  "null_syscall s = bind_res (say (''Null syscall'' @ [CHR 0x0A]) [] s) (\<lambda>s'. Inr (- 1, s'))"

definition NUM_SYSCALLS :: u32 where "NUM_SYSCALLS = 2"

text \<open>The table: a call takes the five argument registers.\<close>

definition syscalls ::
    "(u32 \<Rightarrow> u32 \<Rightarrow> u32 \<Rightarrow> u32 \<Rightarrow> u32 \<Rightarrow> 'a vm_state_scheme \<Rightarrow> (u32 \<times> 'a vm_state_scheme) res) list" where
  "syscalls = [\<lambda>_ _ _ _ _. null_syscall, \<lambda>data cnt _ _ _. tty_write data cnt]"

definition syscall_handler :: "registers \<Rightarrow> 'a vm_state_scheme \<Rightarrow> (registers \<times> 'a vm_state_scheme) res" where
  "syscall_handler regs s =
     (if reg_eax regs \<ge> NUM_SYSCALLS
      then bind_res (say (''Invalid syscall! Returning.'' @ [CHR 0x0A]) [] s) (\<lambda>s'. Inr (regs\<lparr>reg_eax := - 1\<rparr>, s'))
      else bind_res ((syscalls ! unat (reg_eax regs)) (reg_ebx regs) (reg_ecx regs) (reg_edx regs)
                       (reg_esi regs) (reg_edi regs) s)
             (\<lambda>(result, s'). Inr (regs\<lparr>reg_eax := result\<rparr>, s')))"

definition init_syscalls :: "'a idt_state_scheme \<Rightarrow> 'a idt_state_scheme res" where
  "init_syscalls s = isr_register_handler ISR_SYSCALL Syscall_Handler s"

section \<open>Properties\<close>

lemma virtual_byte_cong:
  assumes "mm s' = mm s" "physical s' = physical s" "translation s' = translation s"
  shows "virtual_byte s' a = virtual_byte s a"
  using assms by (simp add: virtual_byte_def table_of_def Let_def)

lemma char_text: "format_chars (ascii ''%c'') [Num (scast (b :: u8))] = Some [b]"
proof -
  have "ucast (scast b :: u32) = b" by (rule bit_word_eqI) (auto simp: bit_simps)
  then show ?thesis by (simp add: ascii_def of_char_def is_digit_def directive_chars_def)
qed

lemma write_chars_output:
  "\<forall>k < length bs. virtual_byte s (p + of_nat k) = Inr (bs ! k) \<Longrightarrow>
     write_chars (length bs) p s = Inr (put_chars 7 (filter (\<lambda>c. c \<noteq> 0) bs) s)"
proof (induction bs arbitrary: p s)
  case (Cons b bs)
  let ?s = "put_chars 7 (takeWhile (\<lambda>c. c \<noteq> 0) [b]) s"
  have "monitor.more ?s = monitor.more s" by simp
  then have same: "virtual_byte ?s a = virtual_byte s a" for a
    using vm_state_more [of ?s s] by (intro virtual_byte_cong) simp_all
  have "virtual_byte ?s (p + 1 + of_nat k) = Inr (bs ! k)" if "k < length bs" for k
    using Cons.prems [rule_format, of "Suc k"] that unfolding same by (simp add: add.assoc)
  then have "write_chars (length bs) (p + 1) ?s = Inr (put_chars 7 (filter (\<lambda>c. c \<noteq> 0) bs) ?s)"
    using Cons.IH by blast
  moreover have "virtual_byte s p = Inr b" using Cons.prems [rule_format, of 0] by simp
  moreover have "say ''%c'' [Num (scast b)] s = Inr ?s" by (simp only: say_def char_text option.case)
  ultimately show ?case by auto
qed simp

text \<open>
  System call 1 prints the \<open>ecx\<close> bytes at \<open>ebx\<close>, NUL bytes left out, when all can be
  read, and returns their number; call 0 returns -1 after a message, and a number
  that names no call returns -1 and leaves the other registers as they were.
\<close>

lemma syscall_results:
  assumes "length bs = unat (reg_ecx regs)"
    and "\<forall>k < length bs. virtual_byte s (reg_ebx regs + of_nat k) = Inr (bs ! k)"
  shows "syscall_handler regs s = Inr (
    if reg_eax regs = 0 then (regs\<lparr>reg_eax := - 1\<rparr>, put_chars 7 (ascii ''Null syscall'' @ [10]) s)
    else if reg_eax regs = 1 then (regs\<lparr>reg_eax := reg_ecx regs\<rparr>, put_chars 7 (filter (\<lambda>c. c \<noteq> 0) bs) s)
    else (regs\<lparr>reg_eax := - 1\<rparr>, put_chars 7 (ascii ''Invalid syscall! Returning.'' @ [10]) s))"
proof -
  have said: "say (''Null syscall'' @ [CHR 0x0A]) [] s = Inr (put_chars 7 (ascii ''Null syscall'' @ [10]) s)"
    "say (''Invalid syscall! Returning.'' @ [CHR 0x0A]) [] s = Inr (put_chars 7 (ascii ''Invalid syscall! Returning.'' @ [10]) s)"
    by (subst say_plain; simp add: ascii_def of_char_def)+
  have "unat (reg_eax regs) = 0 \<or> unat (reg_eax regs) = 1 \<or> 2 \<le> unat (reg_eax regs)" by linarith
  then consider "reg_eax regs = 0" | "reg_eax regs = 1" | "reg_eax regs \<ge> NUM_SYSCALLS"
    by (auto simp: NUM_SYSCALLS_def word_le_nat_alt word_unat_eq_iff)
  then show ?thesis
  proof cases
    case 1
    then show ?thesis by (simp add: syscall_handler_def NUM_SYSCALLS_def syscalls_def null_syscall_def said del: append.simps)
  next
    case 2
    moreover have "\<not> NUM_SYSCALLS \<le> 1" by (simp add: NUM_SYSCALLS_def word_le_nat_alt)
    ultimately show ?thesis using write_chars_output [OF assms(2)]
      by (simp add: syscall_handler_def syscalls_def tty_write_def assms(1) del: append.simps)
  next
    case 3
    then have "reg_eax regs \<noteq> 0" "reg_eax regs \<noteq> 1" by (auto simp: NUM_SYSCALLS_def word_le_nat_alt)
    then show ?thesis using 3 by (simp add: syscall_handler_def said del: append.simps)
  qed
qed

end
