(* ===== verification/Interrupts.thy ===== *)
theory Interrupts
  imports Timer Syscall
begin

text \<open>
  From an interrupt to its handler and back: the entry stubs of \<open>src/src/idt_asm.s\<close>, the calls
  of the registered functions, and the programs' side of a system call,
  \<open>src/src/usermode\<close>.  A stub pushes the vector and, where the processor has pushed no error
  code, a 0; the saved registers are the argument of the common handler and are
  restored from it.  \<open>task_switch\<close> ends in user mode: control does not come back from the
  timer's callback, which is the result \<open>None\<close> for the registers.
\<close>

definition call_handler ::
    "handler \<Rightarrow> registers \<Rightarrow> 'a kernel_state_scheme \<Rightarrow> (registers \<times> 'a kernel_state_scheme) res" where
  "call_handler h regs s =
     (case h of
        Timer_Callback \<Rightarrow> bind_res (timer_callback regs s) (\<lambda>s'. Inr (regs, s'))
      | Syscall_Handler \<Rightarrow> syscall_handler regs s
      | Page_Fault_Handler \<Rightarrow> page_fault_handler regs s)"

definition ISR_ERRCODE :: "u32 \<Rightarrow> bool" where
  "ISR_ERRCODE n \<longleftrightarrow> n = 8 \<or> n = 10 \<or> n = 11 \<or> n = 12 \<or> n = 13 \<or> n = 14"

definition stub_frame :: "u32 \<Rightarrow> u32 \<Rightarrow> registers \<Rightarrow> registers" where
  "stub_frame n err regs = regs\<lparr>int_no := n, err_code := (if ISR_ERRCODE n then err else 0)\<rparr>"

definition isr_stub_run ::
    "u32 \<Rightarrow> u32 \<Rightarrow> registers \<Rightarrow> 'a kernel_state_scheme \<Rightarrow> (registers option \<times> 'a kernel_state_scheme) res" where
  "isr_stub_run n err regs s =
     bind_res (isr_common_handler call_handler (stub_frame n err regs) s) (\<lambda>(regs', s'). Inr (Some regs', s'))"

definition irq_stub_run ::
    "u32 \<Rightarrow> registers \<Rightarrow> 'a kernel_state_scheme \<Rightarrow> (registers option \<times> 'a kernel_state_scheme) res" where
  "irq_stub_run n regs s =
     bind_res (handler_of n s) (\<lambda>h.
     if h = Some Timer_Callback
     then bind_res (timer_callback (stub_frame n 0 regs) s) (\<lambda>s'. Inr (None, s'))
     else bind_res (irq_common_handler call_handler (stub_frame n 0 regs) s) (\<lambda>(regs', s'). Inr (Some regs', s')))"

section \<open>System calls of programs\<close>

text \<open>\<open>int 0x80\<close>: the registers come back, or the kernel has stopped.\<close>

definition int_0x80 :: "registers \<Rightarrow> 'a kernel_state_scheme \<Rightarrow> (registers \<times> 'a kernel_state_scheme) res" where
  "int_0x80 regs s = bind_res (isr_stub_run ISR_SYSCALL 0 regs s) (\<lambda>(r, s'). case r of
     None \<Rightarrow> Inl OutOfBounds | Some regs' \<Rightarrow> Inr (regs', s'))"

definition user_write ::
    "u32 \<Rightarrow> u32 \<Rightarrow> registers \<Rightarrow> 'a kernel_state_scheme \<Rightarrow> (u32 \<times> 'a kernel_state_scheme) res" where
  "user_write data cnt regs s =
     bind_res (int_0x80 (regs\<lparr>reg_eax := 1, reg_ecx := cnt, reg_ebx := data\<rparr>) s) (\<lambda>(regs', s'). Inr (reg_eax regs', s'))"

definition user_printf ::
    "u32 \<Rightarrow> u32 \<Rightarrow> u32 \<Rightarrow> registers \<Rightarrow> 'a kernel_state_scheme \<Rightarrow> (u32 \<times> 'a kernel_state_scheme) res option" where
  "user_printf buf fmt args regs s =
     map_option (\<lambda>r. bind_res r (\<lambda>(m, n). user_write buf (word_of_int n) regs (update_mem (\<lambda>_. m) s)))
       (vsprintf (mem (mm s)) fmt buf args)"

section \<open>Properties\<close>

lemma user_write_output:
  assumes "128 < length (interrupt_handlers s)" "interrupt_handlers s ! 128 = Some Syscall_Handler"
    and "length bs = unat cnt" "\<forall>k < length bs. virtual_byte s (data + of_nat k) = Inr (bs ! k)"
  shows "user_write data cnt regs s = Inr (cnt, put_chars 7 (filter (\<lambda>c. c \<noteq> 0) bs) s)"
proof -
  have "handler_of 128 s = Inr (Some Syscall_Handler)" using assms(1,2) by (simp add: handler_of_def)
  moreover have "\<not> NUM_SYSCALLS \<le> 1" by (simp add: NUM_SYSCALLS_def word_le_nat_alt)
  ultimately show ?thesis
    using write_chars_output [OF assms(4)] assms(3)
    by (simp add: user_write_def int_0x80_def isr_stub_run_def ISR_SYSCALL_def stub_frame_def isr_common_handler_def
        call_handler_def syscall_handler_def syscalls_def tty_write_def ISR_ERRCODE_def)
qed


text \<open>A state in which only the handler of the system calls is registered.\<close>

definition kernel_with :: "idt_state \<Rightarrow> kernel_state" where
  "kernel_with i = vm_state.extend (idt_state.extend i
      \<lparr>mm = mm blank_vm, physical = (\<lambda>_. 0), cr2 = 0, cr3 = 0, cr0 = 0, translation = 0x4000\<rparr>)
     \<lparr>tasks_addr = 0x100000, current_task = 1, eflags = 2, cpu = None\<rparr>"


text \<open>The \<open>n\<close> bytes at \<open>buf\<close> are kernel memory that can be read back, whatever is in them.\<close>

definition kernel_buffer :: "'a vm_state_scheme \<Rightarrow> u32 \<Rightarrow> nat \<Rightarrow> bool" where
  "kernel_buffer s buf n \<longleftrightarrow>
     (\<forall>m. (\<forall>x. x \<notin> bytes buf n \<longrightarrow> m x = mem (mm s) x) \<longrightarrow>
        (\<forall>k < n. virtual_byte (update_mem (\<lambda>_. m) s) (buf + of_nat k) = Inr (m (buf + of_nat k))))"



end
