(* ===== verification/Mem.thy ===== *)
theory Mem
  imports Paging
begin

text \<open>
  The start of memory management, \<open>src/src/mm/mem.c\<close>: \<open>init_mem\<close> walks the memory map that
  the boot loader left (\<open>src/src/multiboot.h\<close>), chooses the largest free region behind the
  kernel image and starts the frames, paging and the heap.  The structures of the
  boot loader are read from memory at their offsets; \<open>kernel_end\<close> is the linker's \<open>__end\<close>.
  The walk follows the sizes in the map and need not end, so it is an option.
\<close>

type_synonym u64 = "64 word"

section \<open>The boot loader's structures\<close>

definition load64 :: "memory \<Rightarrow> u32 \<Rightarrow> u64" where
  "load64 m a = ucast (load32 m a) OR push_bit 32 (ucast (load32 m (a + 4)))"

definition mboot_flags :: "u32 \<Rightarrow> u32" where "mboot_flags mboot = mboot"
definition elf_num :: "u32 \<Rightarrow> u32" where "elf_num mboot = mboot + 28"
definition elf_addr :: "u32 \<Rightarrow> u32" where "elf_addr mboot = mboot + 36"
definition elf_shndx :: "u32 \<Rightarrow> u32" where "elf_shndx mboot = mboot + 40"
definition mmap_length :: "u32 \<Rightarrow> u32" where "mmap_length mboot = mboot + 44"
definition mmap_addr :: "u32 \<Rightarrow> u32" where "mmap_addr mboot = mboot + 48"

definition entry_size :: "u32 \<Rightarrow> u32" where "entry_size e = e"
definition entry_addr :: "u32 \<Rightarrow> u32" where "entry_addr e = e + 4"
definition entry_len :: "u32 \<Rightarrow> u32" where "entry_len e = e + 12"
definition entry_type :: "u32 \<Rightarrow> u32" where "entry_type e = e + 20"

section \<open>The walk\<close>

text \<open>The variables of the loop.\<close>

record region_scan =
  base_addr :: u32
  region_len :: u32
  total_bytes :: u32

text \<open>The body of the loop for an entry; the 64-bit sums wrap, and the ends are cut to 32 bits.\<close>

definition scan_entry :: "u32 \<Rightarrow> u64 \<Rightarrow> u64 \<Rightarrow> u32 \<Rightarrow> region_scan \<Rightarrow> region_scan res" where
  "scan_entry kernel_end addr len type r =
     (if drop_bit 32 addr \<noteq> 0 \<or> drop_bit 32 (addr + len - 1) \<noteq> 0
      then Inl (Panic ''Encountered a 64-bit memory region'')
      else
        let r1 = r\<lparr>total_bytes := total_bytes r + ucast len\<rparr>;
            start = ucast addr;
            finish = start + ucast len
        in if type = 1 \<and> finish \<ge> kernel_end
           then let start1 = (if start < kernel_end then kernel_end else start)
                in if finish - start1 > region_len r1
                   then Inr (r1\<lparr>base_addr := start1, region_len := finish - start1\<rparr>)
                   else Inr r1
           else Inr r1)"

partial_function (option) scan_map :: "u32 \<Rightarrow> memory \<Rightarrow> u32 \<Rightarrow> u32 \<Rightarrow> region_scan \<Rightarrow> region_scan res option" where
  "scan_map kernel_end m limit e r =
     (if e < limit
      then case scan_entry kernel_end (load64 m (entry_addr e)) (load64 m (entry_len e)) (load32 m (entry_type e)) r of
             Inl err \<Rightarrow> Some (Inl err)
           | Inr r' \<Rightarrow> scan_map kernel_end m limit (e + load32 m (entry_size e) + 4) r'
      else Some (Inr r))"

definition init_mem :: "nat \<Rightarrow> u32 \<Rightarrow> u32 \<Rightarrow> 'a vm_state_scheme \<Rightarrow> 'a vm_state_scheme res option" where
  "init_mem d kernel_end mboot s =
     (if \<not> bit (kload s (mboot_flags mboot)) 6 then Some (Inl (Panic ''multiboot's mmap is broken''))
      else case say (''Reading multiboot memory map...'' @ [CHR 0x0A]) [] s of
        Inl e \<Rightarrow> Some (Inl e)
      | Inr s1 \<Rightarrow>
          (case scan_map kernel_end (mem (mm s1)) (kload s1 (mmap_addr mboot) + kload s1 (mmap_length mboot))
                  (kload s1 (mmap_addr mboot)) \<lparr>base_addr = 0, region_len = 0, total_bytes = 0\<rparr> of
             None \<Rightarrow> None
           | Some (Inl e) \<Rightarrow> Some (Inl e)
           | Some (Inr r) \<Rightarrow>
               (case say ''  Found free memory at %#08x; size %d KB'' [Num (base_addr r), Num (region_len r div 1024)]
                       (s1\<lparr>mm := (mm s1)\<lparr>mem_total_bytes := total_bytes r\<rparr>\<rparr>) of
                  Inl e \<Rightarrow> Some (Inl e)
                | Inr s2 \<Rightarrow>
                    let s3 = s2\<lparr>mm := (mm s2)\<lparr>mem_first_unused := base_addr r\<rparr>\<rparr>
                    in if region_len r > 16 * 1024 * 1024
                       then (case with_mm (\<lambda>m. bind_res (init_frames d m (mem_total_bytes m)) (\<lambda>m'. Inr ((), m')))
                                    (status ''okay'' True s3) of
                               Inl e \<Rightarrow> Some (Inl e)
                             | Inr (_, s4) \<Rightarrow> init_paging d s4)
                       else Some (Inl (Panic ''Insufficient memory'')))))"

section \<open>The region chosen\<close>

text \<open>The entries of the map from \<open>e\<close> on: address, length and type.\<close>

fun map_entries :: "memory \<Rightarrow> u32 \<Rightarrow> u32 \<Rightarrow> (u64 \<times> u64 \<times> u32) list \<Rightarrow> bool" where
  "map_entries m limit e [] \<longleftrightarrow> \<not> e < limit"
| "map_entries m limit e ((a, l, t) # es) \<longleftrightarrow>
     e < limit \<and> load64 m (entry_addr e) = a \<and> load64 m (entry_len e) = l \<and> load32 m (entry_type e) = t
     \<and> map_entries m limit (e + load32 m (entry_size e) + 4) es"

definition entry_fits :: "u64 \<times> u64 \<times> u32 \<Rightarrow> bool" where
  "entry_fits = (\<lambda>(a, l, t). 0 < unat l \<and> unat a + unat l \<le> 4294967296)"

text \<open>The addresses behind the kernel that an entry offers: none if it ends at 4 GiB.\<close>

definition free_part :: "u32 \<Rightarrow> u64 \<times> u64 \<times> u32 \<Rightarrow> nat set" where
  "free_part kernel_end = (\<lambda>(a, l, t).
     if t = 1 \<and> unat a + unat l < 4294967296 then {max (unat a) (unat kernel_end)..<unat a + unat l} else {})"

definition chosen :: "region_scan \<Rightarrow> nat set" where
  "chosen r = {unat (base_addr r)..<unat (base_addr r) + unat (region_len r)}"

lemma drop_bit_32_small: "unat (a :: u64) < 4294967296 \<Longrightarrow> drop_bit 32 a = 0"
  by (simp add: drop_bit_eq_div word_unat_eq_iff unat_div)

lemma unat_low_word: "unat (ucast (a :: u64) :: u32) = unat a mod 4294967296"
  by (simp add: unsigned_ucast_eq take_bit_eq_mod)

lemma scan_entry_step:
  assumes "entry_fits (a, l, t)" "0 < unat kernel_end"
  shows "\<exists>r'. scan_entry kernel_end a l t r = Inr r'
    \<and> unat (total_bytes r') = (unat (total_bytes r) + unat l) mod 4294967296
    \<and> unat (region_len r) \<le> unat (region_len r') \<and> card (free_part kernel_end (a, l, t)) \<le> unat (region_len r')
    \<and> (chosen r' = chosen r \<or> chosen r' = free_part kernel_end (a, l, t))"
proof -
  have fits: "0 < unat l" "unat a + unat l \<le> 4294967296" using assms(1) by (simp_all add: entry_fits_def)
  have "unat (a + l) = unat a + unat l" using fits by (simp add: unat_word_ariths)
  then have "unat (a + l - 1) = unat a + unat l - 1" using fits
    by (subst unat_sub) (simp_all add: word_le_nat_alt)
  then have hi: "drop_bit 32 a = 0" "drop_bit 32 (a + l - 1) = 0" using fits by (simp_all add: drop_bit_32_small)
  define start :: u32 where "start = ucast a"
  define finish :: u32 where "finish = start + ucast l"
  have start: "unat start = unat a" using fits by (simp add: start_def unat_low_word)
  have finish: "unat finish = (unat a + unat l) mod 4294967296"
    by (simp add: finish_def unat_word_ariths start unat_low_word mod_add_right_eq)
  let ?r1 = "r\<lparr>total_bytes := total_bytes r + ucast l\<rparr>"
  have total: "unat (total_bytes ?r1) = (unat (total_bytes r) + unat l) mod 4294967296"
    by (simp add: unat_word_ariths unat_low_word mod_add_right_eq)
  have run: "scan_entry kernel_end a l t r = Inr (if t = 1 \<and> finish \<ge> kernel_end
      then let start1 = (if start < kernel_end then kernel_end else start)
           in if finish - start1 > region_len r then ?r1\<lparr>base_addr := start1, region_len := finish - start1\<rparr> else ?r1
      else ?r1)"
    using hi by (simp add: scan_entry_def Let_def start_def finish_def)
  show ?thesis
  proof (cases "t = 1 \<and> finish \<ge> kernel_end")
    case False
    then have "free_part kernel_end (a, l, t) = {}"
      using fits finish by (auto simp: free_part_def word_le_nat_alt)
    moreover have "scan_entry kernel_end a l t r = Inr ?r1" by (simp only: run if_not_P [OF False])
    ultimately show ?thesis using total by (simp add: chosen_def)
  next
    case True
    then have lt: "unat a + unat l < 4294967296" using fits finish assms(2) by (auto simp: word_le_nat_alt le_less)
    define start1 where "start1 = (if start < kernel_end then kernel_end else start)"
    have start1: "unat start1 = max (unat a) (unat kernel_end)"
      by (auto simp: start1_def word_less_nat_alt start)
    have "unat start1 \<le> unat finish" using True lt finish fits by (simp add: start1 word_le_nat_alt)
    then have len: "unat (finish - start1) = unat a + unat l - max (unat a) (unat kernel_end)"
      using lt finish by (simp add: unat_sub32 start1)
    have part: "free_part kernel_end (a, l, t) = {unat start1..<unat start1 + unat (finish - start1)}"
      using True lt \<open>unat start1 \<le> unat finish\<close> finish len by (simp add: free_part_def start1)
    have "scan_entry kernel_end a l t r = Inr (if finish - start1 > region_len r
        then ?r1\<lparr>base_addr := start1, region_len := finish - start1\<rparr> else ?r1)"
      by (simp only: run if_P [OF True] Let_def start1_def)
    then show ?thesis using total by (auto simp: part chosen_def word_less_nat_alt)
  qed
qed

lemma scan_map_picks:
  assumes "0 < unat kernel_end"
  shows "map_entries m limit e es \<Longrightarrow> \<forall>en \<in> set es. entry_fits en \<Longrightarrow>
    \<exists>r'. scan_map kernel_end m limit e r = Some (Inr r')
      \<and> unat (total_bytes r') = (unat (total_bytes r) + (\<Sum>(a, l, t) \<leftarrow> es. unat l)) mod 4294967296
      \<and> unat (region_len r) \<le> unat (region_len r') \<and> (\<forall>en \<in> set es. card (free_part kernel_end en) \<le> unat (region_len r'))
      \<and> (chosen r' = chosen r \<or> (\<exists>en \<in> set es. chosen r' = free_part kernel_end en))"
proof (induction es arbitrary: e r)
  case Nil
  then show ?case by (subst scan_map.simps) simp
next
  case (Cons en es)
  obtain a l t where en: "en = (a, l, t)" by (cases en)
  obtain r1 where r1: "scan_entry kernel_end a l t r = Inr r1"
    "unat (total_bytes r1) = (unat (total_bytes r) + unat l) mod 4294967296"
    "unat (region_len r) \<le> unat (region_len r1)" "card (free_part kernel_end (a, l, t)) \<le> unat (region_len r1)"
    "chosen r1 = chosen r \<or> chosen r1 = free_part kernel_end (a, l, t)"
    using scan_entry_step [of a l t kernel_end r] Cons.prems(2) assms en by auto
  have step: "scan_map kernel_end m limit e r = scan_map kernel_end m limit (e + load32 m (entry_size e) + 4) r1"
    using Cons.prems(1) r1(1) en by (subst scan_map.simps) simp
  from Cons.IH [of "e + load32 m (entry_size e) + 4" r1] Cons.prems en obtain r' where
    "scan_map kernel_end m limit (e + load32 m (entry_size e) + 4) r1 = Some (Inr r')"
    "unat (total_bytes r') = (unat (total_bytes r1) + (\<Sum>(a, l, t) \<leftarrow> es. unat l)) mod 4294967296"
    "unat (region_len r1) \<le> unat (region_len r')" "\<forall>en \<in> set es. card (free_part kernel_end en) \<le> unat (region_len r')"
    "chosen r' = chosen r1 \<or> (\<exists>en \<in> set es. chosen r' = free_part kernel_end en)" by auto
  then show ?case using r1(2-5) unfolding step
    by (intro exI [of _ r']) (auto simp: en mod_add_left_eq add.assoc)
qed

text \<open>
  C28.  Of the free regions of the memory map, the walk chooses a largest part behind the
  kernel image; \<open>mem_total_bytes\<close> is the sum of all lengths, those of the reserved
  regions too.  A region that ends at 4 GiB is passed over.
\<close>

theorem init_mem_region:
  assumes "map_entries m limit e es" "\<forall>en \<in> set es. entry_fits en" "0 < unat kernel_end"
  shows "\<exists>r. scan_map kernel_end m limit e \<lparr>base_addr = 0, region_len = 0, total_bytes = 0\<rparr> = Some (Inr r)
    \<and> (chosen r = {} \<or> (\<exists>en \<in> set es. chosen r = free_part kernel_end en))
    \<and> (\<forall>en \<in> set es. card (free_part kernel_end en) \<le> card (chosen r))
    \<and> unat (total_bytes r) = (\<Sum>(a, l, t) \<leftarrow> es. unat l) mod 4294967296"
  using scan_map_picks [OF assms(3,1,2), of "\<lparr>base_addr = 0, region_len = 0, total_bytes = 0\<rparr>"]
  by (auto simp: chosen_def)

text \<open>A map of two entries at \<open>0x9000\<close>: 640 KB below 1 MB, and 31 MB from 1 MB on.\<close>

definition sample_map :: memory where
  "sample_map = store32 (store32 (store32 (store32 (store32 (store32 (store32 (\<lambda>_. 0)
     0x9000 20) 0x900C 0xA0000) 0x9014 1) 0x9018 20) 0x901C 0x100000) 0x9024 0x1F00000) 0x902C 1"

theorem init_mem_region_witness:
  "\<exists>r. scan_map 0x120000 sample_map 0x9030 0x9000 \<lparr>base_addr = 0, region_len = 0, total_bytes = 0\<rparr> = Some (Inr r)
     \<and> unat (total_bytes r) = 33161216 \<and> card (chosen r) \<ge> 32374784"
proof -
  have "map_entries sample_map 0x9030 0x9000 [(0, 0xA0000, 1), (0x100000, 0x1F00000, 1)]"
    by (simp add: sample_map_def load64_def entry_addr_def entry_len_def entry_type_def entry_size_def load32_store32_cyclic)
  from init_mem_region [OF this, of "0x120000"] show ?thesis
    by (auto simp: entry_fits_def free_part_def)
qed

end
