(* ===== verification/Panic.thy ===== *)
theory Panic
  imports Task Mem
begin

text \<open>
  Panics, \<open>src/src/panic.c\<close>: the search of the boot loader's ELF sections for the symbol and
  string tables, the name of the function at an address, the walk over the stack frames
  and what \<open>__panic\<close> prints before it halts.  The literal \<open>"(null)"\<close> is the name \<open>None\<close>;
  \<open>ebp\<close>, read from the register, is an argument.  Walks over memory that need not end
  are options.
\<close>

record debug_state = kernel_state +
  symbols :: u32
  strtab :: u32
  num_symbols :: u32
  strtab_length :: u32
  panicked_before :: bool

section \<open>The boot loader's ELF tables\<close>

definition sizeof_section_header :: u32 where "sizeof_section_header = 40"
definition section_name :: "u32 \<Rightarrow> u32" where "section_name sh = sh"
definition section_addr :: "u32 \<Rightarrow> u32" where "section_addr sh = sh + 12"
definition section_size :: "u32 \<Rightarrow> u32" where "section_size sh = sh + 20"

definition sizeof_elf_symbol :: u32 where "sizeof_elf_symbol = 16"
definition symbol_name :: "u32 \<Rightarrow> u32" where "symbol_name y = y"
definition symbol_value :: "u32 \<Rightarrow> u32" where "symbol_value y = y + 4"
definition symbol_size :: "u32 \<Rightarrow> u32" where "symbol_size y = y + 8"
definition symbol_info :: "u32 \<Rightarrow> u32" where "symbol_info y = y + 12"
definition ELF_SYMBOL_TYPE :: "u8 \<Rightarrow> u8" where "ELF_SYMBOL_TYPE x = x AND 0xf"
definition ELF_SYMBOL_FUNCTION :: u8 where "ELF_SYMBOL_FUNCTION = 2"

text \<open>\<open>strcmp(name, lit) == 0\<close> for a literal; \<open>strcmp_literal\<close> relates it to \<open>strcmp\<close>.\<close>

definition name_is :: "memory \<Rightarrow> u32 \<Rightarrow> string \<Rightarrow> bool" where
  "name_is m p lit = cstr_at m p (ascii lit)"

definition scan_section :: "nat \<Rightarrow> u32 \<Rightarrow> u32 \<Rightarrow> 'a debug_state_scheme \<Rightarrow> 'a debug_state_scheme res" where
  "scan_section d shstrtab sh s =
     (let name = shstrtab + kload s (section_name sh)
      in bind_res (if name_is (mem (mm s)) name ''.strtab''
                   then let s1 = s\<lparr>strtab_length := kload s (section_size sh)\<rparr>
                        in bind_res (with_mm (\<lambda>m. kmalloc d m (strtab_length s1 + 8)) s1) (\<lambda>(p, s2).
                             Inr (update_mem (\<lambda>m. memcpy m p (load32 m (section_addr sh)) (strtab_length s2)) (s2\<lparr>strtab := p\<rparr>)))
                   else Inr s) (\<lambda>s3.
         Inr (if name_is (mem (mm s3)) name ''.symtab''
              then s3\<lparr>symbols := kload s3 (section_addr sh), num_symbols := kload s3 (section_size sh) div sizeof_elf_symbol\<rparr>
              else s3)))"

text \<open>
  The loop reads the number of sections again in each round.  Its \<open>int i\<close> ends at
  \<open>2 ^ 31 - 1\<close>, which bounds the rounds.
\<close>

fun scan_sections :: "nat \<Rightarrow> nat \<Rightarrow> u32 \<Rightarrow> u32 \<Rightarrow> u32 \<Rightarrow> u32 \<Rightarrow> 'a debug_state_scheme \<Rightarrow> 'a debug_state_scheme res" where
  "scan_sections 0 d mboot shstrtab sh i s = Inl OutOfBounds"
| "scan_sections (Suc fuel) d mboot shstrtab sh i s =
     (if i < kload s (elf_num mboot)
      then bind_res (scan_section d shstrtab (sh + sizeof_section_header * i) s)
             (scan_sections fuel d mboot shstrtab sh (i + 1))
      else Inr s)"

definition init_panic_backtrace :: "nat \<Rightarrow> u32 \<Rightarrow> 'a debug_state_scheme \<Rightarrow> 'a debug_state_scheme res" where
  "init_panic_backtrace d mboot s =
     (if \<not> bit (kload s (mboot_flags mboot)) 5
      then bind_res (say ''multiboot did not provide ELF info'' [] s) (\<lambda>s1. Inr (status ''FAIL'' False s1))
      else bind_res (say ''Parsing multiboot ELF data'' [] s) (\<lambda>s1.
        let sh = kload s1 (elf_addr mboot);
            shstrtab = kload s1 (section_addr (sh + sizeof_section_header * kload s1 (elf_shndx mboot)))
        in bind_res (scan_sections (2 ^ 31) d mboot shstrtab sh 0 s1) (\<lambda>s2. Inr (status ''DONE'' True s2))))"

section \<open>Back traces\<close>

text \<open>The loop of \<open>backtrace_lookup\<close>, \<open>k\<close> symbols before the end of the table.\<close>

fun lookup_loop :: "nat \<Rightarrow> u32 \<Rightarrow> 'a debug_state_scheme \<Rightarrow> u32 option" where
  "lookup_loop 0 addr s = None"
| "lookup_loop (Suc k) addr s =
     (let y = symbols s + sizeof_elf_symbol * (num_symbols s - of_nat (Suc k));
          sym_start = kload s (symbol_value y);
          sym_end = sym_start + kload s (symbol_size y)
      in if ELF_SYMBOL_TYPE (mem (mm s) (symbol_info y)) \<noteq> ELF_SYMBOL_FUNCTION then lookup_loop k addr s
         else if sym_start \<le> addr \<and> addr < sym_end then Some (strtab s + kload s (symbol_name y))
         else lookup_loop k addr s)"

definition backtrace_lookup :: "u32 \<Rightarrow> 'a debug_state_scheme \<Rightarrow> u32 option" where
  "backtrace_lookup addr s = lookup_loop (unat (num_symbols s)) addr s"

partial_function (option) read_string :: "memory \<Rightarrow> u32 \<Rightarrow> u8 list option" where
  "read_string m p = (if m p = 0 then Some [] else Option.bind (read_string m (p + 1)) (\<lambda>cs. Some (m p # cs)))"

definition name_at :: "u32 \<Rightarrow> 'a debug_state_scheme \<Rightarrow> u8 list option" where
  "name_at addr s = (case backtrace_lookup addr s of
     None \<Rightarrow> Some (ascii ''(null)'') | Some p \<Rightarrow> read_string (mem (mm s)) p)"

partial_function (option) stack_loop :: "u32 \<Rightarrow> 'a debug_state_scheme \<Rightarrow> 'a debug_state_scheme res option" where
  "stack_loop ebp s =
     (if ebp = 0 then Some (Inr s)
      else let eip = kload s (ebp + 4)
           in case name_at eip s of
                None \<Rightarrow> None
              | Some name \<Rightarrow>
                  (case say (''  [%#08x] %s'' @ [CHR 0x0A]) [Num eip, Str name] s of
                     Inl e \<Rightarrow> Some (Inl e)
                   | Inr s' \<Rightarrow> stack_loop (kload s' ebp) s'))"

definition print_stack_trace :: "u32 \<Rightarrow> 'a debug_state_scheme \<Rightarrow> 'a debug_state_scheme res option" where
  "print_stack_trace ebp s = stack_loop ebp s"

text \<open>The state in which \<open>__panic\<close> halts the processor.\<close>

definition panic_halt :: "string \<Rightarrow> string \<Rightarrow> u32 \<Rightarrow> string \<Rightarrow> u32 \<Rightarrow> 'a debug_state_scheme \<Rightarrow> 'a debug_state_scheme res option" where
  "panic_halt file func line msg ebp s =
     (if panicked_before s
      then Some (say ''Double-panic. Flip the switch to `more magic' and try again'' [] s)
      else case bind_res (say ([CHR 0x0A, CHR 0x0D] @ ''Kernel panic'' @ [CHR 0x0A] @ [CHR 0x27] @ ''%s'' @ [CHR 0x27]
                                 @ '' in file %s:%d: %s'' @ [CHR 0x0A])
                       [Str (ascii func), Str (ascii file), Num line, Str (ascii msg)] (s\<lparr>panicked_before := True\<rparr>))
                  (say (''Stack trace:'' @ [CHR 0x0A]) []) of
             Inl e \<Rightarrow> Some (Inl e)
           | Inr s' \<Rightarrow> print_stack_trace ebp s')"

section \<open>Names of functions\<close>

lemma strcmp_literal:
  "cstr_at m q cs \<Longrightarrow> \<exists>r. strcmp m p q = Some r \<and> (r = 0 \<longleftrightarrow> cstr_at m p cs)"
proof (induction cs arbitrary: p q)
  case Nil
  then show ?case by (subst strcmp.simps) (auto simp: signed_eq_0_iff)
next
  case (Cons c cs)
  show ?case
  proof (cases "m p = c")
    case True
    then have "strcmp m p q = strcmp m (p + 1) (q + 1)" using Cons.prems by (subst strcmp.simps) simp
    then show ?thesis using Cons True by simp
  next
    case False
    then have "strcmp m p q = Some (sint c - sint (m p))" using Cons.prems by (subst strcmp.simps) auto
    moreover have "sint c \<noteq> sint (m p)" using False by (metis signed_word_eqI)
    ultimately show ?thesis using False by simp
  qed
qed

text \<open>The symbol table as a list: name, value, size and type of each symbol.\<close>

definition symbol_at :: "'a debug_state_scheme \<Rightarrow> nat \<Rightarrow> u32 \<times> u32 \<times> u32 \<times> u8" where
  "symbol_at s i = (let y = symbols s + sizeof_elf_symbol * of_nat i
     in (kload s (symbol_name y), kload s (symbol_value y), kload s (symbol_size y), mem (mm s) (symbol_info y)))"

definition symbol_table :: "'a debug_state_scheme \<Rightarrow> (u32 \<times> u32 \<times> u32 \<times> u8) list" where
  "symbol_table s = map (symbol_at s) [0..<unat (num_symbols s)]"

definition function_at :: "u32 \<Rightarrow> u32 \<times> u32 \<times> u32 \<times> u8 \<Rightarrow> bool" where
  "function_at addr = (\<lambda>(name, value, sz, info). info AND 0xf = 2 \<and> value \<le> addr \<and> addr < value + sz)"

lemma lookup_loop_find:
  "k \<le> unat (num_symbols s) \<Longrightarrow> lookup_loop k addr s =
     map_option (\<lambda>y. strtab s + fst y) (find (function_at addr) (map (symbol_at s) [unat (num_symbols s) - k..<unat (num_symbols s)]))"
proof (induction k)
  case (Suc k)
  let ?n = "unat (num_symbols s)" and ?i = "unat (num_symbols s) - Suc k"
  have "of_nat ?i = num_symbols s - of_nat (Suc k)" using Suc.prems by (simp add: of_nat_diff)
  moreover have "[?i..<?n] = ?i # [?n - k..<?n]" using Suc.prems by (simp add: upt_conv_Cons Suc_diff_Suc)
  ultimately show ?case using Suc
    by (simp add: Let_def symbol_at_def function_at_def ELF_SYMBOL_TYPE_def ELF_SYMBOL_FUNCTION_def)
qed simp

text \<open>
  C30.  \<open>backtrace_lookup\<close> is a search of the symbol table for the first function whose
  addresses contain the one asked for.
\<close>

theorem backtrace_lookup_find:
  "backtrace_lookup addr s = map_option (\<lambda>y. strtab s + fst y) (find (function_at addr) (symbol_table s))"
  by (simp add: backtrace_lookup_def symbol_table_def lookup_loop_find)

section \<open>Stack traces\<close>

text \<open>The return addresses of the frames from \<open>ebp\<close> on, whose chain ends with a null pointer.\<close>

fun frames_at :: "memory \<Rightarrow> u32 \<Rightarrow> u32 list \<Rightarrow> bool" where
  "frames_at m ebp [] \<longleftrightarrow> ebp = 0"
| "frames_at m ebp (eip # rest) \<longleftrightarrow> ebp \<noteq> 0 \<and> load32 m (ebp + 4) = eip \<and> frames_at m (load32 m ebp) rest"

definition trace_line :: "u32 \<Rightarrow> 'a debug_state_scheme \<Rightarrow> u8 list \<Rightarrow> bool" where
  "trace_line eip s line \<longleftrightarrow> (\<exists>name. name_at eip s = Some name \<and> 0 \<notin> set line
     \<and> format_chars (ascii (''  [%#08x] %s'' @ [CHR 0x0A])) [Num eip, Str name] = Some line)"

lemma debug_state_more:
  "monitor.more s' = monitor.more s \<Longrightarrow> mm s' = mm s \<and> symbols s' = symbols s \<and> strtab s' = strtab s
     \<and> num_symbols s' = num_symbols s \<and> panicked_before s' = panicked_before s"
  by (cases s, cases s') simp

lemma name_at_cong:
  assumes "mm s' = mm s" "symbols s' = symbols s" "strtab s' = strtab s" "num_symbols s' = num_symbols s"
  shows "name_at addr s' = name_at addr s"
proof -
  have "lookup_loop k addr s' = lookup_loop k addr s" for k
    by (induction k) (simp_all add: assms Let_def)
  then show ?thesis by (simp add: name_at_def backtrace_lookup_def assms split: option.split)
qed

lemma stack_loop_lines:
  "frames_at (mem (mm s)) ebp fs \<Longrightarrow> list_all2 (\<lambda>eip. trace_line eip s) fs lines \<Longrightarrow>
     stack_loop ebp s = Some (Inr (put_chars 7 (concat lines) s))"
proof (induction fs arbitrary: ebp lines s)
  case Nil
  then show ?case by (subst stack_loop.simps) simp
next
  case (Cons eip rest)
  obtain line lines' where lines: "lines = line # lines'" "trace_line eip s line" "list_all2 (\<lambda>eip. trace_line eip s) rest lines'"
    using Cons.prems(2) by (auto simp: list_all2_Cons1)
  obtain name where name: "name_at eip s = Some name" "0 \<notin> set line"
    "format_chars (ascii (''  [%#08x] %s'' @ [CHR 0x0A])) [Num eip, Str name] = Some line"
    using lines(2) by (auto simp: trace_line_def)
  let ?s = "put_chars 7 line s"
  note said = say_chars [OF name(3,2), of s]
  have "monitor.more ?s = monitor.more s" by simp
  note same = debug_state_more [OF this]
  have "trace_line e ?s = trace_line e s" for e
    unfolding trace_line_def fun_eq_iff using name_at_cong [of ?s s e] same by simp
  then have "list_all2 (\<lambda>eip. trace_line eip ?s) rest lines'" using lines(3) by simp
  moreover have "frames_at (mem (mm ?s)) (load32 (mem (mm s)) ebp) rest" using Cons.prems(1) same by simp
  ultimately have "stack_loop (load32 (mem (mm s)) ebp) ?s = Some (Inr (put_chars 7 (concat lines') ?s))"
    using Cons.IH by blast
  moreover have "ebp \<noteq> 0" "kload s (ebp + 4) = eip" using Cons.prems(1) by simp_all
  ultimately show ?case using said name(1) same lines(1) by (subst stack_loop.simps) (simp add: put_chars_append)
qed

lemma address_chars:
  "\<exists>ds. number_chars v 16 (SHOW_PREFIX OR ZERO_PADDED) 8 = Some ds \<and> 0 \<notin> set ds"
proof -
  define d where "d = digits_loop v 16 False 8"
  have rb: "2 \<le> unat (16 :: u32)" "unat (16 :: u32) \<le> 16" by simp_all
  have len: "length (fst d) \<le> 32" using digits_loop_length [OF rb, of v False 8, folded d_def] by simp
  have "snd d \<le> 0" using digits_loop_facts [OF rb, of v False 8, folded d_def] by simp
  then have buf: "number_buffer v 16 (SHOW_PREFIX OR ZERO_PADDED) 8 = (fst d @ [120, 48], 0)"
    by (auto simp: number_buffer_def BUFSIZE_def has_flag_def SIGNED_def SHOW_PREFIX_def LEFT_ALIGN_def ZERO_PADDED_def
        prefix_chars_def Let_def d_def [symmetric] split: prod.splits)
  have "0 \<notin> set (rev (fst d @ [120, 48]))" using digits_nonzero [OF rb, of v False 8] by (simp add: d_def)
  then show ?thesis using len by (simp add: number_chars_def buf BUFSIZE_def)
qed

lemma trace_line_exists:
  assumes "name_at eip s \<noteq> None"
  shows "\<exists>line. trace_line eip s line"
proof -
  obtain name where name: "name_at eip s = Some name" using assms by blast
  have "0 \<notin> set cs" if "read_string m p = Some cs" for m p cs using that
  proof (induction cs arbitrary: p)
    case (Cons c cs)
    then have "m p \<noteq> 0" "read_string m (p + 1) = Some cs" "c = m p"
      using read_string.simps [of m p] by (auto simp: bind_eq_Some_conv split: if_splits)
    then show ?case using Cons.IH by auto
  qed simp
  then have "0 \<notin> set name" using name by (auto simp: name_at_def ascii_def of_char_def split: option.splits)
  obtain ds where ds: "number_chars eip 16 (SHOW_PREFIX OR ZERO_PADDED) 8 = Some ds" "0 \<notin> set ds"
    using address_chars by blast
  have "format_chars (ascii (''  [%#08x] %s'' @ [CHR 0x0A])) [Num eip, Str name]
      = Some ([32, 32, 91] @ ds @ [93, 32] @ name @ [10])"
    using ds(1) by (simp add: ascii_def of_char_def is_digit_def directive_chars_def string_chars_def spaces_def
        has_flag_def LEFT_ALIGN_def wrap_int_def)
  then show ?thesis using name ds(2) \<open>0 \<notin> set name\<close> unfolding trace_line_def by auto
qed

text \<open>
  C31.  The stack trace ends when the chain of frames does, and prints a line for each frame,
  innermost first: the return address and the name of the function it is in.
\<close>

theorem print_stack_trace_lines:
  assumes "frames_at (mem (mm s)) ebp fs" "\<forall>eip \<in> set fs. name_at eip s \<noteq> None"
  shows "\<exists>lines. list_all2 (\<lambda>eip. trace_line eip s) fs lines
    \<and> print_stack_trace ebp s = Some (Inr (put_chars 7 (concat lines) s))"
proof -
  have "\<exists>lines. list_all2 (\<lambda>eip. trace_line eip s) fs lines"
    using assms(2)
  proof (induction fs)
    case (Cons eip fs)
    then obtain line lines where "trace_line eip s line" "list_all2 (\<lambda>eip. trace_line eip s) fs lines"
      using trace_line_exists [of eip s] by auto
    then show ?case by (intro exI [of _ "line # lines"]) simp
  qed (simp add: exI [of _ "[]"])
  then show ?thesis using stack_loop_lines [OF assms(1)] unfolding print_stack_trace_def by blast
qed

text \<open>One frame at \<open>0x2000\<close>, returning to \<open>0x105\<close> in the function \<open>f\<close> of the only symbol.\<close>

definition sample_debug :: debug_state where
  "sample_debug = kernel_state.extend (sample_tasks\<lparr>mm := (mm sample_tasks)\<lparr>mem :=
       store32 (store32 (store32 (store32 (store32 (\<lambda>_. 0) 0x2004 0x105) 0x3004 0x100) 0x3008 0x10) 0x300C 2) 0x5000 102\<rparr>\<rparr>)
     \<lparr>symbols = 0x3000, strtab = 0x5000, num_symbols = 1, strtab_length = 2, panicked_before = False\<rparr>"

lemma sample_debug_fields [simp]:
  "symbols sample_debug = 0x3000" "strtab sample_debug = 0x5000" "num_symbols sample_debug = 1"
  "mem (mm sample_debug) = store32 (store32 (store32 (store32 (store32 (\<lambda>_. 0) 0x2004 0x105) 0x3004 0x100) 0x3008 0x10) 0x300C 2) 0x5000 102"
  by (simp_all add: sample_debug_def kernel_state.extend_def)

theorem print_stack_trace_lines_witness:
  "\<exists>line. print_stack_trace 0x2000 sample_debug = Some (Inr (put_chars 7 line sample_debug)) \<and> trace_line 0x105 sample_debug line"
proof -
  have byte: "mem (mm sample_debug) 0x300C = 2" "mem (mm sample_debug) 0x5000 = 102" "mem (mm sample_debug) 0x5001 = 0"
    by (simp_all add: store32_def)
  have "lookup_loop (Suc 0) 0x105 sample_debug = Some 0x5000"
    by (simp add: symbol_value_def symbol_size_def symbol_info_def symbol_name_def load32_store32_cyclic
        ELF_SYMBOL_TYPE_def ELF_SYMBOL_FUNCTION_def sizeof_elf_symbol_def byte [simplified] Let_def)
  then have "name_at 0x105 sample_debug = read_string (mem (mm sample_debug)) 0x5000"
    by (simp add: name_at_def backtrace_lookup_def)
  also have "\<dots> = Some [102]" using byte by (subst read_string.simps, subst read_string.simps) simp
  finally have "name_at 0x105 sample_debug = Some [102]" .
  then have "\<forall>eip \<in> set [0x105]. name_at eip sample_debug \<noteq> None" by simp
  moreover have "frames_at (mem (mm sample_debug)) 0x2000 [0x105]"
    by (simp add: load32_store32_cyclic)
  ultimately obtain lines where "list_all2 (\<lambda>eip. trace_line eip sample_debug) [0x105] lines"
    "print_stack_trace 0x2000 sample_debug = Some (Inr (put_chars 7 (concat lines) sample_debug))"
    using print_stack_trace_lines by blast
  then show ?thesis by (auto simp: list_all2_Cons1)
qed

end
