(* ===== verification/Main_Kernel.thy ===== *)
theory Main_Kernel
  imports Interrupts Panic
begin

text \<open>
  The kernel's entry, \<open>src/src/main.c\<close>: \<open>kmain\<close> starts memory management on the boot
  loader's stack and \<open>__kmain\<close> the rest on the kernel's own; \<open>test_kmalloc\<close> is its test of the
  heap, and \<open>umode\<close> and \<open>umode2\<close> are the first programs.  This is the sequence without
  interrupts from outside; the model of one is \<open>irq_stub_run\<close>.
\<close>

section \<open>The test of the heap\<close>

definition kmalloc_k :: "nat \<Rightarrow> u32 \<Rightarrow> 'a vm_state_scheme \<Rightarrow> (u32 \<times> 'a vm_state_scheme) res" where
  "kmalloc_k d sz = with_mm (\<lambda>m. kmalloc d m sz)"

definition kfree_k :: "u32 \<Rightarrow> 'a vm_state_scheme \<Rightarrow> 'a vm_state_scheme res" where
  "kfree_k p s = bind_res (kfree (mm s) p) (\<lambda>m. Inr (s\<lparr>mm := m\<rparr>))"

definition test_kmalloc :: "nat \<Rightarrow> 'a vm_state_scheme \<Rightarrow> 'a vm_state_scheme res" where
  "test_kmalloc d s =
     bind_res (say ''Testing heap allocation and freeing'' [] s) (\<lambda>s.
     bind_res (kmalloc_k d 4 s) (\<lambda>(a, s).
     bind_res (kmalloc_k d 4 s) (\<lambda>(b, s).
     bind_res (kmalloc_k d 4 s) (\<lambda>(c, s).
     let first_alloc = a in
     bind_res (kfree_k c s) (\<lambda>s.
     bind_res (kmalloc_k d 16 s) (\<lambda>(c, s).
     bind_res (kfree_k a s) (\<lambda>s.
     bind_res (kfree_k b s) (\<lambda>s.
     let b = 0 in
     bind_res (kmalloc_k d 8 s) (\<lambda>(a, s).
     bind_res (kfree_k a s) (\<lambda>s.
     bind_res (kfree_k b s) (\<lambda>s.
     bind_res (kfree_k c s) (\<lambda>s.
     bind_res (kmalloc_k d 32 s) (\<lambda>(a, s).
       Inr (if a \<noteq> first_alloc then status ''FAIL'' False s else status ''DONE'' True s))))))))))))))"

section \<open>The entry\<close>

definition STACK_SZ :: u32 where "STACK_SZ = 0x10000"

text \<open>The addresses of the two programs are \<open>umode\<close> and \<open>umode2\<close>, \<open>regs\<close> the registers at \<open>int $0x3\<close>.\<close>

definition kmain_tasks :: "nat \<Rightarrow> u32 \<Rightarrow> u32 \<Rightarrow> 'a kernel_state_scheme \<Rightarrow> 'a kernel_state_scheme res" where
  "kmain_tasks d umode umode2 s =
     bind_res (task_create d umode 0 (init_tasking s)) (\<lambda>(pid, s1).
     bind_res (say (''Spawned a task with pid=%d'' @ [CHR 0x0A]) [Num pid] s1) (\<lambda>s2.
     bind_res (task_create d umode2 0 s2) (\<lambda>(pid, s3).
       say (''Spawned a task with pid=%d'' @ [CHR 0x0A]) [Num pid] s3)))"

definition kmain_continued ::
    "nat \<Rightarrow> registers \<Rightarrow> u32 \<Rightarrow> u32 \<Rightarrow> 'a kernel_state_scheme \<Rightarrow> 'a kernel_state_scheme res" where
  "kmain_continued d regs umode umode2 s =
     bind_res (init_gdt True s) (\<lambda>s1.
     bind_res (init_idt s1) (\<lambda>s2.
     bind_res (init_timer 50 s2) (\<lambda>s3.
     bind_res (init_syscalls s3) (\<lambda>s4.
     bind_res (say ''Testing interrupts: '' [] (s4\<lparr>eflags := eflags s4 OR 0x200\<rparr>)) (\<lambda>s5.
     bind_res (isr_stub_run 3 0 regs s5) (\<lambda>(_, s6).
     bind_res (test_kmalloc d s6) (kmain_tasks d umode umode2)))))))"

definition kmain ::
    "nat \<Rightarrow> u32 \<Rightarrow> registers \<Rightarrow> u32 \<Rightarrow> u32 \<Rightarrow> u32 \<Rightarrow> 'a debug_state_scheme \<Rightarrow> (u32 \<times> 'a debug_state_scheme) res option" where
  "kmain d kernel_end regs umode umode2 mboot s =
     (case init_panic_backtrace d mboot (monitor_clear s) of
        Inl e \<Rightarrow> Some (Inl e)
      | Inr s1 \<Rightarrow> map_option (\<lambda>r.
          bind_res r (\<lambda>s2.
          bind_res (with_mm (\<lambda>m. kmalloc_a d m STACK_SZ) s2) (\<lambda>(p, s3).
          bind_res (kmain_continued d regs umode umode2 (s3\<lparr>kernel_relocated_stack := p + STACK_SZ\<rparr>)) (\<lambda>s4.
            Inr (0x00DEFACED, put_chars 7 (ascii (''Reached the end of kmain()'' @ [CHR 0x0A])) s4)))))
          (init_mem d kernel_end mboot s1))"

text \<open>The programs: \<open>umode\<close> makes one system call, \<open>umode2\<close> makes the same call forever; here \<open>n\<close> rounds.\<close>

definition umode :: "u32 \<Rightarrow> registers \<Rightarrow> 'a kernel_state_scheme \<Rightarrow> (registers \<times> 'a kernel_state_scheme) res" where
  "umode text_1234 regs = int_0x80 (regs\<lparr>reg_eax := 1, reg_ebx := text_1234, reg_ecx := 5\<rparr>)"

fun umode2 :: "nat \<Rightarrow> u32 \<Rightarrow> registers \<Rightarrow> 'a kernel_state_scheme \<Rightarrow> (registers \<times> 'a kernel_state_scheme) res" where
  "umode2 0 text_5678 regs s = Inr (regs, s)"
| "umode2 (Suc n) text_5678 regs s =
     bind_res (int_0x80 (regs\<lparr>reg_eax := 1, reg_ebx := text_5678, reg_ecx := 5\<rparr>) s)
       (\<lambda>(regs', s'). umode2 n text_5678 regs' s')"

section \<open>The test of the heap passes\<close>

text \<open>Allocation from a heap whose only hole is its last block, and freeing, through \<open>kmalloc\<close> and \<open>kfree\<close>.\<close>

lemma test_alloc:
  assumes up: "kernel_heap m \<noteq> 0" and inv: "heap_inv m (us @ [(N, k)])" and k: "k \<noteq> Used" "k \<noteq> Lost"
    and us: "\<forall>b \<in> set us. snd b = Used" and n: "n = unat sz + 20" "n + 20 < N"
  obtains m' where "kmalloc (Suc d) m sz = Inr (of_nat (heap_start m + total us + 12), m')" "resized m m'"
    "heap_inv m' (us @ [(n, Used), (N - n, Hole)])"
proof -
  have "N < 2147483648" using heap_invD(2,5) [OF inv] by simp
  then have len: "unat sz + 20 < 2147483648" using n by simp
  have "fits_in m (us @ [(N, k)]) (unat sz + 20) 0"
    using k n by (intro fits_inI [of _ us N k "[]"]) (simp_all add: front_def)
  then obtain pre hsz post where t: "taken m (us @ [(N, k)]) (unat sz + 20) 0 pre hsz post"
    by (rule taken_exists [OF inv le_add2 len])
  then obtain k' where b: "us @ [(N, k)] = pre @ (hsz, k') # post" "k' \<noteq> Used" using takenD(2) by blast
  have "post = []"
  proof (rule ccontr)
    assume "post \<noteq> []"
    then have "us = pre @ (hsz, k') # butlast post" using b(1) by (metis butlast.simps(2) butlast_append butlast_snoc list.distinct(1))
    then show False using us b(2) by simp
  qed
  then have parts: "pre = us" "hsz = N" "post = []" using b(1) by simp_all
  obtain m' where m': "heap_alloc (\<lambda>sz s. kmalloc_impl d s sz 1 True) m sz 0 = Inr (of_nat (heap_start m + total us + 12), m')"
    "resized m m'" "heap_inv m' (alloc_blocks us 0 (unat sz + 20) N [])"
    using heap_alloc_plain [OF inv len t] unfolding parts by metis
  moreover have "alloc_blocks us 0 (unat sz + 20) N [] = us @ [(n, Used), (N - n, Hole)]"
    using n by (simp add: alloc_blocks_def block_size_def remainder_def)
  ultimately show ?thesis using that up by (simp add: kmalloc_def)
qed

lemma test_free:
  assumes up: "kernel_heap m \<noteq> 0" and inv: "heap_inv m (pre @ (n, Used) # post)"
    and lost: "pre \<noteq> [] \<Longrightarrow> snd (last pre) \<noteq> Lost" "post \<noteq> [] \<Longrightarrow> snd (hd post) \<noteq> Lost"
    and j: "join_left pre n = (pre', n1)" "join_right n1 post = (n2, post')"
    and room: "pre' \<noteq> pre \<or> post' \<noteq> post \<or> length (index_list m) < index_capacity m"
  obtains m' where "kfree m (of_nat (heap_start m + total pre + 12)) = Inr m'" "resized m m'"
    "heap_inv m' (pre' @ (n2, Hole) # post')"
  using heap_free_ok [OF inv lost j room] up by (metis kfree_def)

lemma resized_heap: "resized m m' \<Longrightarrow> kernel_heap m' = kernel_heap m"
  by (auto simp: resized_def)

lemma holes_listed: "heap_inv m bs \<Longrightarrow> length (index_list m) = length (holes_of (heap_start m) bs)"
  using mset_eq_length heap_invD(4) by blast

text \<open>The block of 8 bytes may come from either hole; giving it back leaves the same blocks.\<close>

lemma test_middle:
  assumes up: "kernel_heap m \<noteq> 0" and inv: "heap_inv m [(48, Hole), (36, Used), (N, Hole)]"
    and N: "48 < N" and cap: "2 \<le> index_capacity m"
  obtains p m1 m2 where "kmalloc (Suc d) m 8 = Inr (p, m1)" "kfree m1 p = Inr m2" "resized m m2"
    "heap_inv m2 [(48, Hole), (36, Used), (N, Hole)]"
proof -
  let ?bs = "[(48, Hole), (36, Used), (N, Hole)]"
  have n: "unat (8 :: u32) + 20 = 28" by simp
  have "fits_in m ?bs 28 0" by (rule fits_inI [of _ "[]" 48 Hole]) (simp_all add: front_def)
  then obtain pre hsz post where t: "taken m ?bs (unat (8 :: u32) + 20) 0 pre hsz post"
    using taken_exists [OF inv, of 28 0] unfolding n by auto
  then obtain k where b: "?bs = pre @ (hsz, k) # post" "k \<noteq> Used" using takenD(2) by blast
  have len: "unat (8 :: u32) + 20 < 2147483648" by simp
  obtain m1 where h: "heap_alloc (\<lambda>sz s. kmalloc_impl d s sz 1 True) m 8 0 = Inr (of_nat (heap_start m + total pre + 12), m1)"
    and m1: "resized m m1" "heap_inv m1 (alloc_blocks pre 0 28 hsz post)"
    using heap_alloc_plain [OF inv len t] unfolding n by metis
  have alloc: "kmalloc (Suc d) m 8 = Inr (of_nat (heap_start m + total pre + 12), m1)"
    using h up by (simp add: kmalloc_def)
  have up1: "kernel_heap m1 \<noteq> 0" and hs: "heap_start m1 = heap_start m" "index_capacity m1 = index_capacity m"
    using up resized_heap [OF m1(1)] resized_frame [OF m1(1)] by simp_all
  have "(pre = [] \<and> hsz = 48 \<and> post = [(36, Used), (N, Hole)]) \<or> (pre = [(48, Hole), (36, Used)] \<and> hsz = N \<and> post = [])"
    using b by (auto simp: Cons_eq_append_conv append_eq_Cons_conv)
  then obtain m2 where m2: "kfree m1 (of_nat (heap_start m1 + total pre + 12)) = Inr m2" "resized m1 m2" "heap_inv m2 ?bs"
  proof (elim disjE conjE)
    assume c: "pre = []" "hsz = 48" "post = [(36, Used), (N, Hole)]"
    have i: "heap_inv m1 ([] @ (48, Used) # post)" using m1(2) by (simp add: c alloc_blocks_def block_size_def remainder_def)
    have "length (index_list m1) < index_capacity m1" using holes_listed [OF i] cap hs by (simp add: c)
    then show thesis using test_free [OF up1 i, of "[]" 48 48 post] that by (auto simp: c join_left_def)
  next
    assume c: "pre = [(48, Hole), (36, Used)]" "hsz = N" "post = []"
    have "\<not> N - 28 \<le> 20" "28 < N" using N by linarith+
    then have i: "heap_inv m1 (pre @ (28, Used) # [(N - 28, Hole)])"
      using m1(2) by (simp add: c alloc_blocks_def block_size_def remainder_def)
    show thesis using test_free [OF up1 i, of pre 28 N "[]"] that N by (auto simp: c join_left_def)
  qed
  from that [OF alloc m2(1) [unfolded hs(1)] resized_trans [OF m1(1) m2(2)] m2(3)] show ?thesis .
qed

text \<open>
  The heap of \<open>m\<close> with the blocks \<open>bs\<close>, in the state \<open>m'\<close>, and the pointer to the payload
  of the block at offset \<open>n\<close>.
\<close>

definition heap_with :: "mm_state \<Rightarrow> mm_state \<Rightarrow> block list \<Rightarrow> bool" where
  "heap_with m m' bs \<longleftrightarrow> resized m m' \<and> heap_inv m' bs"

definition payload_ptr :: "mm_state \<Rightarrow> nat \<Rightarrow> u32" where
  "payload_ptr m n = of_nat (heap_start m + n + 12)"

lemma step_alloc:
  assumes up: "kernel_heap m \<noteq> 0" and h: "heap_with m m1 bs" and bs: "bs = us @ [(h, k)]"
    and rest: "k \<noteq> Used" "k \<noteq> Lost" "\<forall>b \<in> set us. snd b = Used" "n = unat sz + 20" "n + 20 < h"
    and goal: "t = total us" "bs' = us @ [(n, Used), (h - n, Hole)]"
  shows "\<exists>m'. kmalloc (Suc d) m1 sz = Inr (payload_ptr m t, m') \<and> heap_with m m' bs'"
proof -
  have r: "resized m m1" "heap_inv m1 (us @ [(h, k)])" using h bs by (simp_all add: heap_with_def)
  then have "kernel_heap m1 \<noteq> 0" using up by (simp add: resized_heap)
  from test_alloc [OF this r(2) rest] show ?thesis unfolding goal
    using resized_trans [OF r(1)] resized_frame(3) [OF r(1)] by (metis payload_ptr_def heap_with_def)
qed

lemma length_holes: "length (holes_of a bs) = length (filter (\<lambda>b. snd b \<noteq> Used) bs)"
  by (induction bs arbitrary: a) auto

lemma step_free:
  assumes up: "kernel_heap m \<noteq> 0" and cap: "2 \<le> index_capacity m" and h: "heap_with m m1 bs"
    and bs: "bs = pre @ (n, Used) # post"
    and nl: "not_lost (pre @ post)" and j: "join_left pre n = (pre', n1)" "join_right n1 post = (n2, post')"
    and room: "length (filter (\<lambda>b. snd b \<noteq> Used) (pre @ post)) < 2 \<or> pre' \<noteq> pre \<or> post' \<noteq> post"
    and goal: "t = total pre" "bs' = pre' @ (n2, Hole) # post'"
  shows "\<exists>m'. kfree m1 (payload_ptr m t) = Inr m' \<and> heap_with m m' bs'"
proof -
  have r: "resized m m1" "heap_inv m1 (pre @ (n, Used) # post)" using h bs by (simp_all add: heap_with_def)
  then have up1: "kernel_heap m1 \<noteq> 0" and hs: "heap_start m1 = heap_start m" "index_capacity m1 = index_capacity m"
    using up resized_frame [OF r(1)] by (simp_all add: resized_heap)
  have lost: "pre \<noteq> [] \<Longrightarrow> snd (last pre) \<noteq> Lost" "post \<noteq> [] \<Longrightarrow> snd (hd post) \<noteq> Lost"
    using nl by (auto simp: not_lost_def)
  have "pre' \<noteq> pre \<or> post' \<noteq> post \<or> length (index_list m1) < index_capacity m1"
    using room holes_listed [OF r(2)] cap hs by (auto simp: length_holes)
  from test_free [OF up1 r(2) lost j this] show ?thesis unfolding goal
    using resized_trans [OF r(1)] hs(1) by (metis payload_ptr_def heap_with_def)
qed

text \<open>The calls of \<open>test_kmalloc\<close> on the memory manager, and the blocks after each.\<close>

lemma test_calls:
  assumes up: "kernel_heap m \<noteq> 0" and inv: "heap_inv m [(N, k)]" "k \<noteq> Used" "k \<noteq> Lost" "200 < N"
    and cap: "2 \<le> index_capacity m"
  shows "\<exists>ma mb mc md me mf mg q mh mi mj mk.
    kmalloc (Suc d) m 4 = Inr (payload_ptr m 0, ma) \<and> kmalloc (Suc d) ma 4 = Inr (payload_ptr m 24, mb)
    \<and> kmalloc (Suc d) mb 4 = Inr (payload_ptr m 48, mc) \<and> kfree mc (payload_ptr m 48) = Inr md
    \<and> kmalloc (Suc d) md 16 = Inr (payload_ptr m 48, me) \<and> kfree me (payload_ptr m 0) = Inr mf
    \<and> kfree mf (payload_ptr m 24) = Inr mg \<and> kmalloc (Suc d) mg 8 = Inr (q, mh) \<and> kfree mh q = Inr mi
    \<and> kfree mi 0 = Inr mi \<and> kfree mi (payload_ptr m 48) = Inr mj
    \<and> kmalloc (Suc d) mj 32 = Inr (payload_ptr m 0, mk) \<and> heap_inv mk [(52, Used), (N - 52, Hole)]"
proof -
  have N: "24 + 20 < N" "48 < N - 84" using inv(4) by linarith+
  obtain M where M: "N = M + 201" using inv(4) that [of "N - 201"] by linarith
  have "heap_with m m [(N, k)]" using inv(1) by (simp add: heap_with_def)
  then obtain ma where a: "kmalloc (Suc d) m 4 = Inr (payload_ptr m 0, ma)" "heap_with m ma [(24, Used), (N - 24, Hole)]"
    using step_alloc [OF up _ _ inv(2,3) _ _ N(1), of m "[(N, k)]" "[]" 4 0 "[(24, Used), (N - 24, Hole)]" d] by auto
  have "\<exists>m'. kmalloc (Suc d) ma 4 = Inr (payload_ptr m 24, m') \<and> heap_with m m' [(24, Used), (24, Used), (N - 48, Hole)]"
    by (rule step_alloc [OF up a(2), of "[(24, Used)]" "N - 24" Hole 24]) (simp_all add: M not_lost_def join_left_def)
  then obtain mb where b: "kmalloc (Suc d) ma 4 = Inr (payload_ptr m 24, mb)" "heap_with m mb [(24, Used), (24, Used), (N - 48, Hole)]" by blast
  have "\<exists>m'. kmalloc (Suc d) mb 4 = Inr (payload_ptr m 48, m') \<and> heap_with m m' [(24, Used), (24, Used), (24, Used), (N - 72, Hole)]"
    by (rule step_alloc [OF up b(2), of "[(24, Used), (24, Used)]" "N - 48" Hole 24]) (simp_all add: M not_lost_def join_left_def)
  then obtain mc where c: "kmalloc (Suc d) mb 4 = Inr (payload_ptr m 48, mc)" "heap_with m mc [(24, Used), (24, Used), (24, Used), (N - 72, Hole)]" by blast
  have "\<exists>m'. kfree mc (payload_ptr m 48) = Inr (m') \<and> heap_with m m' [(24, Used), (24, Used), (N - 48, Hole)]"
    by (rule step_free [OF up cap c(2), of "[(24, Used), (24, Used)]" 24 "[(N - 72, Hole)]" _ _ "N - 48" "[]"]) (simp_all add: M not_lost_def join_left_def)
  then obtain md where d: "kfree mc (payload_ptr m 48) = Inr (md)" "heap_with m md [(24, Used), (24, Used), (N - 48, Hole)]" by blast
  have "\<exists>m'. kmalloc (Suc d) md 16 = Inr (payload_ptr m 48, m') \<and> heap_with m m' [(24, Used), (24, Used), (36, Used), (N - 84, Hole)]"
    by (rule step_alloc [OF up d(2), of "[(24, Used), (24, Used)]" "N - 48" Hole 36]) (simp_all add: M not_lost_def join_left_def)
  then obtain me where e: "kmalloc (Suc d) md 16 = Inr (payload_ptr m 48, me)" "heap_with m me [(24, Used), (24, Used), (36, Used), (N - 84, Hole)]" by blast
  have "\<exists>m'. kfree me (payload_ptr m 0) = Inr (m') \<and> heap_with m m' [(24, Hole), (24, Used), (36, Used), (N - 84, Hole)]"
    by (rule step_free [OF up cap e(2), of "[]" 24 "[(24, Used), (36, Used), (N - 84, Hole)]" "[]" 24 24]) (simp_all add: M not_lost_def join_left_def)
  then obtain mf where f: "kfree me (payload_ptr m 0) = Inr (mf)" "heap_with m mf [(24, Hole), (24, Used), (36, Used), (N - 84, Hole)]" by blast
  have "\<exists>m'. kfree mf (payload_ptr m 24) = Inr (m') \<and> heap_with m m' [(48, Hole), (36, Used), (N - 84, Hole)]"
    by (rule step_free [OF up cap f(2), of "[(24, Hole)]" 24 "[(36, Used), (N - 84, Hole)]" "[]" 48 48]) (simp_all add: M not_lost_def join_left_def)
  then obtain mg where g: "kfree mf (payload_ptr m 24) = Inr (mg)" "heap_with m mg [(48, Hole), (36, Used), (N - 84, Hole)]" by blast
  have r_g: "resized m mg" "heap_inv mg [(48, Hole), (36, Used), (N - 84, Hole)]" using g(2) by (simp_all add: heap_with_def)
  then have "kernel_heap mg \<noteq> 0" "2 \<le> index_capacity mg"
    using up cap resized_heap [OF r_g(1)] resized_frame(2) [OF r_g(1)] by simp_all
  then obtain q mh mi where h: "kmalloc (Suc d) mg 8 = Inr (q, mh)" "kfree mh q = Inr mi" "resized mg mi"
    "heap_inv mi [(48, Hole), (36, Used), (N - 84, Hole)]"
    using test_middle [OF _ r_g(2)] N by metis
  then have i: "heap_with m mi [(48, Hole), (36, Used), (N - 84, Hole)]"
    using resized_trans [OF r_g(1)] by (simp add: heap_with_def)
  have "\<exists>m'. kfree mi (payload_ptr m 48) = Inr (m') \<and> heap_with m m' [(N, Hole)]"
    by (rule step_free [OF up cap i, of "[(48, Hole)]" 36 "[(N - 84, Hole)]" "[]" 84 N "[]"]) (simp_all add: M not_lost_def join_left_def)
  then obtain mj where j: "kfree mi (payload_ptr m 48) = Inr (mj)" "heap_with m mj [(N, Hole)]" by blast
  have "\<exists>m'. kmalloc (Suc d) mj 32 = Inr (payload_ptr m 0, m') \<and> heap_with m m' [(52, Used), (N - 52, Hole)]"
    by (rule step_alloc [OF up j(2), of "[]" N Hole 52]) (simp_all add: M not_lost_def join_left_def)
  then obtain mk where k: "kmalloc (Suc d) mj 32 = Inr (payload_ptr m 0, mk)" "heap_with m mk [(52, Used), (N - 52, Hole)]" by blast
  have "kfree mi 0 = Inr mi" by (simp add: kfree_def heap_free_def)
  then show ?thesis using a(1) b(1) c(1) d(1) e(1) f(1) g(1) h(1,2) j(1) k unfolding heap_with_def by blast
qed

text \<open>
  C17.  The kernel's own test of the heap passes on a heap of one hole of more than 200 bytes,
  whatever was in the memory before: it allocates, frees and allocates again, reports
  \<open>DONE\<close>, and leaves one block of 52 bytes in front of the rest.
\<close>

theorem test_kmalloc_passes:
  assumes "kernel_heap (mm s) \<noteq> 0" "heap_inv (mm s) [(N, k)]" "k \<noteq> Used" "k \<noteq> Lost" "200 < N"
    and "2 \<le> index_capacity (mm s)"
  shows "\<exists>m. test_kmalloc (Suc d) s
      = Inr (status ''DONE'' True ((put_chars 7 (ascii ''Testing heap allocation and freeing'') s)\<lparr>mm := m\<rparr>))
    \<and> heap_inv m [(52, Used), (N - 52, Hole)]"
proof -
  define s0 where "s0 = put_chars 7 (ascii ''Testing heap allocation and freeing'') s"
  have said: "say ''Testing heap allocation and freeing'' [] s = Inr s0"
    unfolding s0_def by (rule say_plain) (simp_all add: ascii_def of_char_def)
  have "monitor.more s0 = monitor.more s" by (simp add: s0_def)
  then have mm0: "mm s0 = mm s" using vm_state_more by blast
  obtain ma mb mc md me mf mg q mh mi mj mk where
    "kmalloc (Suc d) (mm s) 4 = Inr (payload_ptr (mm s) 0, ma)" "kmalloc (Suc d) ma 4 = Inr (payload_ptr (mm s) 24, mb)"
    "kmalloc (Suc d) mb 4 = Inr (payload_ptr (mm s) 48, mc)" "kfree mc (payload_ptr (mm s) 48) = Inr md"
    "kmalloc (Suc d) md 16 = Inr (payload_ptr (mm s) 48, me)" "kfree me (payload_ptr (mm s) 0) = Inr mf"
    "kfree mf (payload_ptr (mm s) 24) = Inr mg" "kmalloc (Suc d) mg 8 = Inr (q, mh)" "kfree mh q = Inr mi"
    "kfree mi 0 = Inr mi" "kfree mi (payload_ptr (mm s) 48) = Inr mj"
    "kmalloc (Suc d) mj 32 = Inr (payload_ptr (mm s) 0, mk)" and mk: "heap_inv mk [(52, Used), (N - 52, Hole)]"
    using test_calls [OF assms, of d] by blast
  then have "test_kmalloc (Suc d) s = Inr (status ''DONE'' True (s0\<lparr>mm := mk\<rparr>))"
    by (simp add: test_kmalloc_def said kmalloc_k_def kfree_k_def with_mm_def mm0 Let_def)
  then show ?thesis using mk unfolding s0_def by blast
qed

theorem test_kmalloc_passes_witness:
  "\<exists>m. test_kmalloc 1 (blank_vm\<lparr>mm := sample_heap\<rparr>) = Inr (status ''DONE'' True
      ((put_chars 7 (ascii ''Testing heap allocation and freeing'') (blank_vm\<lparr>mm := sample_heap\<rparr>))\<lparr>mm := m\<rparr>))
    \<and> heap_inv m [(52, Used), (8140, Hole)]"
  using test_kmalloc_passes [of "blank_vm\<lparr>mm := sample_heap\<rparr>" "0x2000" Hole 0] sample_heap_inv
  by (simp add: sample_heap_def) (simp add: sample_state_def)

end
