(* ===== verification/Kernel_Run.thy ===== *)
theory Kernel_Run
  imports Interrupts
begin

text \<open>
  The kernel in service, as a transition system: a timer interrupt, another interrupt, a trap
  of the running program, or the program at work on its own pages and registers.  The
  invariant \<open>serving\<close> is what the handlers rely on; every step keeps it and no timer
  interrupt can fail in it.
\<close>

section \<open>What the steps change\<close>

text \<open>Output: the screen and the ports, and the cursor stays on the screen.\<close>

definition screen_only :: "'a monitor_scheme \<Rightarrow> 'a monitor_scheme \<Rightarrow> bool" where
  "screen_only s s' \<longleftrightarrow> monitor.more s' = monitor.more s \<and> (on_screen s \<longrightarrow> on_screen s')"

lemma screen_only_refl [simp, intro]: "screen_only s s"
  by (simp add: screen_only_def)

lemma screen_only_trans [trans]: "screen_only s s' \<Longrightarrow> screen_only s' s'' \<Longrightarrow> screen_only s s''"
  by (simp add: screen_only_def)

lemma screen_only_say: "say text args s = Inr s' \<Longrightarrow> screen_only s s'"
  using more_say say_on_screen by (auto simp: screen_only_def)

lemma screen_only_outb [simp]: "screen_only s s' \<Longrightarrow> screen_only s (outb p v s')"
  by (cases s') (simp add: screen_only_def outb_def on_screen_def)

lemma screen_only_write_chars: "write_chars n p s = Inr s' \<Longrightarrow> screen_only s s'"
proof (induction n arbitrary: p s)
  case (Suc n)
  then obtain b s1 where "say ''%c'' [Num (scast (b :: u8))] s = Inr s1" "write_chars n (p + 1) s1 = Inr s'"
    by (auto simp: bind_res_eq_Inr)
  then show ?case using Suc.IH screen_only_say screen_only_trans by blast
qed simp

lemma screen_only_syscall:
  assumes "syscall_handler regs s = Inr (regs', s')"
  shows "screen_only s s'"
proof (cases "reg_eax regs \<ge> NUM_SYSCALLS")
  case True
  then show ?thesis using assms screen_only_say by (auto simp: syscall_handler_def bind_res_eq_Inr)
next
  case False
  then have "unat (reg_eax regs) = 0 \<or> unat (reg_eax regs) = 1" by (simp add: NUM_SYSCALLS_def word_le_nat_alt) linarith
  then show ?thesis using assms False screen_only_say screen_only_write_chars
    by (auto simp: syscall_handler_def syscalls_def null_syscall_def tty_write_def bind_res_eq_Inr)
qed

lemma screen_only_call:
  assumes "call_handler h regs s = Inr (regs', s')" "h \<noteq> Timer_Callback"
  shows "screen_only s s'"
  using assms screen_only_syscall by (cases h) (auto simp: call_handler_def page_fault_handler_def bind_res_eq_Inr)

lemma int_no_stub_frame [simp]: "int_no (stub_frame n err regs) = n"
  by (simp add: stub_frame_def)

lemma screen_only_trap:
  assumes "isr_stub_run n err regs s = Inr (r, s')" "handler_of n s \<noteq> Inr (Some Timer_Callback)"
  shows "screen_only s s'"
proof (cases "handler_of n s")
  case (Inr h)
  then show ?thesis
  proof (cases h)
    case None
    then show ?thesis using assms(1) Inr screen_only_say
      by (auto simp: isr_stub_run_def isr_common_handler_def bind_res_eq_Inr split: if_splits)
  next
    case (Some f)
    then obtain regs' where "call_handler f (stub_frame n err regs) s = Inr (regs', s')"
      using assms(1) Inr by (auto simp: isr_stub_run_def isr_common_handler_def bind_res_eq_Inr split: if_splits)
    then show ?thesis using Some Inr assms(2) screen_only_call by blast
  qed
qed (use assms(1) in \<open>simp add: isr_stub_run_def isr_common_handler_def\<close>)

lemma screen_only_irq:
  assumes "irq_stub_run n regs s = Inr (r, s')" "handler_of n s \<noteq> Inr (Some Timer_Callback)"
  shows "screen_only s s'"
proof (cases "handler_of n s")
  case (Inr h)
  then have h: "h \<noteq> Some Timer_Callback" using assms(2) by simp
  then obtain regs'' where irq: "irq_common_handler call_handler (stub_frame n 0 regs) s = Inr (regs'', s')"
    using assms(1) Inr by (auto simp: irq_stub_run_def bind_res_eq_Inr)
  define called where "called = (case h of Some f \<Rightarrow> call_handler f (stub_frame n 0 regs) s | None \<Rightarrow> Inr (stub_frame n 0 regs, s))"
  obtain regs' s1 where run: "called = Inr (regs', s1)"
    and s': "s' = outb 0x20 0x20 (if int_no regs' \<ge> PIC_SLAVE_LOW_INT then outb 0xA0 0x20 s1 else s1)"
  proof (cases called)
    case (Inr x)
    obtain regs' s1 where x: "x = (regs', s1)" by (cases x)
    show ?thesis
    proof (rule that)
      show "called = Inr (regs', s1)" by (simp only: Inr x)
      show "s' = outb 0x20 0x20 (if int_no regs' \<ge> PIC_SLAVE_LOW_INT then outb 0xA0 0x20 s1 else s1)"
        using irq unfolding irq_common_handler_def int_no_stub_frame \<open>handler_of n s = Inr h\<close> bind_res_Inr
          called_def [symmetric] Inr x Let_def prod.case by (elim Inr_inject [THEN Pair_inject]) (simp only:)
    qed
  qed (use irq \<open>handler_of n s = Inr h\<close> in \<open>simp add: irq_common_handler_def flip: called_def\<close>)
  have "screen_only s s1" using run h screen_only_call unfolding called_def by (cases h) auto
  moreover have "screen_only s1 s'" unfolding s' by simp
  ultimately show ?thesis by (rule screen_only_trans)
qed (use assms(1) in \<open>simp add: irq_stub_run_def\<close>)

section \<open>The invariant\<close>

text \<open>The directories of the live tasks.\<close>

definition live_dirs :: "'a kernel_state_scheme \<Rightarrow> u32 set" where
  "live_dirs s = {kload s (task_directory (task_ptr s p)) | p. p < MAX_NUM_TASKS \<and> alive s p}"

text \<open>
  The kernel is in service: the timer's callback is registered for interrupt 32 only, the cursor is
  on the screen, some task is alive and the last place of the table is free; the table is apart
  from the entry of the cloning buffer, and every live task can be resumed, whichever live task's
  directory is in use.
\<close>

definition serving :: "'a kernel_state_scheme \<Rightarrow> bool" where
  "serving s \<longleftrightarrow> on_screen s
     \<and> length (interrupt_handlers s) = 256
     \<and> (\<forall>n < 256. interrupt_handlers s ! n = Some Timer_Callback \<longleftrightarrow> n = 32)
     \<and> (unat (current_task s) < 255 \<or> current_task s = - 1)
     \<and> (\<exists>t < 255. alive s (of_nat t)) \<and> \<not> alive s 255
     \<and> bytes (cloning_buffer_page (mm s)) 4 \<inter> bytes (tasks_addr s) 19456 = {}
     \<and> (\<forall>p < MAX_NUM_TASKS. alive s p \<longrightarrow>
          (\<forall>dir \<in> insert (translation s) (live_dirs s). can_resume (s\<lparr>translation := dir\<rparr>) p))"

lemma kernel_state_more:
  "monitor.more s' = monitor.more s \<Longrightarrow> interrupt_handlers s' = interrupt_handlers s \<and> mm s' = mm s
     \<and> physical s' = physical s \<and> translation s' = translation s \<and> tasks_addr s' = tasks_addr s
     \<and> current_task s' = current_task s \<and> cpu s' = cpu s"
  by (cases s, cases s') simp

lemma alive_cong: "mm s' = mm s \<Longrightarrow> tasks_addr s' = tasks_addr s \<Longrightarrow> alive s' = alive s"
  by (simp add: alive_def task_ptr_def fun_eq_iff)

lemma can_resume_cong:
  "mm s' = mm s \<Longrightarrow> tasks_addr s' = tasks_addr s \<Longrightarrow> can_resume (s'\<lparr>translation := dir\<rparr>) = can_resume (s\<lparr>translation := dir\<rparr>)"
  by (simp add: can_resume_def kernel_byte_def table_of_def task_ptr_def Let_def fun_eq_iff)

lemma serving_cong:
  assumes "serving s" "on_screen s'" "interrupt_handlers s' = interrupt_handlers s" "mm s' = mm s"
    "translation s' = translation s" "tasks_addr s' = tasks_addr s" "current_task s' = current_task s"
  shows "serving s'"
proof -
  have "live_dirs s' = live_dirs s"
    using alive_cong [OF assms(4,6)] assms(4,6) by (simp add: live_dirs_def task_ptr_def)
  then show ?thesis
    using assms alive_cong [OF assms(4,6)] can_resume_cong [OF assms(4,6)] by (simp add: serving_def)
qed

lemma serving_screen:
  assumes "serving s" "screen_only s s'"
  shows "serving s'"
  using assms kernel_state_more [of s' s] by (intro serving_cong [OF assms(1)]) (auto simp: screen_only_def serving_def)

section \<open>A timer interrupt\<close>

text \<open>Writing the entry of the cloning buffer.\<close>

lemma in_table:
  assumes "p < MAX_NUM_TASKS"
  shows "bytes (task_ptr s p) 76 \<subseteq> bytes (tasks_addr s) 19456"
proof
  fix x assume x: "x \<in> bytes (task_ptr s p) 76"
  have p: "unat p < 256" using assms by (simp add: MAX_NUM_TASKS_def word_less_nat_alt)
  then have "unat (sizeof_task * p) = 76 * unat p" by (simp add: sizeof_task_def unat_word_ariths)
  moreover have "x - tasks_addr s = (x - task_ptr s p) + sizeof_task * p" by (simp add: task_ptr_def)
  ultimately have "unat (x - tasks_addr s) = unat (x - task_ptr s p) + 76 * unat p"
    using x p by (simp only: in_bytes) (subst unat_add32, simp_all)
  then show "x \<in> bytes (tasks_addr s) 19456" using x p by simp
qed

lemma task_word_stored:
  assumes "bytes (cloning_buffer_page (mm s)) 4 \<inter> bytes (tasks_addr s) 19456 = {}" "p < MAX_NUM_TASKS"
    and "mm s' = (mm s)\<lparr>mem := store32 (mem (mm s)) (cloning_buffer_page (mm s)) w\<rparr>" "tasks_addr s' = tasks_addr s"
    and "unat k \<le> 72"
  shows "kload s' (task_ptr s' p + k) = kload s (task_ptr s p + k)"
proof -
  have "bytes (cloning_buffer_page (mm s)) 4 \<inter> bytes (task_ptr s p) 76 = {}"
    using in_table [OF assms(2), of s] assms(1) by blast
  from task_word_apart [OF this assms(5)] show ?thesis by (simp add: assms(3,4) task_ptr_def)
qed

lemma kernel_byte_stored:
  assumes "mm s' = (mm s)\<lparr>mem := store32 (mem (mm s)) (cloning_buffer_page (mm s)) w\<rparr>" "translation s' = translation s"
    and "kernel_byte s a"
  shows "kernel_byte s' a"
proof -
  let ?i = "a div PAGE_SIZE div PAGES_PER_TABLE"
  have "kload s' (dir_table dir ?i) = kload s (dir_table dir ?i)" if "dir \<in> {translation s, kernel_directory (mm s)}" for dir
    unfolding assms(1) using assms(3) that by (auto simp: kernel_byte_def Int_commute intro!: load32_store32_apart)
  then show ?thesis using assms(3) by (simp add: kernel_byte_def table_of_def assms(1,2))
qed

lemma window_copy_fields: "window_copy n off src s = Inr s' \<Longrightarrow> \<exists>ph. s' = s\<lparr>physical := ph\<rparr>"
proof (induction n arbitrary: off src s)
  case 0
  then show ?case by (intro exI [of _ "physical s"]) simp
next
  case (Suc n)
  then obtain ph where "window_copy n (off + 1) (src + 1) (s\<lparr>physical := ph\<rparr>) = Inr s'"
    by (auto simp: bind_res_eq_Inr split: if_splits)
  with Suc.IH obtain ph' where "s' = s\<lparr>physical := ph, physical := ph'\<rparr>" by blast
  then show ?case by auto
qed

lemma mm_memcpy_physical_fields:
  assumes "mm_memcpy_physical dest src sz s = Inr s'"
  obtains m ph where "s' = s\<lparr>mm := m, physical := ph\<rparr>"
proof -
  obtain s1 where s1: "map_window dest s = Inr s1" "window_copy (unat sz) (dest AND 0x0FFF) src s1 = Inr s'"
    using assms by (auto simp: mm_memcpy_physical_def bind_res_eq_Inr split: if_splits)
  obtain m where m: "s1 = s\<lparr>mm := m\<rparr>"
    using s1(1) by (auto simp: map_window_def update_mem_def Let_def split: if_splits)
  obtain ph where "s' = s1\<lparr>physical := ph\<rparr>" using window_copy_fields [OF s1(2)] by blast
  then show ?thesis using that m by simp
qed

lemma enter_user_fields:
  "interrupt_handlers (enter_user dir esp eip s) = interrupt_handlers s" "on_screen (enter_user dir esp eip s) = on_screen s"
  "tasks_addr (enter_user dir esp eip s) = tasks_addr s" "current_task (enter_user dir esp eip s) = current_task s"
  "translation (enter_user dir esp eip s) = dir"
  by (simp_all add: enter_user_def push32_def Let_def on_screen_def)

lemma task_switch_state:
  assumes "find_next_task s = Inr p" "task_switch s = Inr s'"
  obtains w where "mm s' = (mm s)\<lparr>mem := store32 (mem (mm s)) (cloning_buffer_page (mm s)) w\<rparr>"
    "tasks_addr s' = tasks_addr s" "current_task s' = p" "interrupt_handlers s' = interrupt_handlers s"
    "on_screen s' = on_screen s" "translation s' = kload s' (task_directory (task_ptr s p))"
proof -
  obtain page m1 dest sz src s3 where
    page: "get_page (\<lambda>_ _. Inl StackExhausted) (mm s) TASK_USER_STACK_BOTTOM False (kload s (task_directory (task_ptr s p))) = Inr (page, m1)"
    and copy: "mm_memcpy_physical dest src sz (s\<lparr>current_task := p, mm := m1\<rparr>) = Inr s3"
    and s': "s' = (let s4 = outb 0xA0 0x20 (outb 0x20 0x20 s3); task = task_ptr s p
       in enter_user (kload s4 (task_directory task)) (kload s4 (saved_esp task)) (kload s4 (saved_eip task)) s4)"
    using assms unfolding task_switch_def Let_def with_mm_def
    by (auto simp: bind_res_eq_Inr split: if_splits)
  have m1: "m1 = mm s" using page get_page_present by blast
  obtain w where mm: "mm s3 = (mm s)\<lparr>mem := store32 (mem (mm s)) (cloning_buffer_page (mm s)) w\<rparr>"
    using mm_memcpy_physical_mm [OF copy] by (auto simp: m1)
  obtain m ph where s3: "s3 = s\<lparr>current_task := p, mm := m1, mm := m, physical := ph\<rparr>"
    by (rule mm_memcpy_physical_fields [OF copy])
  have fields: "tasks_addr s3 = tasks_addr s" "current_task s3 = p" "interrupt_handlers s3 = interrupt_handlers s"
    "on_screen s3 = on_screen s" unfolding s3 by (simp_all add: on_screen_def)
  have mm': "mm s' = mm s3" unfolding s' Let_def by (simp add: outb_def)
  show ?thesis
  proof (rule that)
    show "translation s' = kload s' (task_directory (task_ptr s p))"
      unfolding mm' unfolding s' Let_def enter_user_fields by (simp add: outb_def)
  qed (use mm fields in \<open>simp_all add: mm' s' Let_def enter_user_fields, simp_all add: outb_def on_screen_def\<close>)
qed

lemma can_resume_stored:
  assumes mm: "mm s' = (mm s)\<lparr>mem := store32 (mem (mm s)) (cloning_buffer_page (mm s)) w\<rparr>" and tasks: "tasks_addr s' = tasks_addr s"
    and apart: "bytes (cloning_buffer_page (mm s)) 4 \<inter> bytes (tasks_addr s) 19456 = {}"
    and res: "can_resume (s\<lparr>translation := dir\<rparr>) p"
  shows "can_resume (s'\<lparr>translation := dir\<rparr>) p"
proof -
  let ?s = "s\<lparr>translation := dir\<rparr>" and ?s' = "s'\<lparr>translation := dir\<rparr>"
  have p: "p < MAX_NUM_TASKS" using res by (simp add: can_resume_def Let_def)
  have ptr: "task_ptr ?s' p = task_ptr ?s p" by (simp add: task_ptr_def tasks)
  have word: "kload ?s' (task_ptr ?s p + k) = kload ?s (task_ptr ?s p + k)" if "unat k \<le> 72" for k
    using task_word_stored [of ?s p ?s' w k] apart p mm tasks that by (simp add: task_ptr_def)
  have dir: "kload ?s' (task_directory (task_ptr ?s p)) = kload ?s (task_directory (task_ptr ?s p))"
    "kload ?s' (saved_esp (task_ptr ?s p)) = kload ?s (saved_esp (task_ptr ?s p))"
    unfolding task_directory_def saved_esp_def saved_state_def add.assoc by (rule word; simp)+
  have slot: "kload ?s' a = kload ?s a" if "bytes (cloning_buffer_page (mm s)) 4 \<inter> bytes a 4 = {}" for a
    using that by (simp add: mm load32_store32_apart)
  have byte: "kernel_byte ?s' a" if "kernel_byte ?s a" for a
    by (rule kernel_byte_stored [OF _ _ that, of _ w]) (simp_all add: mm)
  have page: "cloning_buffer_page (mm ?s') = cloning_buffer_page (mm ?s)" by (simp add: mm)
  show ?thesis using res byte slot unfolding can_resume_def Let_def ptr page dir by simp
qed

lemma serving_tick:
  assumes "serving s"
  obtains s' where "irq_stub_run 32 regs s = Inr (None, s')" "task_switch s = Inr s'"
    "find_next_task s = Inr (current_task s')" "can_resume s (current_task s')" "alive s (current_task s')" "serving s'"
    "\<forall>p < MAX_NUM_TASKS. \<forall>k. unat k \<le> 72 \<longrightarrow> kload s' (task_ptr s' p + k) = kload s (task_ptr s p + k)"
proof -
  note inv = assms [unfolded serving_def]
  obtain t where t: "t < 255" "alive s (of_nat t)" using inv by blast
  have cur: "current_task s \<noteq> 255" "unat (current_task s) < 256 \<or> current_task s = - 1" using inv by auto
  obtain j where j: "find_next_task s = Inr (ring_task (unat (current_task s + 1)) j)"
    "alive s (ring_task (unat (current_task s + 1)) j)"
    using find_next_task_ring [OF cur t(2)] t(1) by auto
  define p where "p = ring_task (unat (current_task s + 1)) j"
  have p: "unat p < 256" "alive s p" "find_next_task s = Inr p"
    using j by (simp_all add: p_def ring_task_def unat_of_nat32)
  then have small: "p < MAX_NUM_TASKS" by (simp add: MAX_NUM_TASKS_def word_less_nat_alt)
  have "can_resume (s\<lparr>translation := translation s\<rparr>) p" using inv small p(2) by blast
  then have res: "can_resume s p" by simp
  from task_switch_resumes [OF p(3) res] obtain s' where s': "task_switch s = Inr s'" by blast
  obtain w where st: "mm s' = (mm s)\<lparr>mem := store32 (mem (mm s)) (cloning_buffer_page (mm s)) w\<rparr>"
    "tasks_addr s' = tasks_addr s" "current_task s' = p" "interrupt_handlers s' = interrupt_handlers s"
    "on_screen s' = on_screen s" "translation s' = kload s' (task_directory (task_ptr s p))"
    by (rule task_switch_state [OF p(3) s'])
  have apart: "bytes (cloning_buffer_page (mm s)) 4 \<inter> bytes (tasks_addr s) 19456 = {}" using inv by blast
  have word: "kload s' (task_ptr s' q + k) = kload s (task_ptr s q + k)" if "q < MAX_NUM_TASKS" "unat k \<le> 72" for q k
    by (rule task_word_stored [OF apart that(1) st(1,2) that(2)])
  have alive: "alive s' q = alive s q" if "q < MAX_NUM_TASKS" for q
    using word [OF that, of 4] by (simp add: alive_def task_alive_def)
  have dirs: "live_dirs s' = live_dirs s"
  proof -
    have "kload s' (task_directory (task_ptr s' q)) = kload s (task_directory (task_ptr s q))" if "q < MAX_NUM_TASKS" for q
      using word [OF that, of 8] by (simp add: task_directory_def)
    then show ?thesis unfolding live_dirs_def using alive by (intro Collect_cong) metis
  qed
  have "translation s' = kload s (task_directory (task_ptr s p))"
    unfolding st(6) using word [OF small, of 8] st(2) by (simp add: task_directory_def task_ptr_def)
  then have tr: "translation s' \<in> live_dirs s" using small p(2) by (auto simp: live_dirs_def)
  have "p \<noteq> 255" using p(2) inv by blast
  then have "unat p < 255" using p(1) by (auto simp: word_unat_eq_iff)
  moreover have "can_resume (s'\<lparr>translation := dir\<rparr>) q"
    if "q < MAX_NUM_TASKS" "alive s' q" "dir \<in> insert (translation s') (live_dirs s')" for q dir
    using inv that alive tr by (intro can_resume_stored [OF st(1,2) apart]) (auto simp: dirs)
  moreover have "alive s' (of_nat t)" "\<not> alive s' 255"
    using alive [of "of_nat t"] alive [of 255] t inv by (simp_all add: MAX_NUM_TASKS_def word_less_nat_alt unat_of_nat32)
  ultimately have serving: "serving s'"
    using inv t(1) unfolding serving_def by (auto simp: st(1-5))
  have "handler_of 32 s = Inr (Some Timer_Callback)" using inv by (simp add: handler_of_def)
  then have "irq_stub_run 32 regs s = Inr (None, s')" by (simp add: irq_stub_run_def timer_callback_def s')
  then show ?thesis using that s' p(2,3) res serving word st(3) by simp
qed

section \<open>Runs\<close>

text \<open>
  \<open>kernel_run s0 s ts\<close>: from \<open>s0\<close> the kernel gets to \<open>s\<close>, and \<open>ts\<close> are the tasks the timer's
  interrupts have chosen, the last one first.
\<close>

inductive kernel_run :: "'a kernel_state_scheme \<Rightarrow> 'a kernel_state_scheme \<Rightarrow> u32 list \<Rightarrow> bool" for s0 where
  start: "kernel_run s0 s0 []"
| tick: "kernel_run s0 s ts \<Longrightarrow> irq_stub_run 32 regs s = Inr (r, s') \<Longrightarrow> kernel_run s0 s' (current_task s' # ts)"
| irq: "kernel_run s0 s ts \<Longrightarrow> 32 < n \<Longrightarrow> n < 48 \<Longrightarrow> irq_stub_run n regs s = Inr (r, s') \<Longrightarrow> kernel_run s0 s' ts"
| trap: "kernel_run s0 s ts \<Longrightarrow> n < 32 \<or> n = 0x80 \<Longrightarrow> isr_stub_run n err regs s = Inr (r, s') \<Longrightarrow> kernel_run s0 s' ts"
| program: "kernel_run s0 s ts \<Longrightarrow> kernel_run s0 (s\<lparr>physical := ph, cpu := c\<rparr>) ts"

lemma not_timer:
  assumes "serving s" "n < 256" "n \<noteq> 32"
  shows "handler_of n s \<noteq> Inr (Some Timer_Callback)"
proof -
  have "unat n < 256" "unat n \<noteq> 32" using assms(2,3) by (auto simp: word_less_nat_alt word_unat_eq_iff)
  then show ?thesis using assms(1) by (auto simp: serving_def handler_of_def)
qed

text \<open>What a step other than a tick leaves as it is.\<close>

definition undisturbed :: "'a kernel_state_scheme \<Rightarrow> 'a kernel_state_scheme \<Rightarrow> bool" where
  "undisturbed s s' \<longleftrightarrow> mm s' = mm s \<and> tasks_addr s' = tasks_addr s \<and> current_task s' = current_task s"

lemma quiet_steps:
  assumes "serving s"
  shows "32 < n \<Longrightarrow> n < 48 \<Longrightarrow> irq_stub_run n regs s = Inr (r, s') \<Longrightarrow> serving s' \<and> undisturbed s s'"
    "n < 32 \<or> n = 0x80 \<Longrightarrow> isr_stub_run n err regs s = Inr (r, s') \<Longrightarrow> serving s' \<and> undisturbed s s'"
    "serving (s\<lparr>physical := ph, cpu := c\<rparr>) \<and> undisturbed s (s\<lparr>physical := ph, cpu := c\<rparr>)"
proof -
  have screen: "serving s' \<and> undisturbed s s'" if "screen_only s s'"
    using serving_screen [OF assms that] kernel_state_more [of s' s] that by (simp add: undisturbed_def screen_only_def)
  show "serving s' \<and> undisturbed s s'" if "32 < n" "n < 48" "irq_stub_run n regs s = Inr (r, s')"
    using that by (intro screen screen_only_irq [OF that(3)] not_timer [OF assms]) (auto simp: word_less_nat_alt)
  show "serving s' \<and> undisturbed s s'" if "n < 32 \<or> n = 0x80" "isr_stub_run n err regs s = Inr (r, s')"
    using that by (intro screen screen_only_trap [OF that(2)] not_timer [OF assms]) (auto simp: word_less_nat_alt)
  show "serving (s\<lparr>physical := ph, cpu := c\<rparr>) \<and> undisturbed s (s\<lparr>physical := ph, cpu := c\<rparr>)"
    using assms by (intro conjI serving_cong [OF assms]) (simp_all add: serving_def undisturbed_def on_screen_def)
qed

lemma kernel_run_serving: "kernel_run s0 s ts \<Longrightarrow> serving s0 \<Longrightarrow> serving s"
proof (induction rule: kernel_run.induct)
  case (tick s ts regs r s')
  then show ?case using serving_tick [of s regs] by (metis Inr_inject Pair_inject)
qed (use quiet_steps in \<open>blast+\<close>)

section \<open>What a run keeps\<close>

definition same_table :: "'a kernel_state_scheme \<Rightarrow> 'a kernel_state_scheme \<Rightarrow> bool" where
  "same_table s s' \<longleftrightarrow> (\<forall>p < MAX_NUM_TASKS. \<forall>k. unat k \<le> 72 \<longrightarrow> kload s' (task_ptr s' p + k) = kload s (task_ptr s p + k))"

lemma same_table_trans [trans]: "same_table s s' \<Longrightarrow> same_table s' s'' \<Longrightarrow> same_table s s''"
  by (simp add: same_table_def)

lemma same_table_undisturbed: "undisturbed s s' \<Longrightarrow> same_table s s'"
  by (simp add: same_table_def undisturbed_def task_ptr_def)

lemma undisturbed_kept:
  assumes "undisturbed s s'" "same_table s0 s \<and> current_task s = x \<and> P"
  shows "same_table s0 s' \<and> current_task s' = x \<and> P"
  using assms same_table_trans [OF _ same_table_undisturbed [OF assms(1)]] by (simp add: undisturbed_def)

lemma same_table_alive: "same_table s s' \<Longrightarrow> p < MAX_NUM_TASKS \<Longrightarrow> alive s' p = alive s p"
  by (simp add: same_table_def alive_def task_alive_def)

lemma next_loop_cong:
  assumes "\<And>p. p < MAX_NUM_TASKS \<Longrightarrow> alive s' p = alive s p"
  shows "next_loop k nxt s' = next_loop k nxt s"
  using assms by (induction k arbitrary: nxt) (auto simp: not_le)

lemma find_next_same:
  assumes "same_table s0 s" "current_task s = c"
  shows "find_next_task (s0\<lparr>current_task := c\<rparr>) = find_next_task s"
  using next_loop_cong [of s "s0\<lparr>current_task := c\<rparr>"] same_table_alive [OF assms(1)] assms(2)
  by (simp add: find_next_task_def)

lemma choices_Suc_right:
  "choices (Suc n) s = bind_res (choices n s) (\<lambda>s1. bind_res (find_next_task s1) (\<lambda>p. Inr (s1\<lparr>current_task := p\<rparr>)))"
proof (induction n arbitrary: s)
  case (Suc n)
  have "choices (Suc (Suc n)) s = bind_res (find_next_task s) (\<lambda>p. choices (Suc n) (s\<lparr>current_task := p\<rparr>))" by simp
  also have "\<dots> = bind_res (find_next_task s) (\<lambda>p. bind_res (choices n (s\<lparr>current_task := p\<rparr>))
      (\<lambda>s1. bind_res (find_next_task s1) (\<lambda>p. Inr (s1\<lparr>current_task := p\<rparr>))))" by (simp only: Suc.IH)
  also have "\<dots> = bind_res (choices (Suc n) s) (\<lambda>s1. bind_res (find_next_task s1) (\<lambda>p. Inr (s1\<lparr>current_task := p\<rparr>)))"
    by (cases "find_next_task s") simp_all
  finally show ?case .
qed simp

text \<open>The tasks chosen are the scheduler's choices from the first state's table, in their order.\<close>

lemma kernel_run_choices:
  "kernel_run s0 s ts \<Longrightarrow> serving s0 \<Longrightarrow>
     same_table s0 s \<and> current_task s = hd (ts @ [current_task s0])
     \<and> (\<forall>n < length ts. choices (Suc n) s0 = Inr (s0\<lparr>current_task := rev ts ! n\<rparr>))"
proof (induction rule: kernel_run.induct)
  case start
  then show ?case by (simp add: same_table_def)
next
  case (tick s ts regs r s')
  then have IH: "same_table s0 s" "current_task s = hd (ts @ [current_task s0])"
    "\<And>n. n < length ts \<Longrightarrow> choices (Suc n) s0 = Inr (s0\<lparr>current_task := rev ts ! n\<rparr>)" by auto
  have s': "find_next_task s = Inr (current_task s')" "same_table s s'"
    by (rule serving_tick [OF kernel_run_serving [OF tick.hyps(1) tick.prems], of regs],
        use tick.hyps(2) in \<open>simp add: same_table_def\<close>)+
  have last: "choices (length ts) s0 = Inr (s0\<lparr>current_task := current_task s\<rparr>)"
  proof (cases ts)
    case Nil
    then show ?thesis using IH(2) by simp
  next
    case (Cons t us)
    then have "choices (Suc (length us)) s0 = Inr (s0\<lparr>current_task := rev ts ! length us\<rparr>)" by (intro IH(3)) simp
    then show ?thesis using Cons IH(2) by (simp add: nth_append)
  qed
  have "find_next_task (s0\<lparr>current_task := current_task s\<rparr>) = Inr (current_task s')"
    using find_next_same [OF IH(1) refl] s'(1) by simp
  then have new: "choices (Suc (length ts)) s0 = Inr (s0\<lparr>current_task := current_task s'\<rparr>)"
    unfolding choices_Suc_right last by simp
  have "choices (Suc n) s0 = Inr (s0\<lparr>current_task := rev (current_task s' # ts) ! n\<rparr>)"
    if n: "n < length (current_task s' # ts)" for n
  proof (cases "n = length ts")
    case True
    then have "rev (current_task s' # ts) ! n = current_task s'" by (simp add: nth_append)
    then show ?thesis using new True by (simp only:)
  next
    case False
    then have "n < length ts" using n by simp
    moreover from this have "rev (current_task s' # ts) ! n = rev ts ! n" by (simp add: nth_append)
    ultimately show ?thesis using IH(3) by (simp only:)
  qed
  then show ?case using same_table_trans [OF IH(1) s'(2)] unfolding append_Cons list.sel by blast
next
  case (irq s ts n regs r s')
  then have "undisturbed s s'" using quiet_steps(1) kernel_run_serving by blast
  then show ?case by (rule undisturbed_kept [OF _ irq.IH [OF irq.prems]])
next
  case (trap s ts n err regs r s')
  then have "undisturbed s s'" using quiet_steps(2) kernel_run_serving by blast
  then show ?case by (rule undisturbed_kept [OF _ trap.IH [OF trap.prems]])
next
  case (program s ts c ph)
  then have "undisturbed s (s\<lparr>physical := ph, cpu := c\<rparr>)" using quiet_steps(3) kernel_run_serving by blast
  then show ?case by (rule undisturbed_kept [OF _ program.IH [OF program.prems]])
qed

section \<open>Properties\<close>

text \<open>
  C4.  The kernel in service.  However timer interrupts, other interrupts, traps that return
  and the programs' own work follow each other, the cursor stays on the screen and a timer interrupt never
  fails: it enters a task that was alive at the start, at the entry point and with the stack
  pointer its place of the table had at the start, whatever that task had been doing
  when it was interrupted.
\<close>

theorem kernel_run_ticks:
  assumes "kernel_run s0 s ts" "serving s0"
  shows "on_screen s \<and> (\<exists>s' c. irq_stub_run 32 regs s = Inr (None, s') \<and> cpu s' = Some c
    \<and> current_task s' < MAX_NUM_TASKS \<and> alive s0 (current_task s')
    \<and> ctx_eip c = kload s0 (saved_eip (task_ptr s0 (current_task s')))
    \<and> ctx_esp c = kload s0 (saved_esp (task_ptr s0 (current_task s'))))"
proof -
  have srv: "serving s" and tab: "same_table s0 s"
    using kernel_run_serving [OF assms] kernel_run_choices [OF assms] by blast+
  obtain s' where s': "irq_stub_run 32 regs s = Inr (None, s')" "task_switch s = Inr s'"
    "find_next_task s = Inr (current_task s')" "can_resume s (current_task s')" "alive s (current_task s')" "serving s'"
    by (rule serving_tick [OF srv])
  let ?p = "current_task s'"
  from task_switch_resumes [OF s'(3,4)] s'(2) obtain c where c: "cpu s' = Some c"
    "ctx_eip c = kload s (saved_eip (task_ptr s ?p))" "ctx_esp c = kload s (saved_esp (task_ptr s ?p))"
    by (auto simp: Let_def)
  have p: "?p < MAX_NUM_TASKS" using s'(4) by (simp add: can_resume_def Let_def)
  have "alive s0 ?p" using same_table_alive [OF tab p] s'(5) by simp
  moreover have "kload s (saved_eip (task_ptr s ?p)) = kload s0 (saved_eip (task_ptr s0 ?p))"
    "kload s (saved_esp (task_ptr s ?p)) = kload s0 (saved_esp (task_ptr s0 ?p))"
    using tab p by (simp_all add: same_table_def saved_eip_def saved_esp_def saved_state_def add.assoc)
  ultimately show ?thesis using s'(1) c p srv by (auto simp: serving_def)
qed

text \<open>
  C16.  Fairness of a run.  Whatever happens between them, 256 timer interrupts in a row of which
  none is lost choose every task that was alive at the start.
\<close>

theorem kernel_run_fair:
  assumes "kernel_run s0 s ts" "serving s0" "alive s0 (of_nat t)" "t < 255" "256 \<le> length ts"
  shows "of_nat t \<in> set ts"
proof -
  have "\<not> alive s0 255" "current_task s0 \<noteq> 255" "unat (current_task s0) < 256 \<or> current_task s0 = - 1"
    using assms(2) by (auto simp: serving_def)
  from scheduled_within [OF assms(3,4) this(1-3) refl] obtain n where n: "0 < n"
    "n \<le> (t + 256 - unat (current_task s0 + 1)) mod 256 + 1" "choices n s0 = Inr (s0\<lparr>current_task := of_nat t\<rparr>)" by blast
  have "(t + 256 - unat (current_task s0 + 1)) mod 256 < 256" by simp
  then obtain k where k: "n = Suc k" "k < length ts" using n(1,2) assms(5) by (cases n) auto
  then have "choices n s0 = Inr (s0\<lparr>current_task := rev ts ! k\<rparr>)" using kernel_run_choices [OF assms(1,2)] by blast
  then have "s0\<lparr>current_task := of_nat t\<rparr> = s0\<lparr>current_task := rev ts ! k\<rparr>" using n(3) by simp
  then have "of_nat t = rev ts ! k" by (metis kernel_state.select_convs(2) kernel_state.surjective kernel_state.update_convs(2))
  then show ?thesis using k(2) by (metis length_rev nth_mem set_rev)
qed

text \<open>
  A state in service: tasks 0 and 1 are alive, both in the directory at \<open>0x4000\<close>.
\<close>

definition two_tasks :: memory where
  "two_tasks = store32 (store32 (store32 (store32 (store32 (store32 (store32 (store32 (store32 (store32 (\<lambda>_. 0)
     0x8000 0x5001) 0x4F00 0x8000) 0x100004 1) 0x100008 0x4000) 0x10001C 0xF0000FFC) 0x100038 0x10000000)
     0x100050 1) 0x100054 0x4000) 0x100068 0xF0000FFC) 0x100084 0x10000000"

definition sample_serving :: kernel_state where
  "sample_serving = (kernel_with (blank_idt\<lparr>interrupt_handlers := (replicate 256 None)[32 := Some Timer_Callback]\<rparr>))
     \<lparr>mm := (mm blank_vm)\<lparr>mem := two_tasks\<rparr>, current_task := - 1\<rparr>"

lemma sample_serving_fields [simp]:
  "tasks_addr sample_serving = 0x100000" "current_task sample_serving = - 1" "translation sample_serving = 0x4000"
  "mm sample_serving = (mm blank_vm)\<lparr>mem := two_tasks\<rparr>"
  "interrupt_handlers sample_serving = (replicate 256 None)[32 := Some Timer_Callback]" "on_screen sample_serving"
  by (simp_all add: sample_serving_def kernel_with_def vm_state.extend_def idt_state.extend_def on_screen_def blank_idt_def gdt_state.extend_def blank_gdt_def)

lemma two_tasks_words [simp]:
  "load32 two_tasks 0x8000 = 0x5001" "load32 two_tasks 0x4F00 = 0x8000"
  "load32 two_tasks 0x100004 = 1" "load32 two_tasks 0x100008 = 0x4000" "load32 two_tasks 0x10001C = 0xF0000FFC"
  "load32 two_tasks 0x100038 = 0x10000000"
  "load32 two_tasks 0x100050 = 1" "load32 two_tasks 0x100054 = 0x4000" "load32 two_tasks 0x100068 = 0xF0000FFC"
  "load32 two_tasks 0x100084 = 0x10000000"
  by (simp_all add: two_tasks_def load32_store32_cyclic)

lemma two_tasks_zero:
  assumes "0x100088 \<le> unat a" "unat a < 0x200000"
  shows "load32 two_tasks a = 0"
proof -
  have "load32 (store32 m x v) a = load32 m a" if "unat x + 4 \<le> 0x100088" for m x v
    using that assms bytes_disjoint_nat [of "unat x" 4 "unat a" 4] by (intro load32_store32_apart) (simp del: in_bytes)
  then show ?thesis by (simp add: two_tasks_def)
qed

lemma sample_alive: "p < MAX_NUM_TASKS \<Longrightarrow> alive sample_serving p \<longleftrightarrow> p = 0 \<or> p = 1"
proof -
  assume "p < MAX_NUM_TASKS"
  then have p: "unat p < 256" by (simp add: MAX_NUM_TASKS_def word_less_nat_alt)
  then have u: "unat (0x100000 + 76 * p + 4) = 0x100004 + 76 * unat p" by (simp add: unat_word_ariths)
  show "alive sample_serving p \<longleftrightarrow> p = 0 \<or> p = 1"
  proof (cases "unat p < 2")
    case True
    then have "p = 0 \<or> p = 1" by (auto simp: less_2_cases_iff word_unat_eq_iff)
    then show ?thesis by (auto simp: sample_loads)
  next
    case False
    then have "load32 two_tasks (0x100000 + 76 * p + 4) = 0" using p by (intro two_tasks_zero) (simp_all only: u)
    moreover have "p \<noteq> 0" "p \<noteq> 1" using False by auto
    ultimately show ?thesis by (simp add: alive_def task_ptr_def task_alive_def sizeof_task_def)
  qed
qed

lemma sample_can_resume:
  assumes "p = 0 \<or> p = 1"
  shows "can_resume (sample_serving\<lparr>translation := 0x4000\<rparr>) p"
proof -
  let ?s = "sample_serving\<lparr>translation := 0x4000\<rparr>"
  have window: "bytes (cloning_buffer_page (mm ?s)) 4 = bytes 0x8000 4" by simp
  have byte: "kernel_byte ?s (a + of_nat k)" if "k < 32" "0x100000 \<le> unat a" "unat a < 0x100100" for a :: u32 and k
  proof -
    have u: "unat (a + of_nat k) = unat a + k" using that by (subst unat_add32) (simp_all add: unat_of_nat32)
    then have "unat ((a + of_nat k) div PAGE_SIZE) = 256" using that by (simp add: PAGE_SIZE_def unat_div)
    then have page: "(a + of_nat k) div PAGE_SIZE = 256" by (simp add: word_unat_eq_iff)
    have "bytes (dir_table 0x4000 0) 4 \<inter> bytes 0x8000 4 = {}" by (rule bytes_disjoint) (simp_all add: dir_table_def)
    moreover have "a + of_nat k \<notin> bytes 0x8000 4"
      using in_bytes_nat [of "0x8000" 4 "unat (a + of_nat k)"] u that by (simp del: in_bytes)
    moreover have "PAGE_CLONING_BUFFER div PAGE_SIZE = 0xF0000" by (simp add: PAGE_CLONING_BUFFER_def PAGE_SIZE_def)
    ultimately show ?thesis
      unfolding kernel_byte_def window in_window_def page by (simp add: table_of_def page PAGES_PER_TABLE_def del: in_bytes)
  qed
  have "bytes 0x8000 4 \<inter> bytes (dir_table 0x4000 960) 4 = {}" "bytes 0x8000 4 \<inter> bytes (task_ptr ?s p) 76 = {}"
    by (rule bytes_disjoint; use assms in \<open>auto simp: dir_table_def task_ptr_def sizeof_task_def\<close>)+
  moreover have "\<forall>k < 32. kernel_byte ?s (saved_edi (task_ptr ?s p) + of_nat k)"
    using assms byte by (auto simp: saved_edi_def saved_state_def task_ptr_def sizeof_task_def)
  ultimately show ?thesis
    using assms by (auto simp: can_resume_def Let_def MAX_NUM_TASKS_def task_directory_def saved_esp_def saved_state_def
        task_ptr_def sizeof_task_def dir_table_def page_entry_def TASK_USER_STACK_BOTTOM_def simp del: in_bytes)
qed

lemma sample_serving_ok: "serving sample_serving"
proof -
  have dirs: "live_dirs sample_serving = {0x4000}"
  proof
    show "live_dirs sample_serving \<subseteq> {0x4000}"
      by (auto simp: live_dirs_def sample_alive task_ptr_def sizeof_task_def task_directory_def)
    have "0x4000 = kload sample_serving (task_directory (task_ptr sample_serving 0))"
      by (simp add: task_ptr_def task_directory_def)
    then show "{0x4000} \<subseteq> live_dirs sample_serving" by (auto simp: live_dirs_def sample_alive MAX_NUM_TASKS_def)
  qed
  have alive: "alive sample_serving (of_nat 0)" "\<not> alive sample_serving 255"
    using sample_alive [of 0] sample_alive [of 255] by (simp_all add: MAX_NUM_TASKS_def)
  have "\<exists>t < 255. alive sample_serving (of_nat t)" using alive(1) by (intro exI [of _ 0]) simp
  moreover have "bytes 0x8000 4 \<inter> bytes 0x100000 19456 = ({} :: u32 set)" by (rule bytes_disjoint) simp_all
  ultimately show ?thesis unfolding serving_def dirs
    using sample_can_resume sample_alive alive by (auto simp: nth_list_update)
qed

lemma enough_ticks: "serving s0 \<Longrightarrow> \<exists>s ts. kernel_run s0 s ts \<and> length ts = n"
proof (induction n)
  case 0
  then show ?case using kernel_run.start by fastforce
next
  case (Suc n)
  then obtain s ts where s: "kernel_run s0 s ts" "length ts = n" by blast
  obtain s' where "irq_stub_run 32 (sample_regs 32) s = Inr (None, s')"
    by (rule serving_tick [OF kernel_run_serving [OF s(1) Suc.prems]])
  from kernel_run.tick [OF s(1) this] show ?case using s(2) by (intro exI conjI) auto
qed

theorem kernel_run_ticks_witness:
  "\<exists>(s :: kernel_state) s' c. kernel_run sample_serving s [current_task s]
     \<and> irq_stub_run 32 (sample_regs 32) s = Inr (None, s') \<and> cpu s' = Some c \<and> ctx_eip c = 0x10000000"
proof -
  obtain s1 where "irq_stub_run 32 (sample_regs 32) sample_serving = Inr (None, s1)"
    by (rule serving_tick [OF sample_serving_ok])
  from kernel_run.tick [OF kernel_run.start this] have run: "kernel_run sample_serving s1 [current_task s1]" .
  obtain s' c where s': "irq_stub_run 32 (sample_regs 32) s1 = Inr (None, s')" "cpu s' = Some c"
    "current_task s' < MAX_NUM_TASKS" "alive sample_serving (current_task s')"
    "ctx_eip c = kload sample_serving (saved_eip (task_ptr sample_serving (current_task s')))"
    using kernel_run_ticks [OF run sample_serving_ok] by blast
  have "current_task s' = 0 \<or> current_task s' = 1" using sample_alive s'(3,4) by blast
  then have "ctx_eip c = 0x10000000" using s'(5) by (auto simp: saved_eip_def saved_state_def task_ptr_def sizeof_task_def)
  then show ?thesis using run s'(1,2) by blast
qed

theorem kernel_run_fair_witness:
  "\<exists>(s :: kernel_state) ts. kernel_run sample_serving s ts \<and> length ts = 256 \<and> 1 \<in> set ts"
proof -
  obtain s ts where s: "kernel_run sample_serving s ts" "length ts = 256"
    using enough_ticks [OF sample_serving_ok] by blast
  have "alive sample_serving (of_nat 1)" using sample_alive [of 1] by (simp add: MAX_NUM_TASKS_def)
  from kernel_run_fair [OF s(1) sample_serving_ok this] show ?thesis using s by auto
qed

end
