(* ===== verification/AddressSpace.thy ===== *)
theory AddressSpace
  imports Paging
begin

text \<open>
  The kernel's address space while \<open>init_paging\<close> of \<open>src/src/mm/paging.c\<close> builds it: the
  directory and its tables in memory, seen as a function from page numbers to entries.
  \<open>get_page\<close> leaves that function as it is, even when it makes a table, and \<open>page_alloc\<close>
  changes it at one page.
\<close>

section \<open>Page numbers\<close>

lemma page_number:
  assumes "p < 1048576"
  shows "(of_nat (4096 * p) :: u32) div PAGE_SIZE = of_nat p"
    "(of_nat p :: u32) div PAGES_PER_TABLE = of_nat (p div 1024)"
    "(of_nat p :: u32) mod PAGES_PER_TABLE = of_nat (p mod 1024)"
proof -
  have p: "unat (of_nat (4096 * p) :: u32) = 4096 * p" "unat (of_nat p :: u32) = p"
    by (rule unat_of_nat32; use assms in simp)+
  have q: "p div 1024 < 4294967296" "p mod 1024 < 4294967296" using assms by (simp_all add: less_mult_imp_div_less)
  show "(of_nat (4096 * p) :: u32) div PAGE_SIZE = of_nat p"
    by (rule word_unat_eq_iff [THEN iffD2]) (simp add: PAGE_SIZE_def unat_div p del: of_nat_mult)
  show "(of_nat p :: u32) div PAGES_PER_TABLE = of_nat (p div 1024)"
    by (rule word_unat_eq_iff [THEN iffD2]) (simp add: PAGES_PER_TABLE_def unat_div p unat_of_nat32 q)
  show "(of_nat p :: u32) mod PAGES_PER_TABLE = of_nat (p mod 1024)"
    by (rule word_unat_eq_iff [THEN iffD2]) (simp add: PAGES_PER_TABLE_def unat_mod p unat_of_nat32 q)
qed

section \<open>The entry of a page\<close>

text \<open>The table of the 4 MiB with number \<open>i\<close>, by its address, and the entry of the page \<open>p\<close>.\<close>

definition table_at :: "mm_state \<Rightarrow> nat \<Rightarrow> nat" where
  "table_at m i = unat (word_at (mem m) (unat (kernel_directory m) + 4 * i))"

definition pte_addr :: "mm_state \<Rightarrow> nat \<Rightarrow> nat" where
  "pte_addr m p = table_at m (p div 1024) + 4 * (p mod 1024)"

definition pte :: "mm_state \<Rightarrow> nat \<Rightarrow> u32" where
  "pte m p = (if table_at m (p div 1024) = 0 then 0 else word_at (mem m) (pte_addr m p))"

text \<open>The entry for the processor: the table's physical address and its flags.\<close>

definition physical_at :: "mm_state \<Rightarrow> nat \<Rightarrow> u32" where
  "physical_at m i = word_at (mem m) (unat (kernel_directory m) + 4096 + 4 * i)"

text \<open>
  The directory behind the bit set of the frames, and behind it the tables, each a page of its own,
  below \<open>mem_first_unused\<close>; the processor finds the same tables.
\<close>

definition space_ok :: "mm_state \<Rightarrow> bool" where
  "space_ok m \<longleftrightarrow> frames_wf m \<and> frame_capacity m \<le> 1048576
     \<and> unat (bs_base (frames m)) + 4 * unat (bs_size (frames m)) \<le> unat (kernel_directory m)
     \<and> unat (kernel_directory m) mod 4096 = 0
     \<and> unat (kernel_directory m) + 8196 \<le> unat (mem_first_unused m)
     \<and> (\<forall>i < 1024. table_at m i \<noteq> 0 \<longrightarrow> unat (kernel_directory m) + 12288 \<le> table_at m i
          \<and> table_at m i mod 4096 = 0 \<and> table_at m i + 4096 \<le> unat (mem_first_unused m))
     \<and> (\<forall>i < 1024. \<forall>j < 1024. table_at m i \<noteq> 0 \<longrightarrow> table_at m i = table_at m j \<longrightarrow> i = j)
     \<and> (\<forall>i < 1024. physical_at m i = (if table_at m i = 0 then 0 else of_nat (table_at m i) OR 7))"

lemma space_okD:
  assumes "space_ok m"
  shows "frames_wf m" "frame_capacity m \<le> 1048576"
    "unat (bs_base (frames m)) + 4 * unat (bs_size (frames m)) \<le> unat (kernel_directory m)"
    "unat (kernel_directory m) mod 4096 = 0" "unat (kernel_directory m) + 8196 \<le> unat (mem_first_unused m)"
    "\<And>i. i < 1024 \<Longrightarrow> table_at m i \<noteq> 0 \<Longrightarrow> unat (kernel_directory m) + 12288 \<le> table_at m i
          \<and> table_at m i mod 4096 = 0 \<and> table_at m i + 4096 \<le> unat (mem_first_unused m)"
    "\<And>i j. i < 1024 \<Longrightarrow> j < 1024 \<Longrightarrow> table_at m i \<noteq> 0 \<Longrightarrow> table_at m i = table_at m j \<Longrightarrow> i = j"
    "\<And>i. i < 1024 \<Longrightarrow> physical_at m i = (if table_at m i = 0 then 0 else of_nat (table_at m i) OR 7)"
  using assms by (auto simp: space_ok_def)

lemma div_page_table: "(p :: nat) < 1048576 \<Longrightarrow> p div 1024 < 1024"
  by (simp add: less_mult_imp_div_less)

text \<open>Memory from the heap's first address on is the same.\<close>

abbreviation same_above :: "mm_state \<Rightarrow> mm_state \<Rightarrow> bool" where
  "same_above m m' \<equiv> same_outside {..<251658240} (mem m) (mem m')"

lemma same_above_trans: "same_above m m' \<Longrightarrow> same_above m' m'' \<Longrightarrow> same_above m m''"
  by (rule same_outside_trans_in)

text \<open>Entries of different pages do not overlap.\<close>

lemma aligned_apart:
  assumes "t mod 4096 = 0" "u mod 4096 = (0 :: nat)" "t \<noteq> u"
  shows "t + 4096 \<le> u \<or> u + 4096 \<le> t"
proof -
  obtain a b where "t = 4096 * a" "u = 4096 * b" by (rule whole_number [OF assms(1)], rule whole_number [OF assms(2)])
  then show ?thesis using assms(3) by auto
qed

lemma aligned_behind:
  assumes "a mod 4096 = 0" "b mod 4096 = (0 :: nat)" "a + 8196 \<le> b"
  shows "a + 12288 \<le> b"
proof -
  obtain i j where ij: "a = 4096 * i" "b = 4096 * j" by (rule whole_number [OF assms(1)], rule whole_number [OF assms(2)])
  have "i + 3 \<le> j"
  proof (rule ccontr)
    assume "\<not> i + 3 \<le> j"
    then have "j \<le> i + 2" by simp
    from mult_le_mono2 [OF this, of 4096] show False using assms(3) unfolding ij by simp
  qed
  then show ?thesis unfolding ij by simp
qed

lemma pte_addr_bounds:
  assumes "space_ok m" "p < 1048576" "table_at m (p div 1024) \<noteq> 0"
  shows "unat (kernel_directory m) + 12288 \<le> pte_addr m p" "pte_addr m p + 4 \<le> unat (mem_first_unused m)"
    "pte_addr m p < 4294967292"
proof -
  note t = space_okD(6) [OF assms(1) div_page_table [OF assms(2)] assms(3)]
  have "p mod 1024 < 1024" by simp
  then show "unat (kernel_directory m) + 12288 \<le> pte_addr m p" "pte_addr m p + 4 \<le> unat (mem_first_unused m)"
    using t unfolding pte_addr_def by linarith+
  then show "pte_addr m p < 4294967292" using unat_lt_32 [of "mem_first_unused m"] by linarith
qed

lemma pte_addr_apart:
  assumes "space_ok m" "p < 1048576" "q < 1048576" "p \<noteq> q"
    and "table_at m (p div 1024) \<noteq> 0" "table_at m (q div 1024) \<noteq> 0"
  shows "pte_addr m p + 4 \<le> pte_addr m q \<or> pte_addr m q + 4 \<le> pte_addr m p"
proof (cases "p div 1024 = q div 1024")
  case True
  then have "p mod 1024 \<noteq> q mod 1024" using assms(4) by (metis div_mult_mod_eq)
  then show ?thesis using True unfolding pte_addr_def by auto
next
  case False
  note d = div_page_table [OF assms(2)] div_page_table [OF assms(3)]
  have "table_at m (p div 1024) \<noteq> table_at m (q div 1024)"
    using space_okD(7) [OF assms(1) d assms(5)] False by blast
  moreover have "table_at m (p div 1024) mod 4096 = 0" "table_at m (q div 1024) mod 4096 = 0"
    using space_okD(6) [OF assms(1) d(1) assms(5)] space_okD(6) [OF assms(1) d(2) assms(6)] by simp_all
  ultimately have "table_at m (p div 1024) + 4096 \<le> table_at m (q div 1024)
      \<or> table_at m (q div 1024) + 4096 \<le> table_at m (p div 1024)" by (intro aligned_apart)
  moreover have "p mod 1024 < 1024" "q mod 1024 < 1024" by simp_all
  ultimately show ?thesis unfolding pte_addr_def by linarith
qed

text \<open>What \<open>get_page\<close> finds.\<close>

lemma get_page_found:
  assumes "p < 1048576" "table_at m (p div 1024) \<noteq> 0"
  shows "get_page ap m (of_nat (4096 * p)) create (kernel_directory m) = Inr (of_nat (pte_addr m p), m)"
proof -
  have slot: "dir_table (kernel_directory m) (of_nat (p div 1024)) = of_nat (unat (kernel_directory m) + 4 * (p div 1024))"
    by (simp add: dir_table_def)
  have "page_entry (load32 (mem m) (dir_table (kernel_directory m) (of_nat (p div 1024)))) (of_nat (p mod 1024))
      = of_nat (pte_addr m p)"
    by (simp add: slot page_entry_def pte_addr_def table_at_def word_at_def)
  then show ?thesis using assms(2)
    unfolding get_page_def Let_def page_number [OF assms(1)]
    by (simp add: table_at_def word_at_def slot unat_eq_0)
qed

section \<open>Allocating a page\<close>

text \<open>The bit set and the tables, as ranges of numbers.\<close>

definition frame_bytes :: "mm_state \<Rightarrow> nat set" where
  "frame_bytes m = {unat (bs_base (frames m))..<unat (bs_base (frames m)) + 4 * unat (bs_size (frames m))}"

lemma frame_bytes_region:
  assumes "unat (bs_base (frames m)) + 4 * unat (bs_size (frames m)) \<le> 4294967296"
  shows "x \<in> bs_region (frames m) \<longleftrightarrow> unat x \<in> frame_bytes m"
  unfolding bs_region_def frame_bytes_def using bytes_no_wrap [OF assms] by (simp add: bytes_no_wrap del: in_bytes)

lemma space_cong:
  assumes "space_ok m" "frames m' = frames m" "kernel_directory m' = kernel_directory m"
    and "mem_first_unused m \<le> mem_first_unused m'" "\<And>i. i < 1024 \<Longrightarrow> table_at m' i = table_at m i"
    and "\<And>i. i < 1024 \<Longrightarrow> physical_at m' i = physical_at m i"
  shows "space_ok m'"
proof -
  have "frames_wf m' = frames_wf m" "frame_capacity m' = frame_capacity m"
    by (simp_all add: frames_wf_def frame_capacity_def assms(2))
  then show ?thesis using assms(1,4-6) unfolding space_ok_def assms(2,3)
    by (auto simp: word_le_nat_alt intro: order_trans)
qed

lemma page_alloc_space:
  assumes ok: "space_ok m" and p: "p < 1048576" "table_at m (p div 1024) \<noteq> 0" "pte m p = 0"
    and used: "used_frames m = {..<f}" "f < frame_capacity m"
  obtains m' where "page_alloc m (of_nat (pte_addr m p)) kernel_mode writeable = Inr m'" "m' = m\<lparr>mem := mem m'\<rparr>"
    "space_ok m'" "\<forall>i < 1024. table_at m' i = table_at m i" "used_frames m' = {..<Suc f}"
    "\<forall>q < 1048576. pte m' q = (if q = p then page_filled writeable (of_nat f) 0 else pte m q)"
    "same_outside (frame_bytes m \<union> {pte_addr m p..<pte_addr m p + 4}) (mem m) (mem m')"
proof -
  let ?a = "pte_addr m p" and ?D = "unat (kernel_directory m)"
  note sp = space_okD [OF ok]
  note b = pte_addr_bounds [OF ok p(1,2)]
  have D: "?D < 4294967296" by simp
  have wrap: "unat (bs_base (frames m)) + 4 * unat (bs_size (frames m)) \<le> 4294967296" using sp(3) D by linarith
  note reg = frame_bytes_region [OF wrap]
  have ua: "unat (of_nat ?a :: u32) = ?a" by (rule unat_of_nat32) (use b in linarith)
  have entry: "x \<in> bytes (of_nat ?a) 4 \<longleftrightarrow> unat x \<in> {?a..<?a + 4}" for x :: u32
    using bytes_no_wrap [of "of_nat ?a" 4 x] b(3) by (simp add: ua del: in_bytes)
  have apart: "bytes (of_nat ?a) 4 \<inter> bs_region (frames m) = {}"
    using sp(3) b(1) by (auto simp: reg entry frame_bytes_def simp del: in_bytes)
  have "of_nat ?a \<noteq> (0 :: u32)" using ua b(1) by (metis add_is_0 le_zero_eq unat_0 zero_neq_numeral)
  moreover have "load32 (mem m) (of_nat ?a) = 0" using p(2,3) by (simp add: pte_def word_at_def)
  moreover have "used_frames m \<noteq> {..<frame_capacity m}" using used by auto
  ultimately obtain m' where m': "page_alloc m (of_nat ?a) kernel_mode writeable = Inr m'" "m' = m\<lparr>mem := mem m'\<rparr>"
    "frame_at m' (of_nat ?a) \<notin> used_frames m" "frame_at m' (of_nat ?a) < frame_capacity m"
    "used_frames m' = insert (frame_at m' (of_nat ?a)) (used_frames m)"
    "\<forall>x. x \<notin> bs_region (frames m) \<union> bytes (of_nat ?a) 4 \<longrightarrow> mem m' x = mem m x"
    "{..<frame_at m' (of_nat ?a)} \<subseteq> used_frames m"
    "load32 (mem m') (of_nat ?a) = page_filled writeable (of_nat (frame_at m' (of_nat ?a))) 0"
    using page_alloc_fresh [OF sp(1,2) _ _ _ apart] by metis
  have f: "frame_at m' (of_nat ?a) = f" using m'(3,7) unfolding used(1) by (simp add: lessThan_subset_iff) 
  have fields: "frames m' = frames m" "kernel_directory m' = kernel_directory m"
    "mem_first_unused m' = mem_first_unused m"
    by (subst m'(2), simp)+
  have same: "same_outside (frame_bytes m \<union> {?a..<?a + 4}) (mem m) (mem m')"
    using m'(6) by (intro same_outsideI) (simp add: reg entry del: in_bytes)
  have tables: "table_at m' i = table_at m i" if "i < 1024" for i
    unfolding table_at_def fields
    by (rule arg_cong [where f = unat], rule same_outside_word [OF same])
       (use that sp(3,5) b(1,3) in \<open>auto simp: frame_bytes_def\<close>)
  have physicals: "physical_at m' i = physical_at m i" if "i < 1024" for i
    unfolding physical_at_def fields
    by (rule same_outside_word [OF same]) (use that sp(3,5) b(1,3) in \<open>auto simp: frame_bytes_def\<close>)
  have pte: "pte m' q = (if q = p then page_filled writeable (of_nat f) 0 else pte m q)" if q: "q < 1048576" for q
  proof -
    have addr: "pte_addr m' q = pte_addr m q" using tables [OF div_page_table [OF q]] by (simp add: pte_addr_def)
    show ?thesis
    proof (cases "q = p \<or> table_at m (q div 1024) = 0")
      case True
      then show ?thesis using p(2) m'(8) tables [OF div_page_table [OF q]] addr
        by (auto simp: pte_def word_at_def f)
    next
      case False
      have "word_at (mem m') (pte_addr m q) = word_at (mem m) (pte_addr m q)"
        by (rule same_outside_word [OF same])
           (use False pte_addr_bounds [OF ok q] pte_addr_apart [OF ok p(1) q _ p(2)] sp(3) in \<open>auto simp: frame_bytes_def\<close>)
      then show ?thesis using False tables [OF div_page_table [OF q]] addr by (simp add: pte_def)
    qed
  qed
  have "used_frames m' = {..<Suc f}" unfolding m'(5) f used(1) by auto
  moreover have "space_ok m'"
    by (rule space_cong [OF ok]) (use tables physicals in \<open>simp_all add: fields\<close>)
  ultimately show ?thesis using that [OF m'(1,2)] tables pte same by blast
qed

section \<open>Making a table\<close>

lemma used_frames_same:
  assumes "space_ok m" "frames m' = frames m" "same_outside R (mem m) (mem m')" "R \<inter> frame_bytes m = {}"
  shows "used_frames m' = used_frames m"
proof (rule used_frames_cong)
  note sp = space_okD [OF assms(1)]
  have "unat (kernel_directory m) < 4294967296" by simp
  then have wrap: "unat (bs_base (frames m)) + 4 * unat (bs_size (frames m)) \<le> 4294967296" using sp(3) by linarith
  show "\<forall>x \<in> bs_region (frames m). mem m' x = mem m x"
  proof
    fix x assume "x \<in> bs_region (frames m)"
    then have "unat x \<notin> R" using assms(4) unfolding frame_bytes_region [OF wrap] by blast
    then show "mem m' x = mem m x" by (rule same_outside_byte [OF assms(3)])
  qed
qed (use space_okD(1) [OF assms(1)] assms(2) in simp_all)

text \<open>The memory after the table \<open>t\<close> has been entered at the place \<open>i\<close> of the directory \<open>dir\<close>.\<close>

lemma new_table_memory:
  assumes "unat dir + 12288 \<le> t" "t + 4096 \<le> 4294967296" "i < 1024"
    and m': "m' = store32 (memset (store32 m (dir_table dir (of_nat i)) (of_nat t)) (of_nat t) 0 sizeof_page_table)
        (dir_table_physical dir (of_nat i)) phys"
  shows "same_outside ({unat dir + 4 * i..<unat dir + 4 * i + 4} \<union> {unat dir + 4096 + 4 * i..<unat dir + 4096 + 4 * i + 4}
      \<union> {t..<t + 4096}) m m'"
    "word_at m' (unat dir + 4 * i) = of_nat t" "word_at m' (unat dir + 4096 + 4 * i) = phys"
    "\<And>k. k < 1024 \<Longrightarrow> word_at m' (t + 4 * k) = 0"
proof -
  let ?s = "unat dir + 4 * i" and ?h = "unat dir + 4096 + 4 * i"
  let ?m2 = "memset (put_at m ?s (of_nat t)) (of_nat t) 0 sizeof_page_table"
  have D: "unat dir + 12288 < 4294967296" using assms(1,2) by linarith
  have slots: "dir_table dir (of_nat i) = of_nat ?s" "dir_table_physical dir (of_nat i) = of_nat ?h"
    by (simp_all add: dir_table_def dir_table_physical_def)
  have eq: "m' = put_at ?m2 ?h phys" unfolding m' slots put_at_def ..
  have t: "unat (of_nat t :: u32) = t" by (rule unat_of_nat32) (use assms(2) in linarith)
  have sz: "unat sizeof_page_table = 4096" by (simp add: sizeof_page_table_def)
  have set: "same_outside {t..<t + 4096} (put_at m ?s (of_nat t)) ?m2"
    using memset_outside [of "of_nat t" sizeof_page_table "put_at m ?s (of_nat t)" 0] assms(2) by (simp add: t sz)
  have put: "same_outside {?s..<?s + 4} m (put_at m ?s (of_nat t))" "same_outside {?h..<?h + 4} ?m2 m'"
    unfolding eq using assms(3) D by (simp_all add: same_outside_put_at)
  show "same_outside ({?s..<?s + 4} \<union> {?h..<?h + 4} \<union> {t..<t + 4096}) m m'"
    using same_outside_trans [OF same_outside_trans [OF put(1) set] put(2)] by (rule same_outside_mono) blast
  show "word_at m' ?h = phys" unfolding eq by simp
  have "word_at m' ?s = word_at ?m2 ?s" by (rule same_outside_word [OF put(2)]) (use assms(3) D in auto)
  also have "\<dots> = word_at (put_at m ?s (of_nat t)) ?s" by (rule same_outside_word [OF set]) (use assms(1,3) D in auto)
  finally show "word_at m' ?s = of_nat t" by simp
  show "word_at m' (t + 4 * k) = 0" if k: "k < 1024" for k
  proof -
    have "word_at m' (t + 4 * k) = word_at ?m2 (t + 4 * k)"
      by (rule same_outside_word [OF put(2)]) (use assms(1,2,3) k in auto)
    also have "\<dots> = 0"
      unfolding word_at_def using elem_bytes [of k 1024 "of_nat t"] k by (intro load32_memset_zero) (simp add: sz)
    finally show ?thesis .
  qed
qed

text \<open>
  A missing table is made at the next page of unused memory; which pages are mapped, and where,
  does not change.
\<close>

lemma get_page_new_table:
  assumes ok: "space_ok m" and heap: "kernel_heap m = 0" and p: "p < 1048576" "table_at m (p div 1024) = 0"
    and room: "unat (mem_first_unused m) + 8192 < 4294967296"
  obtains m' t where "get_page (\<lambda>sz m. kmalloc_ap (Suc d) m sz) m (of_nat (4096 * p)) True (kernel_directory m)
      = Inr (of_nat (pte_addr m' p), m')" "m' = m\<lparr>mem := mem m', mem_first_unused := of_nat (t + 4096)\<rparr>"
    "space_ok m'" "unat (mem_first_unused m) \<le> t" "t < unat (mem_first_unused m) + 4096" "t mod 4096 = 0"
    "\<forall>i < 1024. table_at m' i = (if i = p div 1024 then t else table_at m i)" "used_frames m' = used_frames m"
    "\<forall>q < 1048576. pte m' q = pte m q"
    "same_outside ({unat (kernel_directory m)..<unat (kernel_directory m) + 8192} \<union> {t..<t + 4096}) (mem m) (mem m')"
proof -
  let ?D = "unat (kernel_directory m)" and ?i = "p div 1024" and ?T = "unat (mem_first_unused m)"
  note sp = space_okD [OF ok]
  note i = div_page_table [OF p(1)]
  have sz: "unat sizeof_page_table = 4096" by (simp add: sizeof_page_table_def)
  obtain u s1 where u: "kmalloc_ap (Suc d) m sizeof_page_table = Inr ((u, u), s1)" "unat u mod 4096 = 0"
    "mem_first_unused m \<le> u" "unat u < ?T + 4096" "unat (mem_first_unused s1) = unat u + 4096"
    "s1 = m\<lparr>mem_first_unused := mem_first_unused s1\<rparr>"
    using kmalloc_ap_early [OF heap, of sizeof_page_table d] room unfolding sz by auto
  have ut: "?T \<le> unat u" using u(3) by (simp add: word_le_nat_alt)
  have far: "?D + 12288 \<le> unat u" by (rule aligned_behind [OF sp(4) u(2) le_trans [OF sp(5) ut]])
  have top: "unat u + 4096 \<le> 4294967296" using u(4) room by linarith
  define m3 where "m3 = store32 (memset (store32 (mem m) (dir_table (kernel_directory m) (of_nat ?i)) u) u 0 sizeof_page_table)
        (dir_table_physical (kernel_directory m) (of_nat ?i)) (u OR 7)"
  have "m3 = store32 (memset (store32 (mem m) (dir_table (kernel_directory m) (of_nat ?i)) (of_nat (unat u))) (of_nat (unat u)) 0 sizeof_page_table)
        (dir_table_physical (kernel_directory m) (of_nat ?i)) (u OR 7)" unfolding m3_def by simp
  note new = new_table_memory [OF far top i this]
  let ?R = "{?D..<?D + 8192} \<union> {unat u..<unat u + 4096}"
  let ?m' = "s1\<lparr>mem := m3\<rparr>"
  have same: "same_outside ?R (mem m) m3" by (rule same_outside_mono [OF new(1)]) (use i in auto)
  have fields: "frames ?m' = frames m" "kernel_directory ?m' = kernel_directory m" "mem s1 = mem m"
    by (subst u(6), simp)+
  have tables: "table_at ?m' j = (if j = ?i then unat u else table_at m j)" if j: "j < 1024" for j
  proof (cases "j = ?i")
    case True
    then show ?thesis using new(2) by (simp add: table_at_def fields)
  next
    case False
    have "word_at m3 (?D + 4 * j) = word_at (mem m) (?D + 4 * j)"
      by (rule same_outside_word [OF new(1)]) (use False j i far top in auto)
    then show ?thesis using False by (simp add: table_at_def fields)
  qed
  have physicals: "physical_at ?m' j = (if j = ?i then u OR 7 else physical_at m j)" if j: "j < 1024" for j
  proof (cases "j = ?i")
    case True
    then show ?thesis using new(3) by (simp add: physical_at_def fields)
  next
    case False
    have "word_at m3 (?D + 4096 + 4 * j) = word_at (mem m) (?D + 4096 + 4 * j)"
      by (rule same_outside_word [OF new(1)]) (use False j i far top in auto)
    then show ?thesis using False by (simp add: physical_at_def fields)
  qed
  have t0: "table_at m j \<noteq> unat u" if "j < 1024" for j
    using sp(6) [OF that] ut far by fastforce
  have ok': "space_ok ?m'"
  proof -
    have "frames_wf ?m' = frames_wf m" "frame_capacity ?m' = frame_capacity m"
      by (simp_all add: frames_wf_def frame_capacity_def fields)
    moreover have "unat (mem_first_unused ?m') = unat u + 4096" using u(5) by simp
    moreover have "unat (kernel_directory m) + 12288 \<le> table_at ?m' j \<and> table_at ?m' j mod 4096 = 0 \<and> table_at ?m' j + 4096 \<le> unat u + 4096"
      if "j < 1024" "table_at ?m' j \<noteq> 0" for j
      using sp(6) [OF that(1)] that(2) far u(2) ut unfolding tables [OF that(1)] by (auto split: if_splits)
    moreover have "j = k" if "j < 1024" "k < 1024" "table_at ?m' j \<noteq> 0" "table_at ?m' j = table_at ?m' k" for j k
      using sp(7) [OF that(1,2)] t0 [OF that(1)] t0 [OF that(2)] that(3,4) unfolding tables [OF that(1)] tables [OF that(2)]
      by (auto split: if_splits)
    moreover have "physical_at ?m' j = (if table_at ?m' j = 0 then 0 else of_nat (table_at ?m' j) OR 7)" if "j < 1024" for j
      using physicals [OF that] tables [OF that] sp(8) [OF that] far by simp
    ultimately show ?thesis using sp(1-5) ut unfolding space_ok_def fields by auto
  qed
  have entries: "pte ?m' q = pte m q" if q: "q < 1048576" for q
  proof -
    note j = div_page_table [OF q]
    consider "q div 1024 = ?i" | "q div 1024 \<noteq> ?i" "table_at m (q div 1024) = 0"
      | "q div 1024 \<noteq> ?i" "table_at m (q div 1024) \<noteq> 0" by blast
    then show ?thesis
    proof cases
      case 1
      then show ?thesis using p(2) new(4) [of "q mod 1024"] tables [OF j] by (simp add: pte_def pte_addr_def)
    next
      case 2
      then show ?thesis using tables [OF j] by (simp add: pte_def)
    next
      case 3
      have a: "pte_addr ?m' q = pte_addr m q" using 3 tables [OF j] by (simp add: pte_addr_def)
      have "word_at m3 (pte_addr m q) = word_at (mem m) (pte_addr m q)"
        by (rule same_outside_word [OF same]) (use pte_addr_bounds [OF ok q 3(2)] ut in auto)
      then show ?thesis using 3 tables [OF j] a by (simp add: pte_def)
    qed
  qed
  have "?R \<inter> frame_bytes m = {}" using sp(3) far by (auto simp: frame_bytes_def)
  then have used: "used_frames ?m' = used_frames m" using used_frames_same [OF ok fields(1)] same by simp
  have "dir_table (kernel_directory m) (of_nat ?i) = of_nat (?D + 4 * ?i)" by (simp add: dir_table_def)
  then have slot: "load32 (mem m) (dir_table (kernel_directory m) (of_nat ?i)) = 0"
    "load32 m3 (dir_table (kernel_directory m) (of_nat ?i)) = u"
    using p(2) new(2) by (simp_all add: table_at_def word_at_def unat_eq_0)
  have addr: "page_entry u (of_nat (p mod 1024)) = of_nat (pte_addr ?m' p)"
    using tables [OF i] by (simp add: page_entry_def pte_addr_def)
  have "get_page (\<lambda>sz m. kmalloc_ap (Suc d) m sz) m (of_nat (4096 * p)) True (kernel_directory m)
      = Inr (of_nat (pte_addr ?m' p), ?m')"
    using u(1) slot
    unfolding get_page_def Let_def page_number [OF p(1)] by (simp add: fields(3) flip: m3_def addr)
  moreover have "?m' = m\<lparr>mem := mem ?m', mem_first_unused := of_nat (unat u + 4096)\<rparr>"
  proof -
    have "mem_first_unused s1 = of_nat (unat u + 4096)" using arg_cong [OF u(5), of "of_nat :: nat \<Rightarrow> u32"] by simp
    then show ?thesis by (subst u(6)) simp
  qed
  ultimately show thesis
    using that [of ?m' "unat u"] ok' ut u(2,4) tables used entries same by simp
qed

lemma same_above_page:
  assumes "space_ok m" "p < 1048576" "table_at m (p div 1024) \<noteq> 0" "unat (mem_first_unused m) \<le> 251658240"
    and "same_outside (frame_bytes m \<union> {pte_addr m p..<pte_addr m p + 4}) (mem m) (mem m')"
  shows "same_above m m'"
  by (rule same_outside_mono [OF assms(5)])
     (use pte_addr_bounds [OF assms(1-3)] space_okD(3,5) [OF assms(1)] assms(4) in \<open>auto simp: frame_bytes_def\<close>)

text \<open>Both cases of \<open>get_page\<close>, with unused memory starting at a page.\<close>

lemma aligned_unique:
  assumes "a mod 4096 = 0" "b mod 4096 = (0 :: nat)" "x \<le> a" "a < x + 4096" "x \<le> b" "b < x + 4096"
  shows "a = b"
proof -
  obtain i j where "a = 4096 * i" "b = 4096 * j" by (rule whole_number [OF assms(1)], rule whole_number [OF assms(2)])
  then show ?thesis using assms(3-6) by simp
qed

lemma get_page_space:
  assumes ok: "space_ok m" and heap: "kernel_heap m = 0" and p: "p < 1048576"
    and T: "unat (mem_first_unused m) = T" "T mod 4096 = 0" "T + 8192 < 4294967296"
  obtains m' where "get_page (\<lambda>sz m. kmalloc_ap (Suc d) m sz) m (of_nat (4096 * p)) True (kernel_directory m)
      = Inr (of_nat (pte_addr m' p), m')" "m' = m\<lparr>mem := mem m', mem_first_unused := mem_first_unused m'\<rparr>"
    "space_ok m'" "unat (mem_first_unused m') = (if table_at m (p div 1024) = 0 then T + 4096 else T)"
    "\<forall>i < 1024. table_at m' i = (if i = p div 1024 \<and> table_at m i = 0 then T else table_at m i)"
    "table_at m' (p div 1024) \<noteq> 0" "used_frames m' = used_frames m" "\<forall>q < 1048576. pte m' q = pte m q"
    "T + 4096 \<le> 251658240 \<longrightarrow> same_above m m'"
proof (cases "table_at m (p div 1024) = 0")
  case True
  obtain m' t where m': "get_page (\<lambda>sz m. kmalloc_ap (Suc d) m sz) m (of_nat (4096 * p)) True (kernel_directory m)
      = Inr (of_nat (pte_addr m' p), m')" "m' = m\<lparr>mem := mem m', mem_first_unused := of_nat (t + 4096)\<rparr>"
    "space_ok m'" "T \<le> t" "t < T + 4096" "t mod 4096 = 0"
    "\<forall>i < 1024. table_at m' i = (if i = p div 1024 then t else table_at m i)" "used_frames m' = used_frames m"
    "\<forall>q < 1048576. pte m' q = pte m q"
    "same_outside ({unat (kernel_directory m)..<unat (kernel_directory m) + 8192} \<union> {t..<t + 4096}) (mem m) (mem m')"
    using get_page_new_table [OF ok heap p True, of d] T unfolding T(1) by metis
  have t: "t = T" by (rule aligned_unique [OF m'(6) T(2) m'(4,5)]) simp_all
  have f: "mem_first_unused m' = of_nat (t + 4096)" by (subst m'(2)) simp
  have "unat (mem_first_unused m') = T + 4096" unfolding f t by (rule unat_of_nat32) (use T(3) in linarith)
  moreover have D: "unat (kernel_directory m) + 8196 \<le> T" "T \<noteq> 0" using space_okD(5) [OF ok] T(1) by linarith+
  moreover have "same_above m m'" if "T + 4096 \<le> 251658240"
    by (rule same_outside_mono [OF m'(10)]) (use that D(1) t in auto)
  ultimately show ?thesis using that [OF m'(1)] m'(2,3,7-9) True div_page_table [OF p] by (simp add: f t)
next
  case False
  show ?thesis by (rule that [OF get_page_found [OF p False] _ ok]) (use False T(1) in simp_all)
qed

section \<open>The loops of \<open>init_paging\<close>\<close>

lemma next_page: "of_nat (4096 * p) + PAGE_SIZE = (of_nat (4096 * (p + 1)) :: u32)"
  by (simp add: PAGE_SIZE_def algebra_simps)

lemma heap_tables_found:
  "\<forall>q. p \<le> q \<and> q < p + n \<longrightarrow> q < 1048576 \<and> table_at m (q div 1024) \<noteq> 0 \<Longrightarrow>
     heap_tables n d (of_nat (4096 * p)) m = Inr m"
proof (induction n arbitrary: p)
  case (Suc n)
  have p: "p < 1048576" "table_at m (p div 1024) \<noteq> 0" using Suc.prems by simp_all
  have "heap_tables n d (of_nat (4096 * (p + 1))) m = Inr m" by (rule Suc.IH) (use Suc.prems in simp)
  then show ?case unfolding heap_tables.simps get_page_found [OF p] bind_res_Inr prod.case next_page .
qed simp

text \<open>The page \<open>p\<close> is mapped to the frame \<open>f\<close>, as \<open>page_alloc\<close> leaves an entry.\<close>

abbreviation mapped_to :: "nat \<Rightarrow> u32" where
  "mapped_to f \<equiv> page_filled 1 (of_nat f) 0"

lemma heap_frames_found:
  "space_ok m \<Longrightarrow> used_frames m = {..<f} \<Longrightarrow> f + n \<le> frame_capacity m \<Longrightarrow>
   unat (mem_first_unused m) \<le> 251658240 \<Longrightarrow> \<forall>q. p \<le> q \<and> q < p + n \<longrightarrow> q < 1048576 \<and> table_at m (q div 1024) \<noteq> 0 \<and> pte m q = 0 \<Longrightarrow>
   \<exists>m'. heap_frames n d (of_nat (4096 * p)) m = Inr m' \<and> m' = m\<lparr>mem := mem m'\<rparr> \<and> space_ok m' \<and> same_above m m'
     \<and> (\<forall>i < 1024. table_at m' i = table_at m i) \<and> used_frames m' = {..<f + n}
     \<and> (\<forall>q < 1048576. pte m' q = (if p \<le> q \<and> q < p + n then mapped_to (f + (q - p)) else pte m q))"
proof (induction n arbitrary: p f m)
  case 0
  then show ?case by (intro exI [of _ m]) (simp, use leD in blast)
next
  case (Suc n)
  have p: "p < 1048576" "table_at m (p div 1024) \<noteq> 0" "pte m p = 0" using Suc.prems(5) by simp_all
  have "f < frame_capacity m" using Suc.prems(3) by simp
  then obtain m1 where m1: "page_alloc m (of_nat (pte_addr m p)) 0 1 = Inr m1" "m1 = m\<lparr>mem := mem m1\<rparr>"
    "space_ok m1" "\<forall>i < 1024. table_at m1 i = table_at m i" "used_frames m1 = {..<Suc f}"
    "\<forall>q < 1048576. pte m1 q = (if q = p then mapped_to f else pte m q)"
    "same_outside (frame_bytes m \<union> {pte_addr m p..<pte_addr m p + 4}) (mem m) (mem m1)"
    by (rule page_alloc_space [OF Suc.prems(1) p Suc.prems(2)])
  have T: "unat (mem_first_unused m1) \<le> 251658240" by (subst m1(2)) (simp add: Suc.prems(4))
  have fr: "frames m1 = frames m" by (subst m1(2)) simp
  then have cap: "Suc f + n \<le> frame_capacity m1" using Suc.prems(3) by (simp add: frame_capacity_def)
  have rest: "\<forall>q. p + 1 \<le> q \<and> q < p + 1 + n \<longrightarrow> q < 1048576 \<and> table_at m1 (q div 1024) \<noteq> 0 \<and> pte m1 q = 0"
    using Suc.prems(5) m1(4,6) div_page_table by auto
  from Suc.IH [OF m1(3,5) cap T rest] obtain m' where m': "heap_frames n d (of_nat (4096 * (p + 1))) m1 = Inr m'"
    "m' = m1\<lparr>mem := mem m'\<rparr>" "space_ok m'" "same_above m1 m'" "\<forall>i < 1024. table_at m' i = table_at m1 i" "used_frames m' = {..<Suc f + n}"
    "\<forall>q < 1048576. pte m' q = (if p + 1 \<le> q \<and> q < p + 1 + n then mapped_to (Suc f + (q - (p + 1))) else pte m1 q)"
    by (elim exE conjE) (rule that)
  have run: "heap_frames (Suc n) d (of_nat (4096 * p)) m = Inr m'"
    unfolding heap_frames.simps get_page_found [OF p(1,2)] bind_res_Inr prod.case m1(1) next_page m'(1) ..
  have "m' = m\<lparr>mem := mem m'\<rparr>" by (subst m'(2), subst m1(2)) simp
  moreover have "\<forall>q < 1048576. pte m' q = (if p \<le> q \<and> q < p + Suc n then mapped_to (f + (q - p)) else pte m q)"
  proof (intro allI impI)
    fix q :: nat assume q: "q < 1048576"
    have "Suc f + (q - (p + 1)) = f + (q - p)" if "p + 1 \<le> q" using that by linarith
    then show "pte m' q = (if p \<le> q \<and> q < p + Suc n then mapped_to (f + (q - p)) else pte m q)"
      using m'(7) m1(6) q by auto
  qed
  moreover have "same_above m m'"
    by (rule same_above_trans [OF same_above_page [OF Suc.prems(1) p(1,2) Suc.prems(4) m1(7)] m'(4)])
  moreover have "\<forall>i < 1024. table_at m' i = table_at m i" using m'(5) m1(4) by simp
  moreover have "used_frames m' = {..<f + Suc n}" using m'(6) by simp
  ultimately show ?case using run m'(3) by blast
qed

section \<open>The identity map\<close>

text \<open>
  The state of the loop at the page \<open>k\<close>: the pages below are mapped to the frames of their own
  numbers, and these are the frames in use.  Each 4 MiB entered so far, and the heap's, has a
  table; \<open>B\<close> is where unused memory began when the loop did.
\<close>

definition identity_inv :: "nat \<Rightarrow> nat \<Rightarrow> mm_state \<Rightarrow> bool" where
  "identity_inv B k m \<longleftrightarrow> space_ok m \<and> kernel_heap m = 0 \<and> k \<le> 61440 \<and> used_frames m = {..<k}
     \<and> (\<forall>p < 1048576. pte m p = (if p < k then mapped_to p else 0))
     \<and> (\<forall>i < 1024. table_at m i \<noteq> 0 \<longleftrightarrow> i < (k + 1023) div 1024 \<or> i = 60)
     \<and> unat (mem_first_unused m) = B + 4096 * ((k + 1023) div 1024)
     \<and> 4096 * k \<le> unat (mem_first_unused m) + 16384"

lemma identity_page_step:
  assumes inv: "identity_inv B k m" and B: "B mod 4096 = 0" "B + 266240 \<le> 251658240" "B div 4096 + 65 \<le> frame_capacity m"
    and k: "4096 * k < unat (mem_first_unused m) + 16384"
  obtains m' where "identity_page (Suc d) (of_nat (4096 * k)) m = Inr m'" "identity_inv B (k + 1) m'"
    "m' = m\<lparr>mem := mem m', mem_first_unused := mem_first_unused m'\<rparr>" "same_above m m'"
proof -
  let ?T = "unat (mem_first_unused m)"
  have i: "space_ok m" "k \<le> 61440" "used_frames m = {..<k}" "\<forall>p < 1048576. pte m p = (if p < k then mapped_to p else 0)"
    "\<forall>i < 1024. table_at m i \<noteq> 0 \<longleftrightarrow> i < (k + 1023) div 1024 \<or> i = 60" "?T = B + 4096 * ((k + 1023) div 1024)"
    "kernel_heap m = 0"
    using inv by (simp_all add: identity_inv_def)
  obtain q r where qr: "k = 1024 * q + r" "r < 1024" by (rule that [of "k div 1024" "k mod 1024"]) simp_all
  have c: "(k + 1023) div 1024 = (if r = 0 then q else Suc q)" "(k + 1 + 1023) div 1024 = Suc q" "k div 1024 = q"
    using qr by (auto intro!: div_nat_eqI)
  have "(k + 1023) div 1024 \<le> 60" using i(2) by linarith
  then have T: "?T \<le> B + 245760" using i(6) by linarith
  then have k': "k < 61440" "k < 1048576" "4096 * k + 4096 \<le> ?T + 16384" "k < frame_capacity m" "q < 60"
  proof -
    obtain b where b: "B = 4096 * b" by (rule whole_number [OF B(1)])
    show "k < 61440" "k < 1048576" using T k B(2) by linarith+
    have "4096 * k < 4096 * (b + (k + 1023) div 1024 + 4)" using k unfolding i(6) b by simp
    then have "k < b + (k + 1023) div 1024 + 4" by simp
    then show "4096 * k + 4096 \<le> ?T + 16384" unfolding i(6) b by simp
    show "k < frame_capacity m" using \<open>k < b + (k + 1023) div 1024 + 4\<close> \<open>(k + 1023) div 1024 \<le> 60\<close> B(3) unfolding b by simp
    show "q < 60" using qr T k B(2) by linarith
  qed
  have aligned: "?T mod 4096 = 0" unfolding i(6) using B(1) by simp
  have room: "?T + 8192 < 4294967296" using T B(2) by linarith
  obtain m1 where m1: "get_page (\<lambda>sz m. kmalloc_ap (Suc d) m sz) m (of_nat (4096 * k)) True (kernel_directory m)
      = Inr (of_nat (pte_addr m1 k), m1)" "m1 = m\<lparr>mem := mem m1, mem_first_unused := mem_first_unused m1\<rparr>"
    "space_ok m1" "unat (mem_first_unused m1) = (if table_at m (k div 1024) = 0 then ?T + 4096 else ?T)"
    "\<forall>i < 1024. table_at m1 i = (if i = k div 1024 \<and> table_at m i = 0 then ?T else table_at m i)"
    "table_at m1 (k div 1024) \<noteq> 0" "used_frames m1 = used_frames m" "\<forall>q < 1048576. pte m1 q = pte m q"
    "?T + 4096 \<le> 251658240 \<longrightarrow> same_above m m1"
    by (rule get_page_space [OF i(1,7) k'(2) refl aligned room])
  have "pte m1 k = 0" "used_frames m1 = {..<k}" "k < frame_capacity m1"
    using m1(7,8) i(3,4) k'(2,4) by (simp, simp, subst m1(2), simp add: frame_capacity_def)
  then obtain m2 where m2: "page_alloc m1 (of_nat (pte_addr m1 k)) 0 1 = Inr m2" "m2 = m1\<lparr>mem := mem m2\<rparr>"
    "space_ok m2" "\<forall>i < 1024. table_at m2 i = table_at m1 i" "used_frames m2 = {..<Suc k}"
    "\<forall>q < 1048576. pte m2 q = (if q = k then mapped_to k else pte m1 q)"
    "same_outside (frame_bytes m1 \<union> {pte_addr m1 k..<pte_addr m1 k + 4}) (mem m1) (mem m2)"
    by (rule page_alloc_space [OF m1(3) k'(2) m1(6)])
  have below: "?T + 4096 \<le> 251658240" "unat (mem_first_unused m1) \<le> 251658240"
    using T B(2) m1(4) by (simp, simp split: if_splits)
  have addr: "pte_addr m2 k = pte_addr m1 k" using m2(4) c(3) k'(5) by (simp add: pte_addr_def)
  have entry: "load32 (mem m2) (of_nat (pte_addr m1 k)) = mapped_to k"
    using m2(4,6) k'(2,5) m1(6) c(3) by (simp add: pte_def word_at_def addr split: if_splits)
  have "take_bit 20 (of_nat k :: u32) = of_nat k" by (rule take_bit_20_small) (use k' in \<open>simp add: unat_of_nat32\<close>)
  then have "page_address (mapped_to k) = of_nat k" by (simp add: page_filled_fields)
  then have run: "identity_page (Suc d) (of_nat (4096 * k)) m = Inr m2"
    unfolding identity_page_def m1(1) bind_res_Inr prod.case m2(1) entry page_number(1) [OF k'(2)] by simp
  have missing: "table_at m q = 0 \<longleftrightarrow> r = 0" using i(5) [rule_format, of q] c(1) k'(5) by (auto split: if_splits)
  have T2: "unat (mem_first_unused m2) = B + 4096 * Suc q"
  proof -
    have "mem_first_unused m2 = mem_first_unused m1" by (subst m2(2)) simp
    then show ?thesis using m1(4) missing i(6) c by simp
  qed
  have T0: "?T \<noteq> 0" using space_okD(5) [OF i(1)] by linarith
  have heap2: "kernel_heap m2 = 0" by (subst m2(2), simp, subst m1(2), simp add: i(7))
  have "identity_inv B (k + 1) m2"
    unfolding identity_inv_def c(2)
  proof (intro conjI)
    show "used_frames m2 = {..<k + 1}" using m2(5) by simp
    show "\<forall>p < 1048576. pte m2 p = (if p < k + 1 then mapped_to p else 0)" using m2(6) m1(8) i(4) by auto
    show "\<forall>i < 1024. table_at m2 i \<noteq> 0 \<longleftrightarrow> i < Suc q \<or> i = 60"
      using m2(4) m1(5) i(5) c missing T0 by (auto simp: less_Suc_eq)
    show "4096 * (k + 1) \<le> unat (mem_first_unused m2) + 16384"
      using k'(3) i(6) c(1) unfolding T2 by (simp split: if_splits)
  qed (use m2(3) k'(1) T2 heap2 in simp_all)
  moreover have "m2 = m\<lparr>mem := mem m2, mem_first_unused := mem_first_unused m2\<rparr>"
  proof -
    have "mem_first_unused m2 = mem_first_unused m1" by (subst m2(2)) simp
    then show ?thesis by (subst m2(2), subst m1(2)) simp
  qed
  moreover have "same_above m m2"
    by (rule same_above_trans [OF mp [OF m1(9) below(1)] same_above_page [OF m1(3) k'(2) m1(6) below(2) m2(7)]])
  ultimately show ?thesis using that [OF run] by blast
qed

lemma identity_map_ok:
  assumes B: "B mod 4096 = 0" "B + 266240 \<le> 251658240"
  shows "identity_inv B k m \<Longrightarrow> B div 4096 + 65 \<le> frame_capacity m \<Longrightarrow>
     \<exists>k' m'. identity_map (Suc d) (of_nat (4096 * k)) m = Some (Inr m') \<and> identity_inv B k' m'
       \<and> unat (mem_first_unused m') + 16384 = 4096 * k'
       \<and> m' = m\<lparr>mem := mem m', mem_first_unused := mem_first_unused m'\<rparr> \<and> same_above m m'"
proof (induction "61440 - k" arbitrary: k m rule: less_induct)
  case less
  let ?T = "unat (mem_first_unused m)"
  have i: "k \<le> 61440" "?T = B + 4096 * ((k + 1023) div 1024)" "4096 * k \<le> ?T + 16384"
    using less.prems(1) by (simp_all add: identity_inv_def)
  then have "(k + 1023) div 1024 \<le> 60" by linarith
  then have T: "?T + 16384 \<le> 251658240" using i(2) B(2) by linarith
  have "unat (mem_first_unused m + PAGE_SIZE * 4) = ?T + 16384"
    using T by (simp add: PAGE_SIZE_def unat_add32)
  moreover have "unat (of_nat (4096 * k) :: u32) = 4096 * k" by (rule unat_of_nat32) (use i(1) in linarith)
  ultimately have guard: "of_nat (4096 * k) < mem_first_unused m + PAGE_SIZE * 4 \<longleftrightarrow> 4096 * k < ?T + 16384"
    by (simp only: word_less_nat_alt)
  show ?case
  proof (cases "4096 * k < ?T + 16384")
    case True
    obtain m1 where m1: "identity_page (Suc d) (of_nat (4096 * k)) m = Inr m1" "identity_inv B (k + 1) m1"
      "m1 = m\<lparr>mem := mem m1, mem_first_unused := mem_first_unused m1\<rparr>" "same_above m m1"
      by (rule identity_page_step [OF less.prems(1) B less.prems(2) True])
    have "k + 1 \<le> 61440" using m1(2) by (simp add: identity_inv_def)
    moreover have "frame_capacity m1 = frame_capacity m" by (subst m1(3)) (simp add: frame_capacity_def)
    ultimately have "61440 - (k + 1) < 61440 - k" "B div 4096 + 65 \<le> frame_capacity m1" using less.prems(2) by linarith+
    then obtain k' m' where m': "identity_map (Suc d) (of_nat (4096 * (k + 1))) m1 = Some (Inr m')"
      "identity_inv B k' m'" "unat (mem_first_unused m') + 16384 = 4096 * k'"
      "m' = m1\<lparr>mem := mem m', mem_first_unused := mem_first_unused m'\<rparr>" "same_above m1 m'"
      using less.hyps [OF _ m1(2)] by blast
    have "identity_map (Suc d) (of_nat (4096 * k)) m = Some (Inr m')"
      using True m'(1) by (subst identity_map.simps) (simp only: guard m1(1) if_True sum.case next_page)
    moreover have "m' = m\<lparr>mem := mem m', mem_first_unused := mem_first_unused m'\<rparr>" by (subst m'(4), subst m1(3)) simp
    ultimately show ?thesis using m'(2,3) same_above_trans [OF m1(4) m'(5)] by blast
  next
    case False
    then have "identity_map (Suc d) (of_nat (4096 * k)) m = Some (Inr m)"
      by (subst identity_map.simps) (simp only: guard if_False)
    moreover have "?T + 16384 = 4096 * k" using False i(3) by simp
    ultimately show ?thesis using less.prems(1) by (intro exI [of _ k] exI [of _ m]) simp
  qed
qed

section \<open>The kernel's directory\<close>

text \<open>The directory is made, and a table for the heap.\<close>

lemma new_directory:
  assumes fr: "frames_wf m" "frame_capacity m \<le> 1048576" "used_frames m = {}"
    and D: "D mod 4096 = 0" "D + 282624 \<le> 251658240"
    and bs: "unat (bs_base (frames m)) + 4 * unat (bs_size (frames m)) \<le> D"
    and m0: "m0 = m\<lparr>mem_first_unused := of_nat (D + 8196), kernel_directory := of_nat D,
        mem := store32 (memset (mem m) (of_nat D) 0 sizeof_page_directory) (dir_ismeta (of_nat D)) phys\<rparr>"
  shows "space_ok m0" "\<forall>i < 1024. table_at m0 i = 0" "\<forall>p < 1048576. pte m0 p = 0" "used_frames m0 = {}"
    "unat (mem_first_unused m0) = D + 8196" "unat (kernel_directory m0) = D" "same_above m m0"
proof -
  have uD: "unat (of_nat D :: u32) = D" "unat (of_nat (D + 8196) :: u32) = D + 8196"
    by (rule unat_of_nat32; use D(2) in linarith)+
  show T: "unat (mem_first_unused m0) = D + 8196" "unat (kernel_directory m0) = D" unfolding m0 by (simp_all add: uD del: of_nat_add)
  have sz: "unat sizeof_page_directory = 8196" by (simp add: sizeof_page_directory_def)
  let ?m1 = "memset (mem m) (of_nat D) 0 sizeof_page_directory"
  have meta: "dir_ismeta (of_nat D) = of_nat (D + 8192)" by (simp add: dir_ismeta_def)
  have mem: "mem m0 = put_at ?m1 (D + 8192) phys" unfolding m0 meta put_at_def by simp
  have set: "same_outside {D..<D + 8196} (mem m) ?m1"
    using memset_outside [of "of_nat D" sizeof_page_directory "mem m" 0] D(2) by (simp add: uD sz)
  have put: "same_outside {D + 8192..<D + 8196} ?m1 (mem m0)" unfolding mem by (rule same_outside_put_at) (use D(2) in auto)
  have same: "same_outside {D..<D + 8196} (mem m) (mem m0)"
    using same_outside_trans [OF set put] by (rule same_outside_mono) auto
  show "same_above m m0" by (rule same_outside_mono [OF same]) (use D(2) in auto)
  have zero: "word_at (mem m0) (D + 4 * i) = 0" if i: "i < 2048" for i
  proof -
    have "word_at (mem m0) (D + 4 * i) = word_at ?m1 (D + 4 * i)"
      by (rule same_outside_word [OF put]) (use i D(2) in auto)
    also have "\<dots> = 0" unfolding word_at_def
      using elem_bytes [of i 2049 "of_nat D"] i by (intro load32_memset_zero) (simp add: sz)
    finally show ?thesis .
  qed
  then show tables: "\<forall>i < 1024. table_at m0 i = 0" unfolding table_at_def T(2) by simp
  have physicals: "physical_at m0 i = 0" if "i < 1024" for i
    using zero [of "1024 + i"] that unfolding physical_at_def T(2) by (simp add: add.assoc)
  show "\<forall>p < 1048576. pte m0 p = 0" using tables div_page_table by (simp add: pte_def)
  have fields: "frames m0 = frames m" unfolding m0 by simp
  have "frames_wf m0 = frames_wf m" "frame_capacity m0 = frame_capacity m"
    by (simp_all add: frames_wf_def frame_capacity_def fields)
  then show "space_ok m0" using fields fr bs T tables D(1) physicals by (simp add: space_ok_def)
  have wrap: "unat (bs_base (frames m)) + 4 * unat (bs_size (frames m)) \<le> 4294967296" using bs D(2) by linarith
  have "used_frames m0 = used_frames m"
  proof (rule used_frames_cong [OF fr(1) fields])
    show "\<forall>x \<in> bs_region (frames m). mem m0 x = mem m x"
    proof
      fix x assume "x \<in> bs_region (frames m)"
      then have "unat x \<notin> {D..<D + 8196}" using bs unfolding frame_bytes_region [OF wrap] frame_bytes_def by auto
      then show "mem m0 x = mem m x" by (rule same_outside_byte [OF same])
    qed
  qed
  then show "used_frames m0 = {}" using fr(3) by simp
qed

lemma table_at_window [simp]: "table_at (m\<lparr>cloning_buffer_page := x\<rparr>) i = table_at m i"
  by (simp add: table_at_def)

lemma pte_window [simp]:
  "pte_addr (m\<lparr>cloning_buffer_page := x\<rparr>) p = pte_addr m p" "pte (m\<lparr>cloning_buffer_page := x\<rparr>) p = pte m p"
  "used_frames (m\<lparr>cloning_buffer_page := x\<rparr>) = used_frames m"
  "frame_capacity (m\<lparr>cloning_buffer_page := x\<rparr>) = frame_capacity m"
  by (simp_all add: pte_addr_def pte_def used_frames_def frame_capacity_def)

text \<open>
  The memory manager before \<open>init_paging\<close>: all frames of the bit set are free, and the bit set
  ends before the page behind unused memory.
\<close>

definition unpaged :: "nat \<Rightarrow> mm_state \<Rightarrow> bool" where
  "unpaged D m \<longleftrightarrow> kernel_heap m = 0 \<and> frames_wf m \<and> frame_capacity m \<le> 1048576 \<and> used_frames m = {}
     \<and> D mod 4096 = 0 \<and> unat (mem_first_unused m) \<le> D \<and> D < unat (mem_first_unused m) + 4096
     \<and> D + 282624 \<le> 251658240 \<and> D div 4096 + 86 \<le> frame_capacity m
     \<and> unat (bs_base (frames m)) + 4 * unat (bs_size (frames m)) \<le> D"

text \<open>
  The kernel's directory when \<open>map_kernel\<close> is done: \<open>k\<close> pages mapped to themselves, the heap's
  to the frames behind, the window to the next.
\<close>

definition kernel_space :: "nat \<Rightarrow> mm_state \<Rightarrow> bool" where
  "kernel_space k m \<longleftrightarrow> space_ok m \<and> k \<le> 61440 \<and> used_frames m = {..<k + 17}
     \<and> unat (mem_first_unused m) \<le> 4096 * k
     \<and> (\<forall>p < 1048576. pte m p = (if p < k then mapped_to p
          else if 61440 \<le> p \<and> p < 61456 then mapped_to (k + (p - 61440))
          else if p = 983040 then mapped_to (k + 16) else 0))
     \<and> table_at m 60 \<noteq> 0 \<and> table_at m 960 \<noteq> 0
     \<and> (\<forall>i < 1024. table_at m i \<noteq> 0 \<longrightarrow> i \<le> 60 \<or> i = 960)
     \<and> cloning_buffer_page m = of_nat (pte_addr m 983040)"

lemma map_kernel_ok:
  assumes "unpaged D m"
  shows "\<exists>m' k. map_kernel (Suc d) m = Some (Inr m') \<and> kernel_space k m' \<and> unat (kernel_directory m') = D
    \<and> unat (mem_first_unused m') + 12288 = 4096 * k \<and> k \<le> D div 4096 + 68 \<and> same_above m m'
    \<and> m' = m\<lparr>mem := mem m', mem_first_unused := mem_first_unused m', kernel_directory := kernel_directory m',
        cloning_buffer_page := cloning_buffer_page m'\<rparr>"
proof -
  have u: "kernel_heap m = 0" "frames_wf m" "frame_capacity m \<le> 1048576" "used_frames m = {}"
    "D mod 4096 = 0" "unat (mem_first_unused m) \<le> D" "D < unat (mem_first_unused m) + 4096"
    "D + 282624 \<le> 251658240" "D div 4096 + 86 \<le> frame_capacity m"
    "unat (bs_base (frames m)) + 4 * unat (bs_size (frames m)) \<le> D"
    using assms unfolding unpaged_def by blast+
  have sz: "unat sizeof_page_directory = 8196" by (simp add: sizeof_page_directory_def)
  obtain p s1 where p: "kmalloc_ap (Suc d) m sizeof_page_directory = Inr ((p, p), s1)" "unat p mod 4096 = 0"
    "mem_first_unused m \<le> p" "unat p < unat (mem_first_unused m) + 4096"
    "unat (mem_first_unused s1) = unat p + 8196" "s1 = m\<lparr>mem_first_unused := mem_first_unused s1\<rparr>"
    using kmalloc_ap_early [OF u(1), of sizeof_page_directory d] u(6,8) unfolding sz by auto
  have "unat p = D" by (rule aligned_unique [OF p(2) u(5) _ p(4) u(6,7)]) (use p(3) in \<open>simp add: word_le_nat_alt\<close>)
  then have pD: "p = of_nat D" by (metis of_nat32_unat)
  have f1: "mem_first_unused s1 = of_nat (D + 8196)"
    using arg_cong [OF p(5), of "of_nat :: nat \<Rightarrow> u32"] by (simp add: pD)
  define m0 where "m0 = m\<lparr>mem_first_unused := of_nat (D + 8196), kernel_directory := of_nat D,
      mem := store32 (memset (mem m) (of_nat D) 0 sizeof_page_directory) (dir_ismeta (of_nat D)) (of_nat D + 4096)\<rparr>"
  note new = new_directory [OF u(2-5,8,10) m0_def]
  have pages: "KHEAP_START = of_nat (4096 * 61440)" "PAGE_CLONING_BUFFER = of_nat (4096 * 983040)"
    by (simp_all add: KHEAP_START_def PAGE_CLONING_BUFFER_def)
  have q60: "q div 1024 = 60" if "61440 \<le> q" "q < 61456" for q :: nat by (rule div_nat_eqI) (use that in simp_all)
  have heap0: "kernel_heap m0 = 0" by (simp add: m0_def u(1))
  have missing: "(61440 :: nat) < 1048576" "table_at m0 (61440 div 1024) = 0" using new(2) by simp_all
  have room: "unat (mem_first_unused m0) + 8192 < 4294967296" using new(5) u(8) by linarith
  obtain m1 t where m1: "get_page (\<lambda>sz m. kmalloc_ap (Suc d) m sz) m0 (of_nat (4096 * 61440)) True (kernel_directory m0)
      = Inr (of_nat (pte_addr m1 61440), m1)" "m1 = m0\<lparr>mem := mem m1, mem_first_unused := of_nat (t + 4096)\<rparr>"
    "space_ok m1" "unat (mem_first_unused m0) \<le> t" "t < unat (mem_first_unused m0) + 4096" "t mod 4096 = 0"
    "\<forall>i < 1024. table_at m1 i = (if i = 61440 div 1024 then t else table_at m0 i)" "used_frames m1 = used_frames m0"
    "\<forall>q < 1048576. pte m1 q = pte m0 q"
    "same_outside ({unat (kernel_directory m0)..<unat (kernel_directory m0) + 8192} \<union> {t..<t + 4096}) (mem m0) (mem m1)"
    by (rule get_page_new_table [OF new(1) heap0 missing room])
  have t: "t = D + 12288"
    by (rule aligned_unique [OF m1(6) _ m1(4,5)]) (use u(5) new(5) in \<open>simp_all add: mod_add_eq [symmetric]\<close>)
  have tables1: "\<forall>i < 1024. table_at m1 i = (if i = 60 then t else 0)" using m1(7) new(2) by simp
  have "heap_tables 15 (Suc d) (of_nat (4096 * (61440 + 1))) m1 = Inr m1"
    by (rule heap_tables_found) (use tables1 t q60 in auto)
  then have "heap_tables (Suc 15) (Suc d) (of_nat (4096 * 61440)) m0 = Inr m1"
    unfolding heap_tables.simps m1(1) bind_res_Inr prod.case next_page .
  then have run1: "heap_tables 16 (Suc d) KHEAP_START m0 = Inr m1" unfolding pages(1) by simp
  let ?B = "D + 16384"
  have T1: "unat (mem_first_unused m1) = ?B"
    by (subst m1(2)) (use u(8) in \<open>simp add: t unat_of_nat32 del: of_nat_add\<close>)
  have heap1: "kernel_heap m1 = 0" by (subst m1(2)) (simp add: heap0)
  have inv1: "identity_inv ?B 0 m1"
    unfolding identity_inv_def using heap1 m1(3,8,9) new(3,4) tables1 T1 t by auto
  have B: "?B mod 4096 = 0" "?B + 266240 \<le> 251658240" using u(5,8) by (simp_all add: mod_add_eq [symmetric])
  have cap1: "frame_capacity m1 = frame_capacity m" by (subst m1(2)) (simp add: m0_def frame_capacity_def)
  then have "?B div 4096 + 65 \<le> frame_capacity m1" using u(9) by simp
  from identity_map_ok [OF B inv1 this, of d] obtain k m2 where
    m2: "identity_map (Suc d) (of_nat (4096 * 0)) m1 = Some (Inr m2)" "identity_inv ?B k m2"
    "unat (mem_first_unused m2) + 16384 = 4096 * k" "m2 = m1\<lparr>mem := mem m2, mem_first_unused := mem_first_unused m2\<rparr>"
    "same_above m1 m2"
    by (elim exE conjE) (rule that)
  have i: "space_ok m2" "k \<le> 61440" "used_frames m2 = {..<k}" "\<forall>p < 1048576. pte m2 p = (if p < k then mapped_to p else 0)"
    "\<forall>i < 1024. table_at m2 i \<noteq> 0 \<longleftrightarrow> i < (k + 1023) div 1024 \<or> i = 60"
    "unat (mem_first_unused m2) = ?B + 4096 * ((k + 1023) div 1024)" "kernel_heap m2 = 0"
    using m2(2) unfolding identity_inv_def by blast+
  have c: "(k + 1023) div 1024 \<le> 60" using i(2) by linarith
  have "frame_capacity m2 = frame_capacity m1" by (subst m2(4)) (simp add: frame_capacity_def)
  then have cap2: "frame_capacity m2 = frame_capacity m" using cap1 by simp
  have k68: "k \<le> D div 4096 + 68"
  proof -
    obtain b where b: "D = 4096 * b" by (rule whole_number [OF u(5)])
    have "4096 * k \<le> 4096 * (b + 68)" using m2(3) c unfolding i(6) b by simp
    then show ?thesis unfolding b by simp
  qed
  then have k: "k + 17 \<le> frame_capacity m" using u(9) by simp
  have heap: "\<forall>q. 61440 \<le> q \<and> q < 61440 + 16 \<longrightarrow> q < 1048576 \<and> table_at m2 (q div 1024) \<noteq> 0 \<and> pte m2 q = 0"
    using i(2,4,5) q60 by auto
  have T2: "unat (mem_first_unused m2) + 4096 \<le> 251658240" "unat (mem_first_unused m2) \<le> 251658240"
    using m2(3) i(2) by linarith+
  have "k + 16 \<le> frame_capacity m2" using k cap2 by simp
  from heap_frames_found [OF i(1,3) this T2(2) heap, of "Suc d"] obtain m3 where
    m3: "heap_frames 16 (Suc d) (of_nat (4096 * 61440)) m2 = Inr m3" "m3 = m2\<lparr>mem := mem m3\<rparr>" "space_ok m3" "same_above m2 m3"
    "\<forall>i < 1024. table_at m3 i = table_at m2 i" "used_frames m3 = {..<k + 16}"
    "\<forall>q < 1048576. pte m3 q = (if 61440 \<le> q \<and> q < 61440 + 16 then mapped_to (k + (q - 61440)) else pte m2 q)"
    by (elim exE conjE) (rule that)
  have T3: "mem_first_unused m3 = mem_first_unused m2" by (subst m3(2)) simp
  have heap3: "kernel_heap m3 = 0" by (subst m3(2)) (simp add: i(7))
  have aligned: "unat (mem_first_unused m2) mod 4096 = 0"
  proof -
    have "unat (mem_first_unused m2) = 4096 * (k - 4)" using m2(3) by simp
    then show ?thesis by simp
  qed
  have w: "(983040 :: nat) < 1048576" by simp
  have room2: "unat (mem_first_unused m2) + 8192 < 4294967296" using m2(3) i(2) by linarith
  have "unat (mem_first_unused m3) = unat (mem_first_unused m2)" using T3 by simp
  from get_page_space [OF m3(3) heap3 w this aligned room2, of d] obtain m4 where
    m4: "get_page (\<lambda>sz m. kmalloc_ap (Suc d) m sz) m3 (of_nat (4096 * 983040)) True (kernel_directory m3)
      = Inr (of_nat (pte_addr m4 983040), m4)" "m4 = m3\<lparr>mem := mem m4, mem_first_unused := mem_first_unused m4\<rparr>"
    "space_ok m4" "unat (mem_first_unused m4) = (if table_at m3 (983040 div 1024) = 0 then unat (mem_first_unused m2) + 4096 else unat (mem_first_unused m2))"
    "\<forall>i < 1024. table_at m4 i = (if i = 983040 div 1024 \<and> table_at m3 i = 0 then unat (mem_first_unused m2) else table_at m3 i)"
    "table_at m4 (983040 div 1024) \<noteq> 0" "used_frames m4 = used_frames m3" "\<forall>q < 1048576. pte m4 q = pte m3 q"
    "unat (mem_first_unused m2) + 4096 \<le> 251658240 \<longrightarrow> same_above m3 m4" .
  let ?m5 = "m4\<lparr>cloning_buffer_page := of_nat (pte_addr m4 983040)\<rparr>"
  have ok5: "space_ok ?m5" by (rule space_cong [OF m4(3)]) (simp_all add: physical_at_def)
  have "frame_capacity m4 = frame_capacity m3" by (subst m4(2)) (simp add: frame_capacity_def)
  moreover have "frame_capacity m3 = frame_capacity m2" by (subst m3(2)) (simp add: frame_capacity_def)
  ultimately have f5: "used_frames ?m5 = {..<k + 16}" "k + 16 < frame_capacity ?m5" using m4(7) m3(6) k cap2 by simp_all
  have p5: "table_at ?m5 (983040 div 1024) \<noteq> 0" "pte ?m5 983040 = 0" using m4(6,8) m3(7) i(2,4) by simp_all
  obtain m' where m': "page_alloc ?m5 (of_nat (pte_addr ?m5 983040)) 1 1 = Inr m'" "m' = ?m5\<lparr>mem := mem m'\<rparr>"
    "space_ok m'" "\<forall>i < 1024. table_at m' i = table_at ?m5 i" "used_frames m' = {..<Suc (k + 16)}"
    "\<forall>q < 1048576. pte m' q = (if q = 983040 then mapped_to (k + 16) else pte ?m5 q)"
    "same_outside (frame_bytes ?m5 \<union> {pte_addr ?m5 983040..<pte_addr ?m5 983040 + 4}) (mem ?m5) (mem m')"
    by (rule page_alloc_space [OF ok5 w p5 f5])
  have dir: "kernel_directory m' = of_nat D"
    by (subst m'(2), simp, subst m4(2), simp, subst m3(2), simp, subst m2(4), simp, subst m1(2), simp add: m0_def)
  have state: "m' = m\<lparr>mem := mem m', mem_first_unused := mem_first_unused m', kernel_directory := kernel_directory m',
        cloning_buffer_page := cloning_buffer_page m'\<rparr>"
  proof -
    have "mem_total_bytes m' = mem_total_bytes m" "frames m' = frames m" "num_frames m' = num_frames m"
      "current_directory m' = current_directory m" "kernel_heap m' = kernel_heap m" "heap_obj m' = heap_obj m"
      by (subst m'(2), simp, subst m4(2), simp, subst m3(2), simp, subst m2(4), simp, subst m1(2), simp add: m0_def)+
    then show ?thesis by (intro mm_state.equality) simp_all
  qed
  have missing: "table_at m3 960 = 0" using m3(5) i(5) [rule_format, of 960] c by simp
  have "kernel_space k m'"
    unfolding kernel_space_def
  proof (intro conjI)
    show "used_frames m' = {..<k + 17}" using m'(5) by (simp add: add.assoc)
    have "mem_first_unused m' = mem_first_unused m4" by (subst m'(2)) simp
    then show "unat (mem_first_unused m') \<le> 4096 * k" using m4(4) missing m2(3) by simp
    show "\<forall>p < 1048576. pte m' p = (if p < k then mapped_to p
          else if 61440 \<le> p \<and> p < 61456 then mapped_to (k + (p - 61440))
          else if p = 983040 then mapped_to (k + 16) else 0)"
      using m'(6) m4(8) m3(7) i(2,4) by simp
    show "table_at m' 60 \<noteq> 0" "table_at m' 960 \<noteq> 0" using m'(4) m4(5,6) m3(5) i(5) by simp_all
    show "\<forall>i < 1024. table_at m' i \<noteq> 0 \<longrightarrow> i \<le> 60 \<or> i = 960" using m'(4) m4(5) m3(5) i(5) c by auto
    have "pte_addr m' 983040 = pte_addr ?m5 983040" using m'(4) by (simp add: pte_addr_def)
    moreover have "cloning_buffer_page m' = of_nat (pte_addr ?m5 983040)" by (subst m'(2)) simp
    ultimately show "cloning_buffer_page m' = of_nat (pte_addr m' 983040)" by simp
  qed (rule m'(3), rule i(2))
  moreover have "unat (mem_first_unused m') + 12288 = 4096 * k"
  proof -
    have "mem_first_unused m' = mem_first_unused m4" by (subst m'(2)) simp
    then show ?thesis using m4(4) missing m2(3) by simp
  qed
  moreover have "same_above m m'"
  proof -
    have "unat (mem_first_unused ?m5) \<le> 251658240" using m4(4) missing T2(1) by simp
    from same_above_page [OF ok5 w p5(1) this m'(7)] have "same_above m4 m'" by simp
    moreover have "same_above m0 m1" by (rule same_outside_mono [OF m1(10)]) (use new(6) t u(8) in auto)
    ultimately show ?thesis
      using new(7) m2(5) m3(4) mp [OF m4(9) T2(1)] by (meson same_above_trans)
  qed
  moreover have "unat (kernel_directory m') = D" unfolding dir by (rule unat_of_nat32) (use u(8) in linarith)
  moreover have "map_kernel (Suc d) m = Some (Inr m')"
  proof -
    have off: "dir_table_physical (of_nat D) 0 - of_nat D = 4096" by (simp add: dir_table_physical_def)
    have s1: "s1 = m\<lparr>mem_first_unused := of_nat (D + 8196)\<rparr>" by (subst p(6)) (simp only: f1)
    have "m\<lparr>mem_first_unused := of_nat (D + 8196)\<rparr>\<lparr>kernel_directory := of_nat D,
        mem := store32 (memset (mem (m\<lparr>mem_first_unused := of_nat (D + 8196)\<rparr>)) (of_nat D) 0 sizeof_page_directory) (dir_ismeta (of_nat D)) (of_nat D + 4096)\<rparr> = m0"
      by (simp add: m0_def)
    then have start: "bind_res (kmalloc_ap (Suc d) m sizeof_page_directory) (\<lambda>((dir, phys), m1).
             let offset = dir_table_physical dir 0 - dir
             in heap_tables 16 (Suc d) KHEAP_START
                  (m1\<lparr>kernel_directory := dir,
                      mem := store32 (memset (mem m1) dir 0 sizeof_page_directory) (dir_ismeta dir) (phys + offset)\<rparr>)) = Inr m1"
      unfolding p(1) [unfolded pD s1] bind_res_Inr prod.case Let_def off by (simp only: run1)
    have "identity_map (Suc d) 0 m1 = Some (Inr m2)" using m2(1) by simp
    then show ?thesis
      unfolding map_kernel_def start sum.case(2) option.map(2) bind_res_Inr prod.case
      by (simp only: option.map pages m3(1) m4(1) m'(1) [unfolded pte_window] bind_res_Inr prod.case)
  qed
  ultimately show ?thesis using state k68 by blast
qed

section \<open>Properties\<close>

text \<open>The frame a page is mapped to.\<close>

definition page_frame :: "mm_state \<Rightarrow> nat \<Rightarrow> nat option" where
  "page_frame m p = (if page_present (pte m p) then Some (unat (page_address (pte m p))) else None)"

lemma page_frame_mapped: "f < 1048576 \<Longrightarrow> pte m p = mapped_to f \<Longrightarrow> page_frame m p = Some f"
  by (simp add: page_frame_def page_filled_fields take_bit_20_small unat_of_nat32)

lemma page_frame_none: "pte m p = 0 \<Longrightarrow> page_frame m p = None"
  by (simp add: page_frame_def page_present_def)

text \<open>
  C14.  The kernel's address space.  Starting from free frames and a bit set that ends before the
  page behind unused memory, the set-up of paging returns without an error, whose loop over the
  identity map ends although its bound moves.  Then a page has a frame exactly when it is one of
  three kinds: a page below \<open>k\<close>, mapped to the frame of its own number, where \<open>k\<close> is three
  pages behind unused memory; a page of the heap, mapped to the frames behind, in
  order; the page of the cloning buffer, mapped to the next.  These are the frames in use.
\<close>

theorem map_kernel_identity:
  assumes "unpaged D m"
  shows "\<exists>m' k. map_kernel (Suc d) m = Some (Inr m') \<and> unat (kernel_directory m') = D
    \<and> D + 8196 \<le> unat (mem_first_unused m') \<and> unat (mem_first_unused m') + 12288 = 4096 * k \<and> k \<le> 61440
    \<and> (\<forall>p < 1048576. page_frame m' p = (if p < k then Some p
          else if 61440 \<le> p \<and> p < 61456 then Some (k + (p - 61440))
          else if p = 983040 then Some (k + 16) else None))
    \<and> used_frames m' = {..<k + 17}"
proof -
  obtain m' k where m': "map_kernel (Suc d) m = Some (Inr m')" "kernel_space k m'" "unat (kernel_directory m') = D"
    "unat (mem_first_unused m') + 12288 = 4096 * k"
    using map_kernel_ok [OF assms] by blast
  have k: "k \<le> 61440" "used_frames m' = {..<k + 17}"
    "\<forall>p < 1048576. pte m' p = (if p < k then mapped_to p
          else if 61440 \<le> p \<and> p < 61456 then mapped_to (k + (p - 61440))
          else if p = 983040 then mapped_to (k + 16) else 0)"
    using m'(2) unfolding kernel_space_def by blast+
  have "page_frame m' p = (if p < k then Some p
          else if 61440 \<le> p \<and> p < 61456 then Some (k + (p - 61440))
          else if p = 983040 then Some (k + 16) else None)" if p: "p < 1048576" for p
    using k(3) [rule_format, OF p] k(1) p by (auto intro!: page_frame_mapped page_frame_none)
  moreover have "space_ok m'" using m'(2) by (simp add: kernel_space_def)
  then have "D + 8196 \<le> unat (mem_first_unused m')" using space_okD(5) [of m'] m'(3) by simp
  ultimately show ?thesis using m'(1,3,4) k(1,2) by blast
qed

definition sample_unpaged :: mm_state where
  "sample_unpaged = sample_frames\<lparr>mem_first_unused := 0x100000, frames := \<lparr>bs_base = 0x10000, bs_size = 64\<rparr>\<rparr>"

lemma sample_unpaged: "unpaged 0x100000 sample_unpaged"
proof -
  have "words_at (\<lambda>_. 0) b n = replicate n 0" for b n by (rule nth_equalityI) simp_all
  then have "used_frames sample_unpaged = {}"
    by (auto simp: used_frames_def bits_def bs_capacity_def sample_unpaged_def sample_frames_def)
  then show ?thesis
    by (simp add: unpaged_def) (simp add: sample_unpaged_def sample_frames_def frames_wf_def bs_wf_def frame_capacity_def bs_capacity_def)
qed

theorem map_kernel_identity_witness:
  "\<exists>m' k. map_kernel 1 sample_unpaged = Some (Inr m') \<and> page_frame m' 0x100 = Some 0x100
     \<and> page_frame m' 0xF000 = Some k \<and> page_frame m' 0xF010 = None"
proof -
  obtain m' k where m': "map_kernel (Suc 0) sample_unpaged = Some (Inr m')" "unat (kernel_directory m') = 0x100000"
    "0x100000 + 8196 \<le> unat (mem_first_unused m')" "unat (mem_first_unused m') + 12288 = 4096 * k" "k \<le> 61440"
    "\<forall>p < 1048576. page_frame m' p = (if p < k then Some p
          else if 61440 \<le> p \<and> p < 61456 then Some (k + (p - 61440))
          else if p = 983040 then Some (k + 16) else None)"
    using map_kernel_identity [OF sample_unpaged, of 0] by blast
  then have "256 < k" by linarith
  then show ?thesis using m'(1,5,6) by (intro exI [of _ m'] exI [of _ k]) simp
qed

text \<open>
  C15.  The bit set of the frames and the kernel's directory overlap.  \<open>bitset_create\<close> asks for as many
  bytes as the bit set has words; on a machine with 256 MiB or more the directory, made next,
  begins inside the bit set: a frame behind some \<open>n\<close> is in use exactly when a bit of a
  table's address is set, in every later state.
\<close>

theorem frames_overlap_directory:
  assumes "kernel_heap m = 0" "unat (mem_first_unused m) mod 4 = 0" "unat (mem_first_unused m) < 2147483648"
    and "0x10000000 \<le> unat memory_size" "init_frames (Suc d) m memory_size = Inr m1"
    and "kmalloc_ap (Suc d) m1 sizeof_page_directory = Inr ((dir, phys), m2)" "frames m' = frames m2"
  shows "\<exists>n. \<forall>i < 512. \<forall>b < 32. n + 32 * i + b \<in> used_frames m'
    \<longleftrightarrow> bit (load32 (mem m') (dir_table dir (of_nat i))) b"
proof -
  let ?base = "mem_first_unused m" and ?nf = "memory_size div PAGE_SIZE"
  define w where "w = (?nf + 32 - 1) div 32"
  have nf: "unat ?nf = unat memory_size div 4096" by (simp add: PAGE_SIZE_def unat_div)
  then have nf': "65536 \<le> unat ?nf" "unat ?nf < 1048576" using assms(4) unat_lt_32 [of memory_size] by linarith+
  have "?nf + 32 - 1 = ?nf + 31" by simp
  then have "unat w = (unat ?nf + 31) div 32" using nf'(2) by (simp add: w_def unat_div unat_add32)
  then have uw: "2048 \<le> unat w" "unat w \<le> 32768" using nf' by linarith+
  have sz: "unat sizeof_page_directory = 8196" by (simp add: sizeof_page_directory_def)
  have m1: "mem_first_unused m1 = ?base + w" "frames m1 = \<lparr>bs_base = ?base, bs_size = w\<rparr>" "kernel_heap m1 = 0"
    using assms(1,5) unfolding init_frames_def bitset_create_def Let_def
    by (auto simp: kmalloc_linear w_def)
  have T1: "unat (mem_first_unused m1) = unat ?base + unat w" unfolding m1(1) using uw assms(3) by (simp add: unat_add32)
  have "unat (mem_first_unused m1) + 4096 + unat sizeof_page_directory < 4294967296" unfolding T1 sz using uw assms(3) by linarith
  from kmalloc_ap_early [OF m1(3) this, of d] obtain p s2 where p: "kmalloc_ap (Suc d) m1 sizeof_page_directory = Inr ((p, p), s2)"
    "unat p mod 4096 = 0" "mem_first_unused m1 \<le> p" "unat p < unat (mem_first_unused m1) + 4096"
    "s2 = m1\<lparr>mem_first_unused := mem_first_unused s2\<rparr>" by (elim exE conjE) (rule that)
  have eq: "dir = p" "m2 = s2" using assms(6) p(1) by simp_all
  have "frames s2 = frames m1" by (subst p(5)) simp
  then have fr: "frames m' = \<lparr>bs_base = ?base, bs_size = w\<rparr>" using assms(7) m1(2) eq(2) by simp
  have dir: "unat ?base + unat w \<le> unat dir" "unat dir < unat ?base + unat w + 4096"
    using p(3,4) unfolding eq T1 word_le_nat_alt by simp_all
  have "(4 :: nat) dvd 4096" by simp
  then have "unat dir mod 4 = 0" using p(2) eq(1) by (metis mod_0 mod_mod_cancel)
  moreover obtain r where r: "unat dir = unat ?base + r" using dir(1) by (metis add_leE le_Suc_ex)
  ultimately have "r mod 4 = 0" using assms(2) by (simp add: mod_add_left_eq [symmetric])
  then obtain q where "r = 4 * q" by (rule whole_number)
  then have q: "unat dir = unat ?base + 4 * q" using r by simp
  have "32 * q + 32 * i + b \<in> used_frames m' \<longleftrightarrow> bit (load32 (mem m') (dir_table dir (of_nat i))) b"
    if ib: "i < 512" "b < 32" for i b
  proof -
    have qi: "q + i < unat w" using q dir(2) uw(1) ib(1) by linarith
    have idx: "(32 * q + 32 * i + b) div 32 = q + i" "(32 * q + 32 * i + b) mod 32 = b"
      using ib(2) by (auto intro!: div_nat_eqI simp: mod_add_eq [symmetric])
    have "dir = of_nat (unat ?base + 4 * q)" unfolding q [symmetric] by simp
    then have slot: "?base + 4 * of_nat (q + i) = dir_table dir (of_nat i)" by (simp add: dir_table_def algebra_simps)
    show ?thesis
      using qi ib(2) by (simp add: used_frames_def bits_def bs_capacity_def fr idx slot del: of_nat_add)
  qed
  then show ?thesis by blast
qed

theorem frames_overlap_directory_witness:
  "\<exists>m1 m2 dir phys n. init_frames 1 sample_frames 0x10000000 = Inr m1
    \<and> kmalloc_ap 1 m1 sizeof_page_directory = Inr ((dir, phys), m2)
    \<and> (n \<in> used_frames m2 \<longleftrightarrow> bit (load32 (mem m2) dir) 0)"
proof -
  have k: "kernel_heap sample_frames = 0" "unat (mem_first_unused sample_frames) mod 4 = 0"
    "unat (mem_first_unused sample_frames) < 2147483648" by (simp_all add: sample_frames_def)
  obtain m1 where m1: "init_frames (Suc 0) sample_frames 0x10000000 = Inr m1" "kernel_heap m1 = 0"
    using k(1) by (simp add: init_frames_def bitset_create_def Let_def kmalloc_linear)
  obtain dir phys m2 where "kmalloc_ap (Suc 0) m1 sizeof_page_directory = Inr ((dir, phys), m2)"
    using m1(2) by (simp add: kmalloc_ap_def linear_kmalloc_def Let_def)
  from frames_overlap_directory [OF k _ m1(1) this refl] obtain n where
    "\<forall>i < 512. \<forall>b < 32. n + 32 * i + b \<in> used_frames m2 \<longleftrightarrow> bit (load32 (mem m2) (dir_table dir (of_nat i))) b" by auto
  from this [rule_format, of 0 0] have "n \<in> used_frames m2 \<longleftrightarrow> bit (load32 (mem m2) dir) 0"
    by (simp add: dir_table_def)
  then show ?thesis using m1(1) \<open>kmalloc_ap (Suc 0) m1 sizeof_page_directory = Inr ((dir, phys), m2)\<close> by auto
qed

end
