(* ===== verification/Running.thy ===== *)
theory Running
  imports AddressSpace
begin

text \<open>
  The memory manager in service, after \<open>init_paging\<close>: what \<open>kmalloc_ap\<close> returns from a heap with
  one large hole, and the page tables that \<open>get_page\<close> allocates there for a directory that is not the
  kernel's.
\<close>

section \<open>The tables and the frames\<close>

text \<open>Writes away from the directory and the tables leave them, and the pages they map, as they are.\<close>

lemma tables_apart:
  assumes ok: "space_ok m" and fields: "frames m' = frames m" "kernel_directory m' = kernel_directory m"
    and unused: "mem_first_unused m \<le> mem_first_unused m'"
    and same: "same_outside R (mem m) (mem m')" "R \<inter> {unat (kernel_directory m)..<unat (mem_first_unused m)} = {}"
  shows "space_ok m'" "\<And>i. i < 1024 \<Longrightarrow> table_at m' i = table_at m i"
    "\<And>p. p < 1048576 \<Longrightarrow> pte_addr m' p = pte_addr m p" "\<And>p. p < 1048576 \<Longrightarrow> pte m' p = pte m p"
proof -
  note sp = space_okD [OF ok]
  have below: "word_at (mem m') q = word_at (mem m) q"
    if "unat (kernel_directory m) \<le> q" "q + 4 \<le> unat (mem_first_unused m)" for q
  proof (rule same_outside_word [OF same(1)])
    show "{q..<q + 4} \<inter> R = {}" using same(2) that by fastforce
    show "q + 4 \<le> 4294967296" using that unat_lt_32 [of "mem_first_unused m"] by linarith
  qed
  show tables: "table_at m' i = table_at m i" if "i < 1024" for i
    unfolding table_at_def fields(2) using below [of "unat (kernel_directory m) + 4 * i"] sp(5) that by simp
  have physicals: "physical_at m' i = physical_at m i" if "i < 1024" for i
    unfolding physical_at_def fields(2) using below [of "unat (kernel_directory m) + 4096 + 4 * i"] sp(5) that by simp
  show "space_ok m'" by (rule space_cong [OF ok fields unused tables physicals])
  show addr: "pte_addr m' p = pte_addr m p" if "p < 1048576" for p
    using tables [OF div_page_table [OF that]] by (simp add: pte_addr_def)
  show "pte m' p = pte m p" if p: "p < 1048576" for p
  proof -
    have "word_at (mem m') (pte_addr m p) = word_at (mem m) (pte_addr m p)" if t: "table_at m (p div 1024) \<noteq> 0"
      by (rule below) (use pte_addr_bounds(1,2) [OF ok p t] in linarith)+
    then show ?thesis using tables [OF div_page_table [OF p]] addr [OF p] by (simp add: pte_def)
  qed
qed

text \<open>Writes away from the bit set too leave the frames in use.\<close>

lemma frames_apart:
  assumes ok: "space_ok m" and fields: "frames m' = frames m"
    and same: "same_outside R (mem m) (mem m')" "R \<inter> {unat (bs_base (frames m))..<unat (mem_first_unused m)} = {}"
  shows "used_frames m' = used_frames m" "R \<inter> {unat (kernel_directory m)..<unat (mem_first_unused m)} = {}"
proof -
  note sp = space_okD [OF ok]
  have "frame_bytes m \<subseteq> {unat (bs_base (frames m))..<unat (mem_first_unused m)}"
    using sp(3,5) by (auto simp: frame_bytes_def)
  then show "used_frames m' = used_frames m" using same(2) by (intro used_frames_same [OF ok fields same(1)]) blast
  have "{unat (kernel_directory m)..<unat (mem_first_unused m)} \<subseteq> {unat (bs_base (frames m))..<unat (mem_first_unused m)}"
    using sp(3) by auto
  then show "R \<inter> {unat (kernel_directory m)..<unat (mem_first_unused m)} = {}" using same(2) by blast
qed

section \<open>Page-aligned blocks\<close>

text \<open>
  A heap with one large hole, of \<open>N\<close> bytes from the address \<open>h\<close> on; every other hole is too small
  for a page.
\<close>

definition roomy :: "nat \<Rightarrow> nat \<Rightarrow> mm_state \<Rightarrow> block list \<Rightarrow> bool" where
  "roomy h N m bs \<longleftrightarrow> (\<exists>pre k post. bs = pre @ (N, k) # post \<and> k \<noteq> Used \<and> k \<noteq> Lost \<and> h = heap_start m + total pre
     \<and> (\<forall>b \<in> set (pre @ post). snd b = Used \<or> snd b = Lost \<or> fst b < 4116))"

definition vacant :: "block list \<Rightarrow> nat" where
  "vacant bs = length (filter (\<lambda>b. snd b \<noteq> Used) bs)"

text \<open>What an aligned block of \<open>n\<close> bytes, header and footer included, makes of the hole.\<close>

definition carved :: "nat \<Rightarrow> nat \<Rightarrow> nat \<Rightarrow> mm_state \<Rightarrow> block list \<Rightarrow> block list \<Rightarrow> bool" where
  "carved h N n m bs bs' \<longleftrightarrow> (\<exists>pre k post. bs = pre @ (N, k) # post \<and> h = heap_start m + total pre
     \<and> bs' = alloc_blocks pre (front h 1) n N post)"

lemma length_holes_of: "length (holes_of a bs) = vacant bs"
  by (induction bs arbitrary: a) (auto simp: vacant_def)

lemma front_page: "a + 4128 < 4294967296 \<Longrightarrow> front a pa \<le> 4116"
  using page_align_get_offset_nat [of "of_nat a"]
  by (auto simp: front_def unat_of_nat32 Let_def split: if_splits)

lemma aligned_block:
  assumes inv: "heap_inv m bs" and roomy: "roomy h N m bs" and len: "4096 \<le> unat sz" "unat sz + 4156 < N"
    and cap: "vacant bs < index_capacity m"
  obtains p m' bs' where "heap_alloc ap m sz 1 = Inr (of_nat p, m')" "p mod 4096 = 0" "h + 12 \<le> p" "p < h + 4129"
    "heap_inv m' bs'" "roomy (p + unat sz + 8) (h + N - (p + unat sz + 8)) m' bs'" "vacant bs' \<le> Suc (vacant bs)"
    "set (payloads (heap_start m) bs) \<subseteq> set (payloads (heap_start m') bs')"
    "(p, unat sz) \<in> set (payloads (heap_start m') bs')" "resized m m'"
    "same_outside (index_bytes m \<union> {h..<h + N}) (mem m) (mem m')" "carved h N (unat sz + 20) m bs bs'"
proof -
  obtain pre k post where r: "bs = pre @ (N, k) # post" "k \<noteq> Used" "k \<noteq> Lost" "h = heap_start m + total pre"
    "\<forall>b \<in> set (pre @ post). snd b = Used \<or> snd b = Lost \<or> fst b < 4116"
    using roomy unfolding roomy_def by blast
  let ?n = "unat sz + 20"
  have top: "h + N \<le> heap_end m" "heap_end m < 2147483648" using heap_invD(2,5) [OF inv] by (simp_all add: r(1,4))
  have n: "20 \<le> ?n" "?n < 2147483648" using len(2) top by linarith+
  have "h + 4128 < 4294967296" using top len by linarith
  then have f: "front h 1 \<le> 4116" by (rule front_page)
  have "fits_in m bs ?n 1"
    by (rule fits_inI [OF r(1-3)]) (use f len(2) in \<open>simp add: r(4) [symmetric]\<close>)
  then obtain pre' hsz post' where tk: "taken m bs ?n 1 pre' hsz post'" by (rule taken_exists [OF inv n])
  obtain k' where k': "bs = pre' @ (hsz, k') # post'" "k' \<noteq> Used" "k' \<noteq> Lost" using takenD(2) [OF tk] by blast
  have "\<not> hsz < 4116" using takenD(1) [OF tk] len(1) by linarith
  then have "(hsz, k') \<notin> set (pre @ post)" using r(5) k'(2,3) by fastforce
  then have same: "pre' = pre" "hsz = N" "post' = post"
    using k'(1) r(1)
    by (auto simp: append_eq_append_conv2 Cons_eq_append_conv append_eq_Cons_conv)
  note tk = tk [unfolded same]
  have room: "length (index_list m) < index_capacity m"
    using mset_eq_length [OF heap_invD(4) [OF inv]] cap by (simp add: length_holes_of)
  define off where "off = front h 1"
  have off: "off = front (heap_start m + total pre) 1" by (simp add: off_def r(4))
  have "off + ?n + 20 < N" using f len(2) by (simp add: off_def)
  then obtain m' where m': "heap_alloc ap m sz 1 = Inr (of_nat (heap_start m + total pre + off + 12), m')"
    "(heap_start m + total pre + off + 12) mod 4096 = 0"
    "heap_inv m' (alloc_blocks pre off ?n N post)" "resized m m'"
    "same_outside (index_bytes m \<union> {heap_start m + total pre..<heap_start m + total pre + N}) (mem m) (mem m')"
    using heap_alloc_aligned(2) [where kmalloc_ap = ap, OF inv n(2) _ tk room off] by auto
  define mid where "mid = (if off = 0 then [] else [(off, Lost)])"
  have bs': "alloc_blocks pre off ?n N post = (pre @ mid @ [(?n, Used)]) @ (N - off - ?n, Hole) # post"
    using \<open>off + ?n + 20 < N\<close> by (auto simp: alloc_blocks_def remainder_def block_size_def mid_def)
  have tot: "total mid = off" by (simp add: mid_def)
  have start: "heap_start m' = heap_start m" by (rule resized_frame(3) [OF m'(4)])
  let ?p = "h + off + 12"
  show ?thesis
  proof (rule that)
    show "heap_alloc ap m sz 1 = Inr (of_nat ?p, m')" "?p mod 4096 = 0" "heap_inv m' (alloc_blocks pre off ?n N post)" "resized m m'"
      "same_outside (index_bytes m \<union> {h..<h + N}) (mem m) (mem m')"
      using m' unfolding r(4) by simp_all
    show "h + 12 \<le> ?p" "?p < h + 4129" using f by (simp_all add: off_def)
    have "h + N - (?p + unat sz + 8) = N - off - ?n" by simp
    then show "roomy (?p + unat sz + 8) (h + N - (?p + unat sz + 8)) m' (alloc_blocks pre off ?n N post)"
      unfolding roomy_def bs'
      by (intro exI [of _ "pre @ mid @ [(?n, Used)]"] exI [of _ Hole] exI [of _ post])
         (use r(4,5) in \<open>auto simp: start tot mid_def\<close>)
    show "carved h N ?n m bs (alloc_blocks pre off ?n N post)" using r(1,4) unfolding carved_def off_def by blast
    show "vacant (alloc_blocks pre off ?n N post) \<le> Suc (vacant bs)"
      unfolding bs' r(1) using r(2) by (simp add: vacant_def mid_def)
    have "set (payloads (heap_start m) bs) = set (payloads (heap_start m) pre) \<union> set (payloads (h + N) post)"
      unfolding r(1) using r(2) by (simp add: payloads_append r(4))
    moreover have "h + off + ?n + (N - off - ?n) = h + N" using \<open>off + ?n + 20 < N\<close> by simp
    then have "set (payloads (heap_start m') (alloc_blocks pre off ?n N post))
        = set (payloads (heap_start m) pre) \<union> {(?p, unat sz)} \<union> set (payloads (h + N) post)"
      unfolding bs' by (auto simp: payloads_append start r(4) tot mid_def add.assoc)
    ultimately show "set (payloads (heap_start m) bs) \<subseteq> set (payloads (heap_start m') (alloc_blocks pre off ?n N post))"
      "(?p, unat sz) \<in> set (payloads (heap_start m') (alloc_blocks pre off ?n N post))" by auto
  qed
qed

section \<open>The memory manager in service\<close>

text \<open>
  The kernel's tables below the heap, the heap in the 4 MiB of its table, the window with a frame,
  and the first \<open>f\<close> frames in use.
\<close>

definition running :: "nat \<Rightarrow> mm_state \<Rightarrow> bool" where
  "running f m \<longleftrightarrow> space_ok m \<and> used_frames m = {..<f} \<and> kernel_heap m \<noteq> 0 \<and> unat (mem_first_unused m) \<le> 0x0F000000
     \<and> (\<forall>x \<in> index_bytes m. 0x0F000000 \<le> x) \<and> 0x0F000000 \<le> heap_start m \<and> heap_end m \<le> 0x0F400000
     \<and> table_at m 60 \<noteq> 0 \<and> table_at m 960 \<noteq> 0 \<and> (\<forall>i < 1024. table_at m i \<noteq> 0 \<longrightarrow> i \<le> 60 \<or> i = 960)
     \<and> cloning_buffer_page m = of_nat (pte_addr m 983040) \<and> page_address (pte m 983040) \<noteq> 0"

lemma runningD:
  assumes "running f m"
  shows "space_ok m" "used_frames m = {..<f}" "kernel_heap m \<noteq> 0" "unat (mem_first_unused m) \<le> 0x0F000000"
    "\<And>x. x \<in> index_bytes m \<Longrightarrow> 0x0F000000 \<le> x" "0x0F000000 \<le> heap_start m" "heap_end m \<le> 0x0F400000"
    "table_at m 60 \<noteq> 0" "table_at m 960 \<noteq> 0" "\<And>i. i < 1024 \<Longrightarrow> table_at m i \<noteq> 0 \<Longrightarrow> i \<le> 60 \<or> i = 960"
    "cloning_buffer_page m = of_nat (pte_addr m 983040)" "page_address (pte m 983040) \<noteq> 0"
  using assms by (auto simp: running_def)

lemma resized_fields:
  assumes "resized m m'"
  shows "frames m' = frames m" "kernel_directory m' = kernel_directory m" "current_directory m' = current_directory m"
    "mem_first_unused m' = mem_first_unused m" "cloning_buffer_page m' = cloning_buffer_page m" "kernel_heap m' = kernel_heap m"
  using assms unfolding resized_def by (elim exE, simp)+

lemma resized_store: "resized m1 m2 \<Longrightarrow> m3 = m2\<lparr>mem := mem m3\<rparr> \<Longrightarrow> resized m1 m3"
  using resized_trans [OF _ resized_refl(2) [of m2 "mem m3"]] by metis

text \<open>Writes that leave the bytes from the bit set to the last table alone.\<close>

abbreviation manager_bytes :: "mm_state \<Rightarrow> nat set" where
  "manager_bytes m \<equiv> {unat (bs_base (frames m))..<unat (mem_first_unused m)}"

lemma running_frames:
  assumes run: "running f m" and res: "resized m m'" and used: "used_frames m' = {..<f'}"
    and same: "same_outside R (mem m) (mem m')" "R \<inter> {unat (kernel_directory m)..<unat (mem_first_unused m)} = {}"
  shows "running f' m'" "\<And>i. i < 1024 \<Longrightarrow> table_at m' i = table_at m i"
    "\<And>p. p < 1048576 \<Longrightarrow> pte_addr m' p = pte_addr m p" "\<And>p. p < 1048576 \<Longrightarrow> pte m' p = pte m p"
proof -
  note r = runningD [OF run] and fields = resized_fields [OF res]
  have "mem_first_unused m \<le> mem_first_unused m'" by (simp add: fields)
  note a = tables_apart [OF r(1) fields(1,2) this same]
  show "\<And>i. i < 1024 \<Longrightarrow> table_at m' i = table_at m i" "\<And>p. p < 1048576 \<Longrightarrow> pte_addr m' p = pte_addr m p"
    "\<And>p. p < 1048576 \<Longrightarrow> pte m' p = pte m p" by (fact a)+
  show "running f' m'"
    using r a resized_frame [OF res] used unfolding running_def fields by simp
qed

lemma running_kept:
  assumes run: "running f m" and res: "resized m m'"
    and same: "same_outside R (mem m) (mem m')" "R \<inter> manager_bytes m = {}"
  shows "running f m'" "\<And>i. i < 1024 \<Longrightarrow> table_at m' i = table_at m i"
    "\<And>p. p < 1048576 \<Longrightarrow> pte_addr m' p = pte_addr m p" "\<And>p. p < 1048576 \<Longrightarrow> pte m' p = pte m p"
proof -
  note u = frames_apart [OF runningD(1) [OF run] resized_fields(1) [OF res] same]
  have "used_frames m' = {..<f}" using u(1) runningD(2) [OF run] by simp
  from running_frames [OF run res this same(1) u(2)]
  show "running f m'" "\<And>i. i < 1024 \<Longrightarrow> table_at m' i = table_at m i"
    "\<And>p. p < 1048576 \<Longrightarrow> pte_addr m' p = pte_addr m p" "\<And>p. p < 1048576 \<Longrightarrow> pte m' p = pte m p" by simp_all
qed

text \<open>The heap's own bytes, and what is behind them, are apart from the manager's.\<close>

lemma heap_apart:
  assumes "running f m" "\<forall>x \<in> R. 0x0F000000 \<le> x"
  shows "R \<inter> manager_bytes m = {}"
  using runningD(4) [OF assms(1)] assms(2) by fastforce

lemma kmalloc_ap_running:
  assumes run: "running f m" and inv: "heap_inv m bs" and roomy: "roomy h N m bs"
    and len: "4096 \<le> unat sz" "unat sz + 4156 < N" and cap: "vacant bs < index_capacity m"
  obtains p m' bs' where "kmalloc_ap (Suc d) m sz = Inr ((of_nat p, page_address (pte m (p div 4096)) * 4096), m')"
    "p mod 4096 = 0" "h + 12 \<le> p" "p < h + 4129"
    "heap_inv m' bs'" "roomy (p + unat sz + 8) (h + N - (p + unat sz + 8)) m' bs'" "vacant bs' \<le> Suc (vacant bs)"
    "set (payloads (heap_start m) bs) \<subseteq> set (payloads (heap_start m') bs')"
    "(p, unat sz) \<in> set (payloads (heap_start m') bs')" "resized m m'" "running f m'"
    "same_outside (index_bytes m \<union> {h..<h + N}) (mem m) (mem m')" "carved h N (unat sz + 20) m bs bs'"
proof -
  note r = runningD [OF run]
  let ?ap = "\<lambda>sz s. kmalloc_impl d s sz 1 True"
  obtain p m' bs' where a: "heap_alloc ?ap m sz 1 = Inr (of_nat p, m')" "p mod 4096 = 0" "h + 12 \<le> p" "p < h + 4129"
    "heap_inv m' bs'" "roomy (p + unat sz + 8) (h + N - (p + unat sz + 8)) m' bs'" "vacant bs' \<le> Suc (vacant bs)"
    "set (payloads (heap_start m) bs) \<subseteq> set (payloads (heap_start m') bs')"
    "(p, unat sz) \<in> set (payloads (heap_start m') bs')" "resized m m'"
    "same_outside (index_bytes m \<union> {h..<h + N}) (mem m) (mem m')" "carved h N (unat sz + 20) m bs bs'"
    by (rule aligned_block [OF inv roomy len cap])
  have h: "heap_start m \<le> h" "h + N \<le> heap_end m"
    using roomy heap_invD(2) [OF inv] by (auto simp: roomy_def)
  have low: "\<forall>x \<in> index_bytes m \<union> {h..<h + N}. 0x0F000000 \<le> x" using r(5,6) h(1) by fastforce
  note k = running_kept [OF run a(10,11) heap_apart [OF run low]]
  obtain q where q: "p = 4096 * q" by (rule whole_number [OF a(2)])
  have "0x0F000000 \<le> p" "p < 0x0F400000" using a(3,4) h r(6,7) len by linarith+
  then have q': "61440 \<le> q" "q < 62464" "q < 1048576" unfolding q by simp_all
  then have "q div 1024 = 60" by (intro div_nat_eqI) simp_all
  then have t: "table_at m' (q div 1024) \<noteq> 0" using k(2) r(8) by simp
  note page = get_page_found [OF q'(3) t, of ?ap False]
  note b = pte_addr_bounds [OF runningD(1) [OF k(1)] q'(3) t]
  have "unat (of_nat (pte_addr m' q) :: u32) = pte_addr m' q" by (rule unat_of_nat32) (use b(3) in linarith)
  then have null: "(of_nat (pte_addr m' q) :: u32) \<noteq> 0" using b(1) by (metis add_is_0 le_zero_eq unat_0 zero_neq_numeral)
  have entry: "load32 (mem m') (of_nat (pte_addr m' q)) = pte m q"
    using k(4) [OF q'(3)] t by (simp add: pte_def word_at_def split: if_splits)
  have "unat (of_nat (4096 * q) :: u32) = 4096 * q" by (rule unat_of_nat32) (use q'(2) in simp)
  then have "unat (of_nat (4096 * q) :: u32) mod 4096 = 0" by simp
  then have offset: "(of_nat (4096 * q) :: u32) AND NOT PAGE_ADDR_MASK = 0"
    by (simp add: page_offset_mask word_unat_eq_iff unat_mod del: of_nat_mult)
  have phys: "page_address (load32 (mem m') (of_nat (pte_addr m' q))) * PAGE_SIZE + ((of_nat (4096 * q) :: u32) AND NOT PAGE_ADDR_MASK)
      = page_address (pte m (p div 4096)) * 4096"
    unfolding entry offset PAGE_SIZE_def q by simp
  have "kmalloc_ap (Suc d) m sz = Inr ((of_nat p, page_address (pte m (p div 4096)) * 4096), m')"
    unfolding kmalloc_ap_def kmalloc_impl.simps Let_def a(1) [unfolded q] if_P [OF r(3)] bind_res_Inr prod.case
      if_True page if_not_P [OF null] unfolding phys unfolding q by (rule refl)
  from that [OF this a(2-10) k(1) a(11,12)] show ?thesis .
qed

section \<open>Writes to blocks\<close>

lemma index_below: "heap_inv m bs \<Longrightarrow> x \<in> index_bytes m \<Longrightarrow> x < heap_start m"
  using heap_invD(1) [of m bs] by (auto simp: index_ok_def index_bytes_def index_capacity_def)

text \<open>Writes to payloads, and below the heap, keep the heap.\<close>

lemma heap_inv_payloads:
  assumes inv: "heap_inv m bs" and R: "\<And>x. x \<in> R \<Longrightarrow> x < 0x0F000000 \<or> (\<exists>(p, n) \<in> set (payloads (heap_start m) bs). x \<in> {p..<p + n})"
    and above: "0x0F000000 \<le> heap_start m" "\<And>x. x \<in> index_bytes m \<Longrightarrow> 0x0F000000 \<le> x"
    and m': "m' = m\<lparr>mem := mem m'\<rparr>" and same: "same_outside R (mem m) (mem m')"
  shows "heap_inv m' bs"
proof -
  have meta: "metas (heap_start m) bs \<subseteq> {heap_start m..<heap_start m + total bs}" by (rule metas_within [OF heap_invD(3) [OF inv]])
  have "x \<notin> metas (heap_start m) bs \<and> x \<notin> index_bytes m" if x: "x \<in> R" for x
  proof (cases "x < 0x0F000000")
    case True
    then show ?thesis using above(1) above(2) [of x] meta by auto
  next
    case False
    then obtain p n where pn: "(p, n) \<in> set (payloads (heap_start m) bs)" "x \<in> {p..<p + n}" using R [OF x] by blast
    note b = payloads_range [OF heap_invD(3) [OF inv] pn(1)]
    then have "heap_start m \<le> x" using pn(2) by auto
    then have "x \<notin> index_bytes m" using index_below [OF inv, of x] by (cases "x \<in> index_bytes m") auto
    then show ?thesis using b pn(2) by blast
  qed
  then have "R \<inter> metas (heap_start m) bs = {}" "R \<inter> index_bytes m = {}" by blast+
  from heap_inv_outside [OF inv same this] show ?thesis unfolding m' [symmetric] .
qed

section \<open>Page tables of another directory\<close>

text \<open>
  A new table for the directory at \<open>P\<close>, a block of the heap, and a frame for its first page, as
  \<open>task_page\<close> asks for them.
\<close>

lemma private_table:
  assumes run: "running f m" and inv: "heap_inv m bs" and roomy: "roomy h N m bs" and len: "8252 < N"
    and cap: "vacant bs < index_capacity m" and f: "f < frame_capacity m"
    and P: "P mod 4096 = 0" "P + 8204 \<le> h" "(P, 8196) \<in> set (payloads (heap_start m) bs)"
    and i: "i < 1024" "word_at (mem m) (P + 4 * i) = 0"
  obtains Q m' bs' where
    "bind_res (get_page (\<lambda>sz m. kmalloc_ap (Suc d) m sz) m (of_nat (4096 * (1024 * i))) True (of_nat P)) (\<lambda>(page, m1).
       bind_res (page_alloc m1 page 0 1) (\<lambda>m2. Inr (page, m2))) = Inr (of_nat Q, m')"
    "Q mod 4096 = 0" "h + 12 \<le> Q" "Q < h + 4129"
    "heap_inv m' bs'" "roomy (Q + 4104) (h + N - (Q + 4104)) m' bs'" "vacant bs' \<le> Suc (vacant bs)"
    "set (payloads (heap_start m) bs) \<subseteq> set (payloads (heap_start m') bs')" "resized m m'" "running (Suc f) m'"
    "word_at (mem m') (P + 4 * i) = of_nat Q"
    "word_at (mem m') (P + 4096 + 4 * i) = (page_address (pte m (Q div 4096)) * 4096) OR 7"
    "word_at (mem m') Q = mapped_to f" "\<forall>j < 1024. 0 < j \<longrightarrow> word_at (mem m') (Q + 4 * j) = 0"
    "same_outside (index_bytes m \<union> {h..<h + N} \<union> {P + 4 * i..<P + 4 * i + 4} \<union> {P + 4096 + 4 * i..<P + 4096 + 4 * i + 4}
       \<union> frame_bytes m) (mem m) (mem m')"
    "\<forall>p < 1048576. pte m' p = pte m p"
proof -
  note r = runningD [OF run]
  have sz: "unat sizeof_page_table = 4096" by (simp add: sizeof_page_table_def)
  have szs: "4096 \<le> unat sizeof_page_table" "unat sizeof_page_table + 4156 < N" using len by (simp_all add: sz)
  obtain Q m1 bs1 where a: "kmalloc_ap (Suc d) m sizeof_page_table = Inr ((of_nat Q, page_address (pte m (Q div 4096)) * 4096), m1)"
    "Q mod 4096 = 0" "h + 12 \<le> Q" "Q < h + 4129"
    "heap_inv m1 bs1" "roomy (Q + unat sizeof_page_table + 8) (h + N - (Q + unat sizeof_page_table + 8)) m1 bs1" "vacant bs1 \<le> Suc (vacant bs)"
    "set (payloads (heap_start m) bs) \<subseteq> set (payloads (heap_start m1) bs1)"
    "(Q, unat sizeof_page_table) \<in> set (payloads (heap_start m1) bs1)" "resized m m1" "running f m1"
    "same_outside (index_bytes m \<union> {h..<h + N}) (mem m) (mem m1)" "carved h N (unat sizeof_page_table + 20) m bs bs1"
    by (rule kmalloc_ap_running [OF run inv roomy szs cap])
  have h: "h + N \<le> heap_end m" using roomy heap_invD(2) [OF inv] by (auto simp: roomy_def)
  have P0: "heap_start m + 12 \<le> P" using payloads_range [OF heap_invD(3) [OF inv] P(3)] by simp
  have far: "P + 12288 \<le> Q" by (rule aligned_behind [OF P(1) a(2)]) (use P(2) a(3) in linarith)
  have top: "Q + 4096 < 0x0F400000" using h a(4) len r(7) by linarith
  have uP: "unat (of_nat P :: u32) = P" "unat (of_nat Q :: u32) = Q" by (rule unat_of_nat32; use far top in linarith)+
  let ?phys = "page_address (pte m (Q div 4096)) * 4096"
  define m2 where "m2 = store32 (memset (store32 (mem m1) (dir_table (of_nat P) (of_nat i)) (of_nat Q)) (of_nat Q) 0 sizeof_page_table)
        (dir_table_physical (of_nat P) (of_nat i)) (?phys OR 7)"
  have far': "unat (of_nat P :: u32) + 12288 \<le> Q" "Q + 4096 \<le> 4294967296" using far top by (simp_all add: uP)
  note new = new_table_memory [OF far' i(1) m2_def, unfolded uP]
  let ?slots = "{P + 4 * i..<P + 4 * i + 4} \<union> {P + 4096 + 4 * i..<P + 4096 + 4 * i + 4}"
  let ?m2 = "m1\<lparr>mem := m2\<rparr>"
  have low1: "\<forall>x \<in> ?slots \<union> {Q..<Q + 4096}. 0x0F000000 \<le> x" using P0 r(6) far by auto
  have run2: "running f ?m2" and pte2: "\<And>p. p < 1048576 \<Longrightarrow> pte ?m2 p = pte m1 p"
    using running_kept [OF a(11) resized_refl(2) [of m1 m2] _ heap_apart [OF a(11) low1]] new(1) by simp_all
  have pte1: "pte m1 p = pte m p" if "p < 1048576" for p
  proof -
    have "\<forall>x \<in> index_bytes m \<union> {h..<h + N}. 0x0F000000 \<le> x" using r(5) P0 P(2) r(6) by fastforce
    from running_kept(4) [OF run a(10,12) heap_apart [OF run this] that] show ?thesis .
  qed
  have start1: "heap_start m1 = heap_start m" "index_bytes m1 = index_bytes m" using resized_frame [OF a(10)] by simp_all
  have inside: "(P, 8196) \<in> set (payloads (heap_start m1) bs1)" "(Q, 4096) \<in> set (payloads (heap_start m1) bs1)"
    using P(3) a(8,9) by (auto simp: sz)
  have inv2: "heap_inv ?m2 bs1"
  proof (rule heap_inv_payloads [OF a(5)])
    show "same_outside (?slots \<union> {Q..<Q + 4096}) (mem m1) (mem ?m2)" using new(1) by simp
    show "x < 0x0F000000 \<or> (\<exists>(p, n) \<in> set (payloads (heap_start m1) bs1). x \<in> {p..<p + n})"
      if "x \<in> ?slots \<union> {Q..<Q + 4096}" for x
    proof -
      have "x \<in> {P..<P + 8196} \<or> x \<in> {Q..<Q + 4096}" using that i(1) by auto
      then show ?thesis using inside by blast
    qed
  qed (use r(5,6) start1 in simp_all)
  have slot: "dir_table (of_nat P) (of_nat i) = of_nat (P + 4 * i)" by (simp add: dir_table_def)
  have page: "(1024 * i) div 1024 = i" "(1024 * i) mod 1024 = 0" "1024 * i < 1048576" using i(1) by simp_all
  have "load32 (mem m) (dir_table (of_nat P) (of_nat i)) = 0" using i(2) unfolding slot by (simp add: word_at_def)
  moreover have "load32 m2 (dir_table (of_nat P) (of_nat i)) = of_nat Q" using new(2) unfolding slot by (simp add: word_at_def)
  moreover have "page_entry (of_nat Q) (of_nat 0) = of_nat Q" by (simp add: page_entry_def)
  moreover have "load32 (store32 (mem m1) (dir_table (of_nat P) (of_nat i)) (of_nat Q)) (dir_table (of_nat P) (of_nat i)) = of_nat Q"
    by simp
  ultimately have get: "get_page (\<lambda>sz m. kmalloc_ap (Suc d) m sz) m (of_nat (4096 * (1024 * i))) True (of_nat P) = Inr (of_nat Q, ?m2)"
    unfolding get_page_def Let_def page_number [OF page(3)] page(1,2) a(1) bind_res_Inr prod.case
    by (simp add: m2_def [symmetric] del: of_nat_mult)
  note r2 = runningD [OF run2] and sp2 = space_okD [OF runningD(1) [OF run2]]
  have fr: "frames ?m2 = frames m" "kernel_directory ?m2 = kernel_directory m" "mem_first_unused ?m2 = mem_first_unused m"
    using resized_fields [OF a(10)] by simp_all
  have wrap: "unat (bs_base (frames ?m2)) + 4 * unat (bs_size (frames ?m2)) \<le> 4294967296"
    using sp2(3) unat_lt_32 [of "kernel_directory ?m2"] by linarith
  note reg = frame_bytes_region [OF wrap]
  have entry: "x \<in> bytes (of_nat Q) 4 \<longleftrightarrow> unat x \<in> {Q..<Q + 4}" for x :: u32
    using bytes_no_wrap [of "of_nat Q" 4 x] top by (simp add: uP del: in_bytes)
  have low: "frame_bytes ?m2 \<subseteq> {..<0x0F000000}" using sp2(3,5) r2(4) by (auto simp: frame_bytes_def)
  have Q0: "0x0F000000 \<le> Q" using far P0 r(6) by simp
  then have "x \<notin> bs_region (frames ?m2)" if "x \<in> bytes (of_nat Q) 4" for x
    using that low unfolding reg entry by auto
  then have apart: "bytes (of_nat Q) 4 \<inter> bs_region (frames ?m2) = {}" by blast
  have nz: "of_nat Q \<noteq> (0 :: u32)" using uP(2) Q0 by (metis le_zero_eq unat_0 zero_neq_numeral)
  have zero: "load32 (mem ?m2) (of_nat Q) = 0" using new(4) [of 0] by (simp add: word_at_def)
  have "used_frames ?m2 \<noteq> {..<frame_capacity ?m2}" using r2(2) f by (auto simp: frame_capacity_def fr)
  then obtain m' where m': "page_alloc ?m2 (of_nat Q) 0 1 = Inr m'" "m' = ?m2\<lparr>mem := mem m'\<rparr>"
    "frame_at m' (of_nat Q) \<notin> used_frames ?m2" "frame_at m' (of_nat Q) < frame_capacity ?m2"
    "used_frames m' = insert (frame_at m' (of_nat Q)) (used_frames ?m2)"
    "\<forall>x. x \<notin> bs_region (frames ?m2) \<union> bytes (of_nat Q) 4 \<longrightarrow> mem m' x = mem ?m2 x"
    "{..<frame_at m' (of_nat Q)} \<subseteq> used_frames ?m2"
    "load32 (mem m') (of_nat Q) = page_filled 1 (of_nat (frame_at m' (of_nat Q))) 0"
    using page_alloc_fresh [OF sp2(1,2) _ nz zero apart] by metis
  have fat: "frame_at m' (of_nat Q) = f" using m'(3,7) unfolding r2(2) by (simp add: lessThan_subset_iff)
  have same4: "same_outside (frame_bytes ?m2 \<union> {Q..<Q + 4}) (mem ?m2) (mem m')"
    using m'(6) unfolding Un_iff reg entry by (intro same_outsideI) blast
  have used4: "used_frames m' = {..<Suc f}" unfolding m'(5) fat r2(2) by auto
  have res4: "resized ?m2 m'" using resized_refl(2) [of ?m2 "mem m'"] unfolding m'(2) [symmetric] .
  have "(frame_bytes ?m2 \<union> {Q..<Q + 4}) \<inter> {unat (kernel_directory ?m2)..<unat (mem_first_unused ?m2)} = {}"
    using sp2(3) r2(4) Q0 by (auto simp: frame_bytes_def)
  note run4 = running_frames [OF run2 res4 used4 same4 this]
  have inv4: "heap_inv m' bs1"
  proof (rule heap_inv_payloads [OF inv2 _ _ _ m'(2) same4])
    show "x < 0x0F000000 \<or> (\<exists>(p, n) \<in> set (payloads (heap_start ?m2) bs1). x \<in> {p..<p + n})"
      if "x \<in> frame_bytes ?m2 \<union> {Q..<Q + 4}" for x
    proof -
      have "x < 0x0F000000 \<or> x \<in> {Q..<Q + 4096}" using that low by auto
      moreover have "(Q, 4096) \<in> set (payloads (heap_start ?m2) bs1)" using inside(2) by (simp add: heap_start_def)
      ultimately show ?thesis by blast
    qed
  qed (use r2(5,6) in simp_all)
  have res: "resized m m'" by (rule resized_trans [OF resized_trans [OF a(10) resized_refl(2)] res4])
  have start: "heap_start m' = heap_start m1" using resized_frame(3) [OF res] start1(1) by simp
  have word: "word_at (mem m') q = word_at m2 q" if "0x0F000000 \<le> q" "q + 4 \<le> Q \<or> Q + 4 \<le> q" "q < 0x0F400000" for q
    using same_outside_word [OF same4, of q] that low by fastforce
  have fb: "frame_bytes ?m2 = frame_bytes m" by (simp add: frame_bytes_def fr)
  have "Q + unat sizeof_page_table + 8 = Q + 4104" by (simp add: sz)
  with a(6) have roomy4: "roomy (Q + 4104) (h + N - (Q + 4104)) m' bs1"
    unfolding roomy_def start by (simp only:)
  show ?thesis
  proof (rule that [OF _ a(2-4) inv4 roomy4 a(7) _ res run4(1)])
    show "bind_res (get_page (\<lambda>sz m. kmalloc_ap (Suc d) m sz) m (of_nat (4096 * (1024 * i))) True (of_nat P)) (\<lambda>(page, m1).
       bind_res (page_alloc m1 page 0 1) (\<lambda>m2. Inr (page, m2))) = Inr (of_nat Q, m')"
      unfolding get bind_res_Inr prod.case m'(1) ..
    show "set (payloads (heap_start m) bs) \<subseteq> set (payloads (heap_start m') bs1)" using a(8) start by simp
    show "word_at (mem m') (P + 4 * i) = of_nat Q" "word_at (mem m') (P + 4096 + 4 * i) = ?phys OR 7"
      using word new(2,3) far P0 r(6) i(1) top by simp_all
    show "word_at (mem m') Q = mapped_to f" using m'(8) unfolding fat by (simp add: word_at_def)
    have "word_at (mem m') (Q + 4 * j) = 0" if "0 < j" "j < 1024" for j
      using word [of "Q + 4 * j"] new(4) [OF that(2)] that Q0 top by simp
    then show "\<forall>j < 1024. 0 < j \<longrightarrow> word_at (mem m') (Q + 4 * j) = 0" by blast
    show "same_outside (index_bytes m \<union> {h..<h + N} \<union> {P + 4 * i..<P + 4 * i + 4} \<union> {P + 4096 + 4 * i..<P + 4096 + 4 * i + 4}
       \<union> frame_bytes m) (mem m) (mem m')"
    proof (rule same_outside_mono)
      show "same_outside ((index_bytes m \<union> {h..<h + N}) \<union> (?slots \<union> {Q..<Q + 4096}) \<union> (frame_bytes ?m2 \<union> {Q..<Q + 4})) (mem m) (mem m')"
        using same_outside_trans [OF same_outside_trans [OF a(12) new(1)]] same4 by simp
      have "{Q..<Q + 4096} \<subseteq> {h..<h + N}" using a(3,4) len by auto
      then show "(index_bytes m \<union> {h..<h + N}) \<union> (?slots \<union> {Q..<Q + 4096}) \<union> (frame_bytes ?m2 \<union> {Q..<Q + 4})
        \<subseteq> index_bytes m \<union> {h..<h + N} \<union> {P + 4 * i..<P + 4 * i + 4} \<union> {P + 4096 + 4 * i..<P + 4096 + 4 * i + 4} \<union> frame_bytes m"
        unfolding fb by auto
    qed
    show "\<forall>p < 1048576. pte m' p = pte m p" using run4(4) pte2 pte1 by simp
  qed
qed

section \<open>The window\<close>

text \<open>Pointing the window at another frame changes the window's entry only.\<close>

lemma window_write:
  assumes run: "running f m" and inv: "heap_inv m bs" and m': "m' = m\<lparr>mem := store32 (mem m) (cloning_buffer_page m) w\<rparr>"
    and w: "page_address w \<noteq> 0"
  shows "running f m'" "heap_inv m' bs" "pte m' 983040 = w" "\<And>i. i < 1024 \<Longrightarrow> table_at m' i = table_at m i"
    "same_outside {pte_addr m 983040..<pte_addr m 983040 + 4} (mem m) (mem m')"
    "unat (kernel_directory m) + 12288 \<le> pte_addr m 983040" "pte_addr m 983040 + 4 \<le> unat (mem_first_unused m)"
proof -
  let ?a = "pte_addr m 983040"
  note r = runningD [OF run] and sp = space_okD [OF runningD(1) [OF run]]
  have p: "(983040 :: nat) < 1048576" "table_at m (983040 div 1024) \<noteq> 0" using r(9) by simp_all
  note b = pte_addr_bounds [OF r(1) p]
  show "unat (kernel_directory m) + 12288 \<le> ?a" "?a + 4 \<le> unat (mem_first_unused m)" by (fact b)+
  have mem': "mem m' = put_at (mem m) ?a w" unfolding m' r(11) put_at_def by simp
  show same: "same_outside {?a..<?a + 4} (mem m) (mem m')"
    unfolding mem' using b(3) by (intro same_outside_put_at) auto
  have fields: "frames m' = frames m" "kernel_directory m' = kernel_directory m" "mem_first_unused m' = mem_first_unused m"
    "cloning_buffer_page m' = cloning_buffer_page m" "kernel_heap m' = kernel_heap m"
    by (simp_all add: m')
  have eq: "m' = m\<lparr>mem := mem m'\<rparr>" by (simp add: m')
  have word: "word_at (mem m') q = word_at (mem m) q" if "q + 4 \<le> unat (kernel_directory m) + 12288" for q
    by (rule same_outside_word [OF same]) (use that b in auto)
  show tables: "table_at m' i = table_at m i" if "i < 1024" for i
    unfolding table_at_def fields(2) using word [of "unat (kernel_directory m) + 4 * i"] that by simp
  have physicals: "physical_at m' i = physical_at m i" if "i < 1024" for i
    unfolding physical_at_def fields(2) using word [of "unat (kernel_directory m) + 4096 + 4 * i"] that by simp
  have addr: "pte_addr m' 983040 = ?a" using tables [of 960] by (simp add: pte_addr_def)
  show entry: "pte m' 983040 = w" using p(2) tables [of 960] by (simp add: pte_def addr mem')
  have "{?a..<?a + 4} \<inter> frame_bytes m = {}" using b sp(3) by (auto simp: frame_bytes_def)
  then have used: "used_frames m' = used_frames m" by (rule used_frames_same [OF r(1) fields(1) same])
  have ok: "space_ok m'" by (rule space_cong [OF r(1) fields(1,2) _ tables physicals]) (simp_all add: fields)
  have res: "resized m m'" by (rule resized_store [OF resized_refl(1) eq])
  show "running f m'"
    unfolding running_def using ok used r tables [of 60] tables [of 960] entry w tables addr resized_frame [OF res]
    by (simp add: fields)
  have "x < 0x0F000000" if "x \<in> {?a..<?a + 4}" for x using that b(2) r(4) by auto
  then show "heap_inv m' bs" using heap_inv_payloads [OF inv _ r(6,5) eq same] by blast
qed

section \<open>Cloning a directory\<close>

text \<open>
  A directory \<open>src\<close> with the kernel's tables, below the heap or in front of its hole, is cloned into
  a new block.
\<close>

lemma clone_running:
  fixes s :: "'a vm_state_scheme"
  assumes run: "running f (mm s)" and inv: "heap_inv (mm s) bs" and roomy: "roomy h N (mm s) bs" and len: "12352 < N"
    and cap: "vacant bs < index_capacity (mm s)"
    and shares: "shares_kernel src (mm s)" "\<forall>i < 1024. kload s (dir_table_physical src (of_nat i)) = physical_at (mm s) i"
    and src: "unat src + 8196 \<le> 0x0F000000 \<or> heap_start (mm s) \<le> unat src \<and> unat src + 8196 \<le> h"
  obtains P m' bs' where "clone_directory (Suc d) src s = Inr (of_nat P, s\<lparr>mm := m'\<rparr>)"
    "P mod 4096 = 0" "h + 12 \<le> P" "P < h + 4129"
    "heap_inv m' bs'" "roomy (P + 8204) (h + N - (P + 8204)) m' bs'" "vacant bs' \<le> Suc (vacant bs)"
    "set (payloads (heap_start (mm s)) bs) \<subseteq> set (payloads (heap_start m') bs')"
    "(P, 8196) \<in> set (payloads (heap_start m') bs')" "resized (mm s) m'" "running f m'"
    "\<forall>i < 1024. word_at (mem m') (P + 4 * i) = of_nat (table_at (mm s) i)"
    "\<forall>i < 1024. word_at (mem m') (P + 4096 + 4 * i) = physical_at (mm s) i"
    "word_at (mem m') (P + 8192) = page_address (pte (mm s) (P div 4096)) * 4096 + 4096"
    "same_outside (index_bytes (mm s) \<union> {h..<h + N}) (mem (mm s)) (mem m')"
    "\<forall>i < 1024. table_at m' i = table_at (mm s) i" "\<forall>p < 1048576. pte m' p = pte (mm s) p"
    "carved h N 8216 (mm s) bs bs'"
proof -
  note r = runningD [OF run] and sp = space_okD [OF runningD(1) [OF run]]
  have sz: "unat sizeof_page_directory = 8196" by (simp add: sizeof_page_directory_def)
  have szs: "4096 \<le> unat sizeof_page_directory" "unat sizeof_page_directory + 4156 < N" using len by (simp_all add: sz)
  obtain P m1 bs1 where a: "kmalloc_ap (Suc d) (mm s) sizeof_page_directory
      = Inr ((of_nat P, page_address (pte (mm s) (P div 4096)) * 4096), m1)"
    "P mod 4096 = 0" "h + 12 \<le> P" "P < h + 4129" "heap_inv m1 bs1"
    "roomy (P + unat sizeof_page_directory + 8) (h + N - (P + unat sizeof_page_directory + 8)) m1 bs1" "vacant bs1 \<le> Suc (vacant bs)"
    "set (payloads (heap_start (mm s)) bs) \<subseteq> set (payloads (heap_start m1) bs1)"
    "(P, unat sizeof_page_directory) \<in> set (payloads (heap_start m1) bs1)" "resized (mm s) m1" "running f m1"
    "same_outside (index_bytes (mm s) \<union> {h..<h + N}) (mem (mm s)) (mem m1)"
    "carved h N (unat sizeof_page_directory + 20) (mm s) bs bs1"
    by (rule kmalloc_ap_running [OF run inv roomy szs cap])
  have h: "heap_start (mm s) \<le> h" "h + N \<le> heap_end (mm s)" using roomy heap_invD(2) [OF inv] by (auto simp: roomy_def)
  have bounds: "0x0F000000 \<le> P" "P + 8196 \<le> h + N" "h + N \<le> 0x0F400000" using a(3,4) h r(6,7) len by linarith+
  have uP: "unat (of_nat P :: u32) = P" by (rule unat_of_nat32) (use bounds in linarith)
  note fields = resized_fields [OF a(10)]
  let ?hole = "index_bytes (mm s) \<union> {h..<h + N}"
  have low: "\<forall>x \<in> ?hole. 0x0F000000 \<le> x" using r(5,6) h(1) by fastforce
  note kept1 = running_kept [OF run a(10,12) heap_apart [OF run low]]
  have src_word: "load32 (mem m1) (slot src (of_nat i)) = kload s (slot src (of_nat i))"
    if "i < 1024" "slot \<in> {dir_table, dir_table_physical}" for i slot
  proof -
    have out: "x \<notin> ?hole" if "unat src \<le> x" "x < unat src + 8196" for x
      using src that h(1) r(5) [of x] r(6) index_below [OF inv, of x] by auto
    have w: "word_at (mem m1) (unat src + j) = word_at (mem (mm s)) (unat src + j)" if j: "j + 4 \<le> 8192" for j
    proof (rule same_outside_word [OF a(12)])
      show "{unat src + j..<unat src + j + 4} \<inter> ?hole = {}" using out j by fastforce
      show "unat src + j + 4 \<le> 4294967296" using src h bounds(3) j by linarith
    qed
    show ?thesis
      using that w [of "4 * i"] w [of "4096 + 4 * i"]
      by (auto simp: word_at_def dir_table_def dir_table_physical_def add.assoc)
  qed
  have kd_word: "load32 (mem m1) (dir_table (kernel_directory m1) (of_nat i)) = kload s (dir_table (kernel_directory (mm s)) (of_nat i))"
    if "i < 1024" for i
    using kept1(2) [OF that] by (simp add: table_at_def word_at_def dir_table_def fields word_unat_eq_iff)
  have "shares_kernel src m1" using shares(1) src_word kd_word by (simp add: shares_kernel_def)
  moreover have "dirs_apart src (of_nat P)" using src a(3) bounds by (auto simp: dirs_apart_def uP)
  moreover have "dirs_apart (kernel_directory m1) (of_nat P)"
    using sp(5) r(4) bounds by (auto simp: dirs_apart_def uP fields)
  ultimately obtain s' where s': "clone_directory (Suc d) src s = Inr (of_nat P, s')"
    "\<forall>i < 1024. kload s' (dir_table (of_nat P) (of_nat i)) = load32 (mem m1) (dir_table src (of_nat i))"
    "\<forall>i < 1024. kload s' (dir_table_physical (of_nat P) (of_nat i)) = (if load32 (mem m1) (dir_table src (of_nat i)) = 0 then 0
            else load32 (mem m1) (dir_table_physical src (of_nat i)))"
    "kload s' (dir_ismeta (of_nat P)) = page_address (pte (mm s) (P div 4096)) * 4096 + 4096"
    "\<forall>x. x \<notin> bytes (of_nat P) 8196 \<longrightarrow> mem (mm s') x = mem m1 x"
    "mm s' = m1\<lparr>mem := mem (mm s')\<rparr>" "s' = s\<lparr>mm := mm s'\<rparr>"
    using clone_kernel_shares [OF a(1), of src] by auto
  let ?m = "mm s'"
  have dir: "x \<in> bytes (of_nat P) 8196 \<longleftrightarrow> unat x \<in> {P..<P + 8196}" for x :: u32
    using bytes_no_wrap [of "of_nat P" 8196 x] bounds by (simp add: uP del: in_bytes)
  have same: "same_outside {P..<P + 8196} (mem m1) (mem ?m)"
    using s'(5) by (intro same_outsideI) (simp add: dir del: in_bytes)
  have res: "resized m1 ?m" by (rule resized_store [OF resized_refl(1) s'(6)])
  have start: "heap_start ?m = heap_start m1" by (rule resized_frame(3) [OF res])
  have "\<forall>x \<in> {P..<P + 8196}. 0x0F000000 \<le> x" using bounds by auto
  note kept2 = running_kept [OF a(11) res same heap_apart [OF a(11) this]]
  have "x < 0x0F000000 \<or> (\<exists>(p, n) \<in> set (payloads (heap_start m1) bs1). x \<in> {p..<p + n})" if "x \<in> {P..<P + 8196}" for x
    using that a(9) unfolding sz by blast
  from heap_inv_payloads [OF a(5) this _ _ s'(6) same] have inv': "heap_inv ?m bs1" using runningD(5,6) [OF a(11)] by blast
  have eq: "P + unat sizeof_page_directory + 8 = P + 8204" by (simp add: sz)
  have sh: "load32 (mem m1) (dir_table src (of_nat i)) = of_nat (table_at (mm s) i)" if "i < 1024" for i
    using src_word [OF that, of dir_table] shares(1) that by (simp add: shares_kernel_def table_at_def word_at_def dir_table_def)
  show ?thesis
  proof (rule that [OF _ a(2-4) inv'])
    show "clone_directory (Suc d) src s = Inr (of_nat P, s\<lparr>mm := ?m\<rparr>)" using s'(1) unfolding s'(7) [symmetric] .
    show "roomy (P + 8204) (h + N - (P + 8204)) ?m bs1" using a(6) unfolding eq roomy_def start .
    show "vacant bs1 \<le> Suc (vacant bs)" by (fact a(7))
    show "set (payloads (heap_start (mm s)) bs) \<subseteq> set (payloads (heap_start ?m) bs1)"
      "(P, 8196) \<in> set (payloads (heap_start ?m) bs1)" using a(8,9) unfolding start sz .
    show "resized (mm s) ?m" by (rule resized_trans [OF a(10) res])
    show "running f ?m" by (rule kept2(1))
    show "carved h N 8216 (mm s) bs bs1" using a(13) by (simp add: sz)
    show "\<forall>i < 1024. word_at (mem ?m) (P + 4 * i) = of_nat (table_at (mm s) i)"
      using s'(2) sh by (simp add: word_at_def dir_table_def)
    have "word_at (mem ?m) (P + 4096 + 4 * i) = physical_at (mm s) i" if "i < 1024" for i
    proof -
      have "(of_nat (table_at (mm s) i) :: u32) = 0 \<longrightarrow> physical_at (mm s) i = 0"
        using sp(8) [OF that] by (simp add: table_at_def)
      then show ?thesis using s'(3) [rule_format, OF that] sh [OF that] src_word [OF that, of dir_table_physical] shares(2) that
        by (simp add: word_at_def dir_table_physical_def)
    qed
    then show "\<forall>i < 1024. word_at (mem ?m) (P + 4096 + 4 * i) = physical_at (mm s) i" by blast
    show "word_at (mem ?m) (P + 8192) = page_address (pte (mm s) (P div 4096)) * 4096 + 4096"
      using s'(4) by (simp add: word_at_def dir_ismeta_def)
    show "same_outside ?hole (mem (mm s)) (mem ?m)"
      by (rule same_outside_mono [OF same_outside_trans [OF a(12) same]]) (use a(3) bounds in auto)
    show "\<forall>i < 1024. table_at ?m i = table_at (mm s) i" using kept1(2) kept2(2) by simp
    show "\<forall>p < 1048576. pte ?m p = pte (mm s) p" using kept1(4) kept2(4) by simp
  qed
qed

end
