(* ===== verification/Boot.thy ===== *)
theory Boot
  imports Running
begin

text \<open>
  \<open>init_paging\<close> of \<open>src/src/mm/paging.c\<close> from its first to its last statement: after the kernel's
  address space (theory \<open>AddressSpace\<close>) the heap is created, and the directory is cloned, for which
  the first block of the heap is allocated.
\<close>

section \<open>The address space and the heap's memory\<close>

lemma kernel_space_above:
  assumes "kernel_space k m" "frames m' = frames m" "kernel_directory m' = kernel_directory m"
    and "cloning_buffer_page m' = cloning_buffer_page m"
    and "mem_first_unused m \<le> mem_first_unused m'" "unat (mem_first_unused m') \<le> 4096 * k"
    and "same_outside R (mem m) (mem m')" "\<forall>x \<in> R. 4096 * k \<le> x"
  shows "kernel_space k m'"
proof -
  have s: "space_ok m" "k \<le> 61440" "used_frames m = {..<k + 17}" "unat (mem_first_unused m) \<le> 4096 * k"
    "\<forall>p < 1048576. pte m p = (if p < k then mapped_to p
          else if 61440 \<le> p \<and> p < 61456 then mapped_to (k + (p - 61440))
          else if p = 983040 then mapped_to (k + 16) else 0)"
    "table_at m 60 \<noteq> 0" "table_at m 960 \<noteq> 0" "\<forall>i < 1024. table_at m i \<noteq> 0 \<longrightarrow> i \<le> 60 \<or> i = 960"
    "cloning_buffer_page m = of_nat (pte_addr m 983040)"
    using assms(1) unfolding kernel_space_def by blast+
  have "R \<inter> {unat (bs_base (frames m))..<unat (mem_first_unused m)} = {}" using assms(8) s(4) by fastforce
  note u = frames_apart [OF s(1) assms(2,7) this]
  note a = tables_apart [OF s(1) assms(2,3,5,7) u(2)]
  show ?thesis unfolding kernel_space_def using a u(1) s assms(4,6) by simp
qed

section \<open>The heap\<close>

text \<open>The heap of \<open>init_paging\<close>: one hole, its memory behind everything in use.\<close>

lemma heap_up:
  assumes ks: "kernel_space k m" and heap: "kernel_heap m = 0" and unused: "unat (mem_first_unused m) + 12288 = 4096 * k"
    and footer: "word_at (mem m) 0x0F00FFF8 \<noteq> KHEAP_MAGIC"
  obtains m' where "heap_create (Suc d) m KHEAP_START (KHEAP_START + KHEAP_INITIAL_SIZE) KHEAP_MAX_ADDRESS 0 1
      = Inr (mem_first_unused m, m')"
    "heap_inv m' [(57344, Raw)]" "index_sorted m'" "kernel_space k m'"
    "m' = m\<lparr>mem := mem m', mem_first_unused := mem_first_unused m + 36, heap_obj := heap_obj m'\<rparr>"
    "heap_start m' = 0x0F002000" "heap_end m' = 0x0F010000" "index_capacity m' = 2048"
    "index_bytes m' = {0x0F000000..<0x0F002000}" "max_addr (heap_obj m') = KHEAP_MAX_ADDRESS"
    "pages_user_mode (heap_obj m') = 0" "pages_writeable (heap_obj m') = 1"
proof -
  have k: "k \<le> 61440" using ks by (simp add: kernel_space_def)
  have u: "unat KHEAP_START = 0x0F000000" "unat (KHEAP_START + KHEAP_INITIAL_SIZE) = 0x0F010000"
    by (simp_all add: KHEAP_START_def KHEAP_INITIAL_SIZE_def)
  have c: "unat KHEAP_START mod 4096 = 0" "unat (KHEAP_START + KHEAP_INITIAL_SIZE) mod 4096 = 0"
    "unat KHEAP_START + 8192 + 20 \<le> unat (KHEAP_START + KHEAP_INITIAL_SIZE)"
    "unat (KHEAP_START + KHEAP_INITIAL_SIZE) < 2147483648"
    "word_at (mem m) (unat (KHEAP_START + KHEAP_INITIAL_SIZE) - 8) \<noteq> KHEAP_MAGIC"
    using footer unfolding u by simp_all
  obtain m' where m': "heap_create (Suc d) m KHEAP_START (KHEAP_START + KHEAP_INITIAL_SIZE) KHEAP_MAX_ADDRESS 0 1
      = Inr (mem_first_unused m, m')"
    "heap_inv m' [(unat (KHEAP_START + KHEAP_INITIAL_SIZE) - (unat KHEAP_START + 8192), Raw)]" "index_sorted m'" "owns m' {#}"
    "m' = m\<lparr>mem := mem m', mem_first_unused := mem_first_unused m + sizeof_heap, heap_obj := heap_obj m'\<rparr>"
    "heap_start m' = unat KHEAP_START + 8192" "heap_end m' = unat (KHEAP_START + KHEAP_INITIAL_SIZE)" "index_capacity m' = 2048"
    "index_bytes m' = {unat KHEAP_START..<unat KHEAP_START + 8192}" "max_addr (heap_obj m') = KHEAP_MAX_ADDRESS"
    "pages_user_mode (heap_obj m') = 0" "pages_writeable (heap_obj m') = 1"
    "same_outside {unat KHEAP_START..<unat KHEAP_START + 8192 + 12} (mem m) (mem m')"
    by (rule heap_create_ok [OF heap c])
  have T: "mem_first_unused m' = mem_first_unused m + 36" by (subst m'(5)) (simp add: sizeof_heap_def)
  then have uT: "unat (mem_first_unused m') = unat (mem_first_unused m) + 36"
    using unused k by (simp add: unat_add32)
  have "kernel_space k m'"
  proof (rule kernel_space_above [OF ks _ _ _ _ _ m'(13)])
    show "frames m' = frames m" "kernel_directory m' = kernel_directory m" "cloning_buffer_page m' = cloning_buffer_page m"
      by (subst m'(5), simp)+
    show "mem_first_unused m \<le> mem_first_unused m'" "unat (mem_first_unused m') \<le> 4096 * k"
      using uT unused by (simp_all add: word_le_nat_alt)
    show "\<forall>x \<in> {unat KHEAP_START..<unat KHEAP_START + 8192 + 12}. 4096 * k \<le> x" using k u(1) by auto
  qed
  moreover have "m' = m\<lparr>mem := mem m', mem_first_unused := mem_first_unused m + 36, heap_obj := heap_obj m'\<rparr>"
    by (subst m'(5)) (simp add: sizeof_heap_def)
  ultimately show ?thesis
    using that [OF m'(1)] m'(2,3,6-12) unfolding u by simp
qed

lemma heap_inv_cong:
  assumes "heap_obj m' = heap_obj m" "mem m' = mem m"
  shows "heap_inv m' bs = heap_inv m bs" "heap_start m' = heap_start m" "heap_end m' = heap_end m"
    "index_bytes m' = index_bytes m" "index_capacity m' = index_capacity m"
  by (simp_all add: heap_inv_def index_ok_def index_list_def heap_start_def heap_end_def index_bytes_def
      index_capacity_def assms)

lemma kernel_space_cong:
  assumes "kernel_space k m" "frames m' = frames m" "kernel_directory m' = kernel_directory m"
    and "cloning_buffer_page m' = cloning_buffer_page m" "mem_first_unused m' = mem_first_unused m" "mem m' = mem m"
  shows "kernel_space k m'"
  by (rule kernel_space_above [OF assms(1-4), of "{}"])
     (use assms in \<open>auto simp: kernel_space_def intro: same_outsideI\<close>)

section \<open>The clone\<close>

lemma space_running:
  assumes ks: "kernel_space k m" and "kernel_heap m \<noteq> 0" "heap_start m = 0x0F002000" "heap_end m \<le> 0x0F400000"
    and "index_bytes m = {0x0F000000..<0x0F002000}"
  shows "running (k + 17) m"
proof -
  have s: "space_ok m" "k \<le> 61440" "used_frames m = {..<k + 17}" "unat (mem_first_unused m) \<le> 4096 * k"
    "table_at m 60 \<noteq> 0" "table_at m 960 \<noteq> 0" "\<forall>i < 1024. table_at m i \<noteq> 0 \<longrightarrow> i \<le> 60 \<or> i = 960"
    "cloning_buffer_page m = of_nat (pte_addr m 983040)" "pte m 983040 = mapped_to (k + 16)"
    using ks unfolding kernel_space_def by auto
  have "unat (of_nat (k + 16) :: u32) = k + 16" by (rule unat_of_nat32) (use s(2) in linarith)
  then have "unat (page_address (pte m 983040)) = k + 16"
    unfolding s(9) using s(2) by (simp add: page_filled_fields take_bit_20_small)
  then have "page_address (pte m 983040) \<noteq> 0" by auto
  then show ?thesis using s assms(2-5) unfolding running_def by simp
qed

text \<open>The kernel's directory is cloned into the first block of the heap.\<close>

lemma first_clone:
  fixes s :: "'a vm_state_scheme"
  assumes ks: "kernel_space k (mm s)" and up: "kernel_heap (mm s) \<noteq> 0" and inv: "heap_inv (mm s) [(57344, Raw)]"
    and start: "heap_start (mm s) = 0x0F002000" "heap_end (mm s) = 0x0F010000"
    and idx: "index_bytes (mm s) = {0x0F000000..<0x0F002000}" "index_capacity (mm s) = 2048"
  obtains m' where "clone_directory (Suc d) (kernel_directory (mm s)) s = Inr (0x0F003000, s\<lparr>mm := m'\<rparr>)"
    "kernel_space k m'" "heap_inv m' [(4084, Lost), (8216, Used), (45044, Hole)]" "resized (mm s) m'"
    "\<forall>i < 1024. load32 (mem m') (dir_table 0x0F003000 (of_nat i)) = of_nat (table_at m' i)"
    "\<forall>i < 1024. load32 (mem m') (dir_table_physical 0x0F003000 (of_nat i)) = physical_at m' i"
    "load32 (mem m') (dir_ismeta 0x0F003000) = of_nat (4096 * (k + 4))"
proof -
  let ?kd = "kernel_directory (mm s)"
  have run: "running (k + 17) (mm s)" by (rule space_running [OF ks up start(1) _ idx(1)]) (simp add: start(2))
  have roomy: "roomy 0x0F002000 57344 (mm s) [(57344, Raw)]"
    unfolding roomy_def by (intro exI [of _ "[]"] exI [of _ Raw]) (simp add: start)
  have cap: "vacant [(57344, Raw)] < index_capacity (mm s)" by (simp add: vacant_def idx(2))
  have phys: "\<forall>i < 1024. kload s (dir_table_physical ?kd (of_nat i)) = physical_at (mm s) i"
    by (simp add: physical_at_def word_at_def dir_table_physical_def)
  have k: "k \<le> 61440" using ks by (simp add: kernel_space_def)
  have kd: "unat ?kd + 8196 \<le> 0x0F000000 \<or> heap_start (mm s) \<le> unat ?kd \<and> unat ?kd + 8196 \<le> 0x0F002000"
    using space_okD(5) [OF runningD(1) [OF run]] runningD(4) [OF run] by linarith
  have len: "(12352 :: nat) < 57344" by simp
  obtain P m' bs' where m': "clone_directory (Suc d) ?kd s = Inr (of_nat P, s\<lparr>mm := m'\<rparr>)"
    "P mod 4096 = 0" "0x0F002000 + 12 \<le> P" "P < 0x0F002000 + 4129" "heap_inv m' bs'"
    "roomy (P + 8204) (0x0F002000 + 57344 - (P + 8204)) m' bs'" "vacant bs' \<le> Suc (vacant [(57344, Raw)])"
    "set (payloads (heap_start (mm s)) [(57344, Raw)]) \<subseteq> set (payloads (heap_start m') bs')"
    "(P, 8196) \<in> set (payloads (heap_start m') bs')" "resized (mm s) m'" "running (k + 17) m'"
    "\<forall>i < 1024. word_at (mem m') (P + 4 * i) = of_nat (table_at (mm s) i)"
    "\<forall>i < 1024. word_at (mem m') (P + 4096 + 4 * i) = physical_at (mm s) i"
    "word_at (mem m') (P + 8192) = page_address (pte (mm s) (P div 4096)) * 4096 + 4096"
    "same_outside (index_bytes (mm s) \<union> {0x0F002000..<0x0F002000 + 57344}) (mem (mm s)) (mem m')"
    "\<forall>i < 1024. table_at m' i = table_at (mm s) i" "\<forall>p < 1048576. pte m' p = pte (mm s) p"
    "carved 0x0F002000 57344 8216 (mm s) [(57344, Raw)] bs'"
    by (rule clone_running [where d = d, OF run inv roomy len cap shares_kernel_self phys kd])
  have P: "P = 0x0F003000"
  proof -
    obtain q where q: "P = 4096 * q" by (rule whole_number [OF m'(2)])
    have "4096 * 61442 < 4096 * q" "4096 * q < 4096 * 61444" using m'(3,4) unfolding q by linarith+
    then have "q = 61443" by simp
    then show ?thesis unfolding q by simp
  qed
  have front: "front 0x0F002000 1 = 4084"
    using page_align_get_offset_nat [of "0x0F002000"] by (simp add: front_def)
  have blocks: "bs' = [(4084, Lost), (8216, Used), (45044, Hole)]"
    using m'(18) by (auto simp: carved_def front alloc_blocks_def remainder_def Cons_eq_append_conv)
  have ptr: "(of_nat P :: u32) = 0x0F003000" unfolding P by simp
  have "pte (mm s) 61443 = mapped_to (k + 3)" using ks unfolding kernel_space_def by simp
  moreover have "unat (of_nat (k + 3) :: u32) = k + 3" by (rule unat_of_nat32) (use k in linarith)
  then have "take_bit 20 (of_nat (k + 3) :: u32) = of_nat (k + 3)" by (intro take_bit_20_small) (use k in linarith)
  ultimately have meta: "page_address (pte (mm s) 61443) * 4096 + 4096 = (of_nat (4096 * (k + 4)) :: u32)"
    by (simp add: page_filled_fields algebra_simps)
  have word: "load32 (mem m') (0x0F003000 + of_nat j) = word_at (mem m') (0x0F003000 + j)" for j by (simp add: word_at_def)
  have ks': "kernel_space k m'"
    by (rule kernel_space_above [OF ks resized_fields(1,2,5) [OF m'(10)] _ _ m'(15)])
       (use k ks resized_fields(4) [OF m'(10)] in \<open>auto simp: kernel_space_def idx\<close>)
  show ?thesis
  proof (rule that [OF _ ks' m'(5) [unfolded blocks] m'(10)])
    show "clone_directory (Suc d) ?kd s = Inr (0x0F003000, s\<lparr>mm := m'\<rparr>)" using m'(1) unfolding ptr .
    show "\<forall>i < 1024. load32 (mem m') (dir_table 0x0F003000 (of_nat i)) = of_nat (table_at m' i)"
      using m'(12,16) word [of "4 * i" for i] by (simp add: P dir_table_def)
    show "load32 (mem m') (dir_ismeta 0x0F003000) = of_nat (4096 * (k + 4))"
      using m'(14) word [of 8192] meta by (simp add: P dir_ismeta_def)
    have "physical_at m' i = physical_at (mm s) i" if "i < 1024" for i
      using space_okD(8) [OF runningD(1) [OF m'(11)] that] space_okD(8) [OF runningD(1) [OF run] that] m'(16) that by simp
    then show "\<forall>i < 1024. load32 (mem m') (dir_table_physical 0x0F003000 (of_nat i)) = physical_at m' i"
      using m'(13) word [of "4096 + 4 * i" for i] by (simp add: P dir_table_physical_def add.assoc)
  qed
qed

section \<open>From the first to the last statement\<close>

text \<open>Where the directory in use has the kernel's tables, memory is the kernel's.\<close>

lemma shared_tables_bytes:
  assumes "\<forall>i < 1024. kload s (dir_table (translation s) (of_nat i)) = of_nat (table_at (mm s) i)" "\<not> in_window a"
  shows "virtual_byte s a = Inr (mem (mm s) a)"
proof -
  define i where "i = unat (a div PAGE_SIZE div PAGES_PER_TABLE)"
  have "unat a div 4096 div 1024 < 1024" using unat_lt_32 [of a] by linarith
  then have i: "i < 1024" by (simp add: i_def PAGE_SIZE_def PAGES_PER_TABLE_def unat_div)
  have ix: "a div PAGE_SIZE div PAGES_PER_TABLE = of_nat i" unfolding i_def by simp
  have "table_of s (translation s) a = table_of s (kernel_directory (mm s)) a"
    using assms(1) i unfolding table_of_def ix by (simp add: table_at_def word_at_def dir_table_def)
  then show ?thesis using assms(2) by (simp add: virtual_byte_def Let_def)
qed

lemma say_text:
  assumes "37 \<notin> set (ascii text)" "0 \<notin> set (ascii text)"
  obtains s' where "say text [] s = Inr s'" "monitor.more s' = monitor.more s"
  using say_plain [OF assms] more_put_chars by blast

lemma init_paging_ok:
  fixes s :: "'a vm_state_scheme"
  assumes "unpaged D (mm s)" "14 < length (interrupt_handlers s)" "word_at (mem (mm s)) 0x0F00FFF8 \<noteq> KHEAP_MAGIC"
  obtains s' k where "init_paging (Suc d) s = Some (Inr s')" "kernel_space k (mm s')"
    "heap_inv (mm s') [(4084, Lost), (8216, Used), (45044, Hole)]" "kernel_heap (mm s') \<noteq> 0"
    "heap_start (mm s') = 0x0F002000" "heap_end (mm s') = 0x0F010000" "index_capacity (mm s') = 2048"
    "max_addr (heap_obj (mm s')) = KHEAP_MAX_ADDRESS"
    "pages_user_mode (heap_obj (mm s')) = 0" "pages_writeable (heap_obj (mm s')) = 1"
    "unat (kernel_directory (mm s')) = D"
    "interrupt_handlers s' = (interrupt_handlers s)[14 := Some Page_Fault_Handler]"
    "translation s' = 0x0F003000" "current_directory (mm s') = 0x0F003000" "bit (cr0 s') 31"
    "cr3 s' = of_nat (4096 * (k + 4))"
    "\<forall>i < 1024. kload s' (dir_table 0x0F003000 (of_nat i)) = of_nat (table_at (mm s') i)"
    "\<forall>i < 1024. kload s' (dir_table_physical 0x0F003000 (of_nat i)) = physical_at (mm s') i"
    "k \<le> D div 4096 + 68" "frames (mm s') = frames (mm s)" "index_bytes (mm s') = {0x0F000000..<0x0F002000}"
proof -
  have plain: "37 \<notin> set (ascii t) \<and> 0 \<notin> set (ascii t)"
    if "t \<in> {''Enabling paging'', ''Setting up the heap'', ''Trying to clone the page directory''}" for t
    using that by (auto simp: ascii_def of_char_def)
  obtain m k where m: "map_kernel (Suc d) (mm s) = Some (Inr m)" "kernel_space k m" "unat (kernel_directory m) = D"
    "unat (mem_first_unused m) + 12288 = 4096 * k" "k \<le> D div 4096 + 68" "same_above (mm s) m"
    "m = mm s\<lparr>mem := mem m, mem_first_unused := mem_first_unused m, kernel_directory := kernel_directory m,
        cloning_buffer_page := cloning_buffer_page m\<rparr>"
    using map_kernel_ok [OF assms(1)] by blast
  have footer: "word_at (mem m) 0x0F00FFF8 \<noteq> KHEAP_MAGIC"
    using assms(3) by (subst same_outside_word [OF m(6)]) auto
  have heap0: "kernel_heap m = 0" using assms(1) by (subst m(7)) (simp add: unpaged_def)
  obtain s1 where s1: "say ''Enabling paging'' [] (s\<lparr>mm := m\<rparr>) = Inr s1" "monitor.more s1 = monitor.more (s\<lparr>mm := m\<rparr>)"
    using say_text plain by blast
  note v1 = vm_state_more [OF s1(2)] idt_state_more [OF s1(2)]
  define s2 where "s2 = s1\<lparr>interrupt_handlers := (interrupt_handlers s)[14 := Some Page_Fault_Handler]\<rparr>"
  have reg: "isr_register_handler PAGE_FAULT_ISR Page_Fault_Handler s1 = Inr s2"
    using v1 assms(2) by (simp add: isr_register_handler_def s2_def PAGE_FAULT_ISR_def)
  define s3 where "s3 = status ''DONE'' True (switch_page_directory (kernel_directory (mm s2)) s2)"
  have more3: "monitor.more s3 = monitor.more (switch_page_directory (kernel_directory (mm s2)) s2)" by (simp add: s3_def)
  note v3 = vm_state_more [OF more3] idt_state_more [OF more3]
  obtain s4 where s4: "say ''Setting up the heap'' [] s3 = Inr s4" "monitor.more s4 = monitor.more s3"
    using say_text plain by blast
  note v4 = vm_state_more [OF s4(2)] idt_state_more [OF s4(2)]
  have mm4: "mm s4 = m\<lparr>current_directory := kernel_directory m\<rparr>"
    using v1 v3 v4 by (simp add: s2_def switch_page_directory_def)
  have ks4: "kernel_space k (mm s4)" by (rule kernel_space_cong [OF m(2)]) (simp_all add: mm4)
  obtain m5 where m5: "heap_create (Suc d) (mm s4) KHEAP_START (KHEAP_START + KHEAP_INITIAL_SIZE) KHEAP_MAX_ADDRESS 0 1
      = Inr (mem_first_unused (mm s4), m5)"
    "heap_inv m5 [(57344, Raw)]" "index_sorted m5" "kernel_space k m5"
    "m5 = (mm s4)\<lparr>mem := mem m5, mem_first_unused := mem_first_unused (mm s4) + 36, heap_obj := heap_obj m5\<rparr>"
    "heap_start m5 = 0x0F002000" "heap_end m5 = 0x0F010000" "index_capacity m5 = 2048"
    "index_bytes m5 = {0x0F000000..<0x0F002000}" "max_addr (heap_obj m5) = KHEAP_MAX_ADDRESS"
    "pages_user_mode (heap_obj m5) = 0" "pages_writeable (heap_obj m5) = 1"
    by (rule heap_up [OF ks4]) (use heap0 m(4) footer in \<open>simp_all add: mm4\<close>)
  have heap: "mem_first_unused (mm s4) = mem_first_unused m" by (simp add: mm4)
  have unused: "mem_first_unused m \<noteq> 0"
    using m(2) space_okD(5) [of m] unfolding kernel_space_def by auto
  define m6 where "m6 = m5\<lparr>kernel_heap := mem_first_unused m\<rparr>"
  have m6: "kernel_space k m6" "heap_inv m6 [(57344, Raw)]" "heap_start m6 = 0x0F002000" "index_capacity m6 = 2048"
    "index_bytes m6 = {0x0F000000..<0x0F002000}" "heap_end m6 = 0x0F010000"
    using m5(2,6-9) kernel_space_cong [OF m5(4), of m6] heap_inv_cong [of m6 m5] by (simp_all add: m6_def)
  define s6 where "s6 = status ''DONE'' True (s4\<lparr>mm := m6\<rparr>)"
  have more6: "monitor.more s6 = monitor.more (s4\<lparr>mm := m6\<rparr>)" by (simp add: s6_def)
  note v6 = vm_state_more [OF more6] idt_state_more [OF more6]
  obtain s7 where s7: "say ''Trying to clone the page directory'' [] s6 = Inr s7" "monitor.more s7 = monitor.more s6"
    using say_text plain by blast
  note v7 = vm_state_more [OF s7(2)] idt_state_more [OF s7(2)]
  have mm7: "mm s7 = m6" using v6 v7 by simp
  have up7: "kernel_heap (mm s7) \<noteq> 0" using unused by (simp add: mm7 m6_def)
  obtain m8 where m8: "clone_directory (Suc d) (kernel_directory (mm s7)) s7 = Inr (0x0F003000, s7\<lparr>mm := m8\<rparr>)"
    "kernel_space k m8" "heap_inv m8 [(4084, Lost), (8216, Used), (45044, Hole)]" "resized (mm s7) m8"
    "\<forall>i < 1024. load32 (mem m8) (dir_table 0x0F003000 (of_nat i)) = of_nat (table_at m8 i)"
    "\<forall>i < 1024. load32 (mem m8) (dir_table_physical 0x0F003000 (of_nat i)) = physical_at m8 i"
    "load32 (mem m8) (dir_ismeta 0x0F003000) = of_nat (4096 * (k + 4))"
    by (rule first_clone [of k s7 d]) (use m6 up7 in \<open>simp_all add: mm7\<close>)
  define s9 where "s9 = status ''DONE'' True (switch_page_directory 0x0F003000 (s7\<lparr>mm := m8\<rparr>))"
  have more9: "monitor.more s9 = monitor.more (switch_page_directory 0x0F003000 (s7\<lparr>mm := m8\<rparr>))" by (simp add: s9_def)
  note v9 = vm_state_more [OF more9] idt_state_more [OF more9]
  have s6': "status ''DONE'' True ((s4\<lparr>mm := m5\<rparr>)\<lparr>mm := (mm (s4\<lparr>mm := m5\<rparr>))\<lparr>kernel_heap := mem_first_unused (mm s4)\<rparr>\<rparr>) = s6"
    by (simp add: s6_def m6_def heap)
  have run: "init_paging (Suc d) s = Some (Inr s9)"
    unfolding init_paging_def m(1) option.map(2) bind_res_Inr s1(1) reg Let_def s3_def [symmetric] s4(1) with_mm_def m5(1)
      prod.case s6' s7(1) m8(1) s9_def [symmetric] by (rule refl)
  have mm9: "mm s9 = m8\<lparr>current_directory := 0x0F003000\<rparr>" using v9 by (simp add: switch_page_directory_def)
  have f8: "heap_obj m8 = heap_obj (mm s9)" "mem m8 = mem (mm s9)" by (simp_all add: mm9)
  have r8: "heap_start m8 = 0x0F002000" "heap_end m8 = 0x0F010000" "index_capacity m8 = 2048"
    using resized_frame [OF m8(4)] m5(7) m6(3,4) heap_inv_cong(3) [of m6 m5] by (simp_all add: mm7 m6_def)
  have obj8: "max_addr (heap_obj m8) = KHEAP_MAX_ADDRESS" "pages_user_mode (heap_obj m8) = 0"
    "pages_writeable (heap_obj m8) = 1" "kernel_heap m8 = mem_first_unused m" "kernel_directory m8 = kernel_directory m5"
    using m8(4) m5(10-12) unfolding mm7 m6_def by (auto simp: resized_def)
  have same9: "table_at (mm s9) i = table_at m8 i" "physical_at (mm s9) i = physical_at m8 i" for i
    by (simp_all add: mm9 table_at_def physical_at_def)
  have h9: "interrupt_handlers s9 = (interrupt_handlers s)[14 := Some Page_Fault_Handler]"
    using v9 v7 v6 v4 v3 v1 by (simp add: switch_page_directory_def s2_def)
  have c9: "translation s9 = 0x0F003000" "cr0 s9 = cr0 s7 OR CR0_PG_BIT" "cr3 s9 = load32 (mem m8) (dir_ismeta 0x0F003000)"
    using v9 by (simp_all add: switch_page_directory_def)
  have "bit (cr0 s9) 31" unfolding c9(2) CR0_PG_BIT_def by (simp add: bit_or_iff)
  moreover have "kernel_directory m5 = kernel_directory m" by (subst m5(5)) (simp add: mm4)
  moreover have "kernel_space k (mm s9)" by (rule kernel_space_cong [OF m8(2)]) (simp_all add: mm9)
  moreover note cong9 = heap_inv_cong [of "mm s9" m8, OF f8 [symmetric]]
  moreover have "frames m8 = frames (mm s)"
  proof -
    have "frames m5 = frames m" by (subst m5(5)) (simp add: mm4)
    moreover have "frames m = frames (mm s)" by (subst m(7)) simp
    ultimately show ?thesis using resized_fields(1) [OF m8(4)] by (simp add: mm7 m6_def)
  qed
  moreover have "index_bytes (mm s9) = {0x0F000000..<0x0F002000}"
    using heap_inv_cong(4) [of "mm s9" m8, OF f8 [symmetric]] resized_frame(1) [OF m8(4)] m6(5) by (simp add: mm7)
  ultimately show ?thesis
    using that [OF run, of k] m(5) m8(3) unused m(3) h9 c9(1) c9(3) [unfolded m8(7)] m8(5,6)
    by (simp add: cong9 r8 obj8 f8 [symmetric] same9 [unfolded mm9] mm9)
qed

section \<open>Properties\<close>


text \<open>A machine whose memory is unused from 1 MB on, with 64 words for its frames.\<close>

definition sample_boot :: vm_state where "sample_boot = blank_vm\<lparr>mm := sample_unpaged\<rparr>"


end
