(* ===== verification/TaskCreate.thy ===== *)
theory TaskCreate
  imports Boot Task
begin

text \<open>
  \<open>task_create\<close> of \<open>src/src/task/task.c\<close> on the running kernel: the entry of the task table, the
  cloned directory, its private pages, and the copy of the image.
\<close>

section \<open>The entry of the task table\<close>

lemma new_task_entry:
  assumes T: "T + 76 \<le> 4294967296" and m': "m' = new_task pid (of_nat T) m"
  shows "same_outside {T..<T + 76} m m'" "word_at m' T = pid" "word_at m' (T + 4) = 1"
    "word_at m' (T + 12) = 0x23" "word_at m' (T + 28) = 0xF0000FFC" "word_at m' (T + 56) = TASK_IMAGE_BASE"
    "word_at m' (T + 60) = 0x1B" "word_at m' (T + 72) = 0x23"
proof -
  have places: "task_alive (of_nat T) = of_nat (T + 4)" "task_pid (of_nat T) = of_nat T" "saved_state (of_nat T) = of_nat (T + 12)"
    "saved_cs (of_nat T) = of_nat (T + 60)" "saved_eip (of_nat T) = of_nat (T + 56)" "saved_ds (of_nat T) = of_nat (T + 12)"
    "saved_ss (of_nat T) = of_nat (T + 72)" "saved_esp (of_nat T) = of_nat (T + 28)"
    by (simp_all add: task_alive_def task_pid_def saved_state_def saved_cs_def saved_eip_def saved_ds_def saved_ss_def saved_esp_def)
  have u: "unat (of_nat T :: u32) = T" "unat (of_nat (T + 12) :: u32) = T + 12" by (rule unat_of_nat32; use T in linarith)+
  have sz: "unat sizeof_task = 76" "unat sizeof_registers = 64" by (simp_all add: sizeof_task_def sizeof_registers_def)
  define m1 where "m1 = memset m (of_nat T) 0 sizeof_task"
  define m3 where "m3 = put_at (put_at m1 (T + 4) 1) T pid"
  define m4 where "m4 = memset m3 (of_nat (T + 12)) 0 sizeof_registers"
  have eq: "m' = put_at (put_at (put_at (put_at (put_at m4 (T + 60) 0x1B) (T + 56) TASK_IMAGE_BASE) (T + 12) 0x23) (T + 72) 0x23) (T + 28) 0xF0000FFC"
    unfolding m' new_task_def Let_def places m1_def m3_def m4_def put_at_def by (simp add: TASK_USER_STACK_BOTTOM_def)
  have same1: "same_outside {T..<T + 76} m m1"
    using memset_outside [of "of_nat T" sizeof_task m 0] T by (simp add: m1_def u sz)
  have same4: "same_outside {T + 12..<T + 76} m3 m4"
    using memset_outside [of "of_nat (T + 12)" sizeof_registers m3 0] T by (simp add: m4_def u sz add.commute [of 76] del: of_nat_add)
  have "same_outside {T..<T + 76} m m3"
    unfolding m3_def using same1 T by (intro same_outside_put_chain) auto
  then have "same_outside {T..<T + 76} m m4"
    by (rule same_outside_trans_in) (rule same_outside_mono [OF same4], auto)
  then show "same_outside {T..<T + 76} m m'"
    unfolding eq using T by (intro same_outside_put_chain) auto
  have below: "word_at m4 q = word_at m3 q" if "q + 4 \<le> T + 12" for q
    by (rule same_outside_word [OF same4]) (use that T in auto)
  show "word_at m' T = pid" "word_at m' (T + 4) = 1"
    unfolding eq using T below [of T] below [of "T + 4"] by (simp_all add: word_at_put_at m3_def)
  show "word_at m' (T + 12) = 0x23" "word_at m' (T + 28) = 0xF0000FFC" "word_at m' (T + 56) = TASK_IMAGE_BASE"
    "word_at m' (T + 60) = 0x1B" "word_at m' (T + 72) = 0x23"
    unfolding eq using T by (simp_all add: word_at_put_at)
qed

text \<open>The first place that is not alive.\<close>

lemma available_first:
  assumes "unat pid < 256" "\<not> alive s pid" "\<forall>q < pid. alive s q"
  shows "find_available_task s = Inr pid"
proof -
  have "available_loop k s = Inr pid" if "k \<le> 256" "256 - k \<le> unat pid" for k
    using that
  proof (induction k)
    case 0
    then show ?case using assms(1) by simp
  next
    case (Suc k)
    let ?i = "MAX_NUM_TASKS - of_nat (Suc k)"
    have "?i = of_nat (256 - Suc k)" using Suc.prems(1) by (simp add: MAX_NUM_TASKS_def)
    then have i: "unat ?i = 256 - Suc k" using unat_of_nat32 [of "256 - Suc k"] by simp
    show ?case
    proof (cases "unat pid = 256 - Suc k")
      case True
      then have "?i = pid" using i by (simp add: word_unat_eq_iff)
      then show ?thesis using assms(2) by (simp add: Let_def)
    next
      case False
      then have "256 - k \<le> unat pid" "?i < pid" using Suc.prems i by (simp_all add: word_less_nat_alt)
      then show ?thesis using Suc assms(3) by (simp add: Let_def)
    qed
  qed
  from this [of 256] show ?thesis by (simp add: find_available_task_def MAX_NUM_TASKS_def)
qed

lemma available_none:
  assumes "\<forall>q < 256. alive s q"
  shows "find_available_task s = Inl (Panic ''No tasks available'')"
proof -
  have "available_loop k s = Inl (Panic ''No tasks available'')" if "k \<le> 256" for k
    using that
  proof (induction k)
    case (Suc k)
    let ?i = "MAX_NUM_TASKS - of_nat (Suc k)"
    have "?i = of_nat (256 - Suc k)" using Suc.prems by (simp add: MAX_NUM_TASKS_def)
    then have "unat ?i < 256" using unat_of_nat32 [of "256 - Suc k"] by simp
    then have "alive s ?i" using assms by (simp add: word_less_nat_alt)
    then show ?case using Suc by (simp add: Let_def)
  qed simp
  from this [of 256] show ?thesis by (simp add: find_available_task_def MAX_NUM_TASKS_def)
qed

section \<open>The pages of a task\<close>

lemma task_page_eq:
  "task_page d address dir s = (case bind_res (get_page (\<lambda>sz m. kmalloc_ap d m sz) (mm s) address True dir) (\<lambda>(page, m1).
     bind_res (page_alloc m1 page 0 1) (\<lambda>m2. Inr (page, m2))) of Inl e \<Rightarrow> Inl e | Inr (page, m) \<Rightarrow> Inr (page, s\<lparr>mm := m\<rparr>))"
  unfolding task_page_def with_mm_def by (cases "bind_res (get_page (\<lambda>sz m. kmalloc_ap d m sz) (mm s) address True dir)
    (\<lambda>(page, m1). bind_res (page_alloc m1 page 0 1) (\<lambda>m2. Inr (page, m2)))") auto

text \<open>
  A directory \<open>P\<close> with the kernel's tables gets two tables of its own, for the image and for the
  kernel stack; the page of the user stack is the window's, which has a frame already.
\<close>

lemma task_pages:
  fixes s :: "'a kernel_state_scheme"
  assumes run: "running f (mm s)" and inv: "heap_inv (mm s) bs" and roomy: "roomy h N (mm s) bs" and len: "16600 < N"
    and cap: "Suc (vacant bs) < index_capacity (mm s)" and f: "Suc f < frame_capacity (mm s)"
    and P: "P mod 4096 = 0" "P + 8204 \<le> h" "(P, 8196) \<in> set (payloads (heap_start (mm s)) bs)"
    and tables: "\<forall>i < 1024. word_at (mem (mm s)) (P + 4 * i) = of_nat (table_at (mm s) i)"
  obtains Q1 Q2 m1 m2 bs' where
    "task_page (Suc d) TASK_IMAGE_BASE (of_nat P) s = Inr (of_nat Q1, s\<lparr>mm := m1\<rparr>)"
    "task_page (Suc d) TASK_USER_STACK_BOTTOM (of_nat P) (s\<lparr>mm := m1\<rparr>) = Inr (cloning_buffer_page (mm s), s\<lparr>mm := m1\<rparr>)"
    "task_page (Suc d) TASK_KERNEL_STACK_BOTTOM (of_nat P) (s\<lparr>mm := m1\<rparr>) = Inr (of_nat Q2, s\<lparr>mm := m2\<rparr>)"
    "running (Suc (Suc f)) m2" "heap_inv m2 bs'" "resized (mm s) m2"
    "\<forall>i < 1024. word_at (mem m2) (P + 4 * i) = (if i = 64 then of_nat Q1 else if i = 128 then of_nat Q2 else of_nat (table_at (mm s) i))"
    "word_at (mem m2) Q1 = mapped_to f" "word_at (mem m2) Q2 = mapped_to (Suc f)"
    "h \<le> Q1" "Q1 + 4104 \<le> Q2" "Q2 + 4104 \<le> h + N"
    "same_outside (index_bytes (mm s) \<union> {P..<P + 8196} \<union> {h..<h + N} \<union> frame_bytes (mm s)) (mem (mm s)) (mem m1)"
    "same_outside (index_bytes (mm s) \<union> {P..<P + 8196} \<union> {h..<h + N} \<union> frame_bytes (mm s)) (mem (mm s)) (mem m2)"
    "\<forall>p < 1048576. pte m2 p = pte (mm s) p"
proof -
  let ?m = "mm s" and ?R = "index_bytes (mm s) \<union> {P..<P + 8196} \<union> {h..<h + N} \<union> frame_bytes (mm s)"
  note r = runningD [OF run] and sp = space_okD [OF runningD(1) [OF run]]
  have h: "heap_start ?m \<le> h" "h + N \<le> heap_end ?m" using roomy heap_invD(2) [OF inv] by (auto simp: roomy_def)
  have P0: "heap_start ?m + 12 \<le> P" using payloads_range [OF heap_invD(3) [OF inv] P(3)] by simp
  have none: "table_at ?m 64 = 0" "table_at ?m 128 = 0" using r(10) [of 64] r(10) [of 128] by auto
  have w: "word_at (mem ?m) (P + 4 * 64) = 0" "word_at (mem ?m) (P + 4 * 128) = 0"
    using tables [rule_format, of 64] tables [rule_format, of 128] none by simp_all
  have bases: "TASK_IMAGE_BASE = of_nat (4096 * (1024 * 64))" "TASK_KERNEL_STACK_BOTTOM = of_nat (4096 * (1024 * 128))"
    "TASK_USER_STACK_BOTTOM = of_nat (4096 * 983040)"
    by (simp_all add: TASK_IMAGE_BASE_def TASK_KERNEL_STACK_BOTTOM_def TASK_USER_STACK_BOTTOM_def)
  have len1: "8252 < N" and cap1: "vacant bs < index_capacity ?m" and f1: "f < frame_capacity ?m" using len cap f by simp_all
  obtain Q1 m1 bs1 where a:
    "bind_res (get_page (\<lambda>sz m. kmalloc_ap (Suc d) m sz) ?m (of_nat (4096 * (1024 * 64))) True (of_nat P)) (\<lambda>(page, m1).
       bind_res (page_alloc m1 page 0 1) (\<lambda>m2. Inr (page, m2))) = Inr (of_nat Q1, m1)"
    "Q1 mod 4096 = 0" "h + 12 \<le> Q1" "Q1 < h + 4129"
    "heap_inv m1 bs1" "roomy (Q1 + 4104) (h + N - (Q1 + 4104)) m1 bs1" "vacant bs1 \<le> Suc (vacant bs)"
    "set (payloads (heap_start ?m) bs) \<subseteq> set (payloads (heap_start m1) bs1)" "resized ?m m1" "running (Suc f) m1"
    "word_at (mem m1) (P + 4 * 64) = of_nat Q1"
    "word_at (mem m1) (P + 4096 + 4 * 64) = (page_address (pte ?m (Q1 div 4096)) * 4096) OR 7"
    "word_at (mem m1) Q1 = mapped_to f" "\<forall>j < 1024. 0 < j \<longrightarrow> word_at (mem m1) (Q1 + 4 * j) = 0"
    "same_outside (index_bytes ?m \<union> {h..<h + N} \<union> {P + 4 * 64..<P + 4 * 64 + 4} \<union> {P + 4096 + 4 * 64..<P + 4096 + 4 * 64 + 4}
       \<union> frame_bytes ?m) (mem ?m) (mem m1)"
    "\<forall>p < 1048576. pte m1 p = pte ?m p"
    by (rule private_table [where d = d, OF run inv roomy len1 cap1 f1 P _ w(1)]) simp
  note fields1 = resized_fields [OF a(9)] and frame1 = resized_frame [OF a(9)]
  let ?h1 = "Q1 + 4104" and ?N1 = "h + N - (Q1 + 4104)"
  have top: "h + N \<le> 0x0F400000" using h r(7) by simp
  have fb: "frame_bytes m1 = frame_bytes ?m" by (simp add: frame_bytes_def fields1)
  have low: "x < 0x0F000000" if "x \<in> frame_bytes ?m" for x using that sp(3,5) r(4) by (auto simp: frame_bytes_def)
  have idx: "x < heap_start ?m" if "x \<in> index_bytes ?m" for x by (rule index_below [OF inv that])
  have keepP: "word_at (mem m1) (P + 4 * i) = of_nat (table_at ?m i)" if "i < 1024" "i \<noteq> 64" for i
  proof -
    have "word_at (mem m1) (P + 4 * i) = word_at (mem ?m) (P + 4 * i)"
    proof (rule same_outside_word [OF a(15)])
      show "{P + 4 * i..<P + 4 * i + 4} \<inter> (index_bytes ?m \<union> {h..<h + N} \<union> {P + 4 * 64..<P + 4 * 64 + 4}
          \<union> {P + 4096 + 4 * 64..<P + 4096 + 4 * 64 + 4} \<union> frame_bytes ?m) = {}"
        using that P(2) P0 r(6) low idx by (fastforce simp: disjoint_iff)
    qed (use that P(2) top in linarith)
    then show ?thesis using tables that by simp
  qed
  have len2: "8252 < ?N1" using len a(4) by linarith
  have cap2: "vacant bs1 < index_capacity m1" "Suc f < frame_capacity m1"
    using a(7) cap f frame1(2) by (simp_all add: frame_capacity_def fields1)
  have P1: "P + 8204 \<le> ?h1" "(P, 8196) \<in> set (payloads (heap_start m1) bs1)" using P(2,3) a(3,8) by auto
  have w1: "word_at (mem m1) (P + 4 * 128) = 0" using keepP [of 128] none by simp
  obtain Q2 m2 bs2 where c:
    "bind_res (get_page (\<lambda>sz m. kmalloc_ap (Suc d) m sz) m1 (of_nat (4096 * (1024 * 128))) True (of_nat P)) (\<lambda>(page, m1).
       bind_res (page_alloc m1 page 0 1) (\<lambda>m2. Inr (page, m2))) = Inr (of_nat Q2, m2)"
    "Q2 mod 4096 = 0" "?h1 + 12 \<le> Q2" "Q2 < ?h1 + 4129"
    "heap_inv m2 bs2" "roomy (Q2 + 4104) (?h1 + ?N1 - (Q2 + 4104)) m2 bs2" "vacant bs2 \<le> Suc (vacant bs1)"
    "set (payloads (heap_start m1) bs1) \<subseteq> set (payloads (heap_start m2) bs2)" "resized m1 m2" "running (Suc (Suc f)) m2"
    "word_at (mem m2) (P + 4 * 128) = of_nat Q2"
    "word_at (mem m2) (P + 4096 + 4 * 128) = (page_address (pte m1 (Q2 div 4096)) * 4096) OR 7"
    "word_at (mem m2) Q2 = mapped_to (Suc f)" "\<forall>j < 1024. 0 < j \<longrightarrow> word_at (mem m2) (Q2 + 4 * j) = 0"
    "same_outside (index_bytes m1 \<union> {?h1..<?h1 + ?N1} \<union> {P + 4 * 128..<P + 4 * 128 + 4} \<union> {P + 4096 + 4 * 128..<P + 4096 + 4 * 128 + 4}
       \<union> frame_bytes m1) (mem m1) (mem m2)"
    "\<forall>p < 1048576. pte m2 p = pte m1 p"
    by (rule private_table [where d = d, OF a(10,5,6) len2 cap2 P(1) P1 _ w1]) simp
  have end1: "?h1 + ?N1 = h + N" using len2 by simp
  have word2: "word_at (mem m2) q = word_at (mem m1) q"
    if "heap_start ?m \<le> q" "q + 4 \<le> ?h1" "q + 4 \<le> P + 512 \<or> P + 516 \<le> q" "q + 4 \<le> P + 4608 \<or> P + 4612 \<le> q" for q
  proof (rule same_outside_word [OF c(15)])
    show "{q..<q + 4} \<inter> (index_bytes m1 \<union> {?h1..<?h1 + ?N1} \<union> {P + 4 * 128..<P + 4 * 128 + 4}
          \<union> {P + 4096 + 4 * 128..<P + 4096 + 4 * 128 + 4} \<union> frame_bytes m1) = {}"
      using that r(6) low idx unfolding fb frame1(1) by (fastforce simp: disjoint_iff)
  qed (use that a(4) top len in linarith)
  have slots2: "word_at (mem m2) (P + 4 * i) = (if i = 64 then of_nat Q1 else if i = 128 then of_nat Q2 else of_nat (table_at ?m i))"
    if "i < 1024" for i
  proof (cases "i = 128")
    case False
    then have "word_at (mem m2) (P + 4 * i) = word_at (mem m1) (P + 4 * i)"
      using that P0 P(2) a(3) by (intro word2) auto
    then show ?thesis using keepP [OF that] a(11) False by simp
  qed (use c(11) in simp)
  have image: "task_page (Suc d) TASK_IMAGE_BASE (of_nat P) s = Inr (of_nat Q1, s\<lparr>mm := m1\<rparr>)"
    unfolding task_page_eq bases(1) a(1) by simp
  have kernel: "task_page (Suc d) TASK_KERNEL_STACK_BOTTOM (of_nat P) (s\<lparr>mm := m1\<rparr>) = Inr (of_nat Q2, s\<lparr>mm := m2\<rparr>)"
    unfolding task_page_eq bases(2) using c(1) by simp
  have p960: "(983040 :: nat) < 1048576" "(983040 :: nat) div 1024 = 960" "(983040 :: nat) mod 1024 = 0" by simp_all
  let ?w = "cloning_buffer_page ?m"
  have window: "?w = of_nat (table_at ?m 960)" using r(11) by (simp add: pte_addr_def)
  have "unat (of_nat (table_at ?m 960) :: u32) = table_at ?m 960" by (simp add: table_at_def)
  then have null: "?w \<noteq> 0" using r(9) unfolding window by (metis unat_0)
  have slot: "dir_table (of_nat P) (of_nat 960) = of_nat (P + 4 * 960)" by (simp add: dir_table_def)
  have "load32 (mem m1) (dir_table (of_nat P) (of_nat 960)) = ?w"
    unfolding slot window using keepP [of 960] by (simp add: word_at_def)
  moreover have "page_entry ?w (of_nat 0) = ?w" by (simp add: page_entry_def)
  ultimately have get: "get_page ap m1 TASK_USER_STACK_BOTTOM True (of_nat P) = Inr (?w, m1)" for ap
    unfolding get_page_def Let_def bases(3) page_number [OF p960(1)] p960(2,3) using null by simp
  have "load32 (mem m1) ?w = pte m1 983040"
    using runningD(9,11) [OF a(10)] fields1(5) by (simp add: pte_def word_at_def)
  then have "page_address (load32 (mem m1) ?w) \<noteq> 0" using a(16) r(12) by simp
  then have "page_alloc m1 ?w 0 1 = Inr m1" using null by (simp add: page_alloc_def)
  then have user: "task_page (Suc d) TASK_USER_STACK_BOTTOM (of_nat P) (s\<lparr>mm := m1\<rparr>) = Inr (?w, s\<lparr>mm := m1\<rparr>)"
    unfolding task_page_eq using get by simp
  have in_R: "{P + 4 * i..<P + 4 * i + 4} \<union> {P + 4096 + 4 * i..<P + 4096 + 4 * i + 4} \<subseteq> {P..<P + 8196}" if "i < 1024" for i
    using that by auto
  have same1: "same_outside ?R (mem ?m) (mem m1)"
    by (rule same_outside_mono [OF a(15)]) (use in_R [of 64] in auto)
  have "{?h1..<?h1 + ?N1} \<subseteq> {h..<h + N}" using a(3) len2 by auto
  then have "same_outside ?R (mem m1) (mem m2)"
    using in_R [of 128] unfolding fb [symmetric] frame1(1) [symmetric] by (intro same_outside_mono [OF c(15)]) auto
  then have same2: "same_outside ?R (mem ?m) (mem m2)" by (rule same_outside_trans_in [OF same1])
  have Q1: "word_at (mem m2) Q1 = mapped_to f"
    using word2 [of Q1] a(3,13) P(2) h by simp
  show ?thesis
    by (rule that [OF image user kernel c(10,5) resized_trans [OF a(9) c(9)] _ Q1 c(13) _ _ _ same1 same2])
       (use slots2 a(3) c(3,4) end1 len2 a(16) c(16) in simp_all)
qed

section \<open>The whole of \<open>task_create\<close>\<close>

text \<open>
  The kernel before a task is created: in service, with room for a directory and two tables in
  the heap's hole and two free frames; the directory in use is a clone of the kernel's below that
  hole; the task table and the image are parts of the kernel's own image and do not overlap.
\<close>

definition task_ready :: "nat \<Rightarrow> block list \<Rightarrow> u32 \<Rightarrow> 'a kernel_state_scheme \<Rightarrow> bool" where
  "task_ready f bs img s \<longleftrightarrow> 0 < f \<and> running f (mm s) \<and> heap_inv (mm s) bs
     \<and> vacant bs + 2 < index_capacity (mm s) \<and> f + 1 < frame_capacity (mm s)
     \<and> (\<exists>h N. roomy h N (mm s) bs \<and> 29000 < N \<and> unat (current_directory (mm s)) + 8196 \<le> h)
     \<and> heap_start (mm s) \<le> unat (current_directory (mm s)) \<and> translation s = current_directory (mm s)
     \<and> shares_kernel (current_directory (mm s)) (mm s)
     \<and> (\<forall>i < 1024. kload s (dir_table_physical (current_directory (mm s)) (of_nat i)) = physical_at (mm s) i)
     \<and> unat (tasks_addr s) + 19456 \<le> unat (bs_base (frames (mm s)))
     \<and> unat img + 4096 \<le> unat (bs_base (frames (mm s)))
     \<and> (unat img + 4096 \<le> unat (tasks_addr s) \<or> unat (tasks_addr s) + 19456 \<le> unat img)"

text \<open>The new entry, and a write to it, change nothing that \<open>task_create\<close> relies on.\<close>

lemma low_write:
  fixes s s' :: "'a kernel_state_scheme"
  assumes run: "running f (mm s)" and inv: "heap_inv (mm s) bs"
    and m': "mm s' = (mm s)\<lparr>mem := mem (mm s')\<rparr>" and same: "same_outside R (mem (mm s)) (mem (mm s'))"
    and R: "\<And>x. x \<in> R \<Longrightarrow> x < unat (bs_base (frames (mm s)))"
  shows "running f (mm s')" "heap_inv (mm s') bs" "resized (mm s) (mm s')"
    "\<And>i. i < 1024 \<Longrightarrow> table_at (mm s') i = table_at (mm s) i" "\<And>p. p < 1048576 \<Longrightarrow> pte (mm s') p = pte (mm s) p"
    "\<And>q. unat (bs_base (frames (mm s))) \<le> q \<Longrightarrow> q + 4 \<le> 4294967296 \<Longrightarrow> word_at (mem (mm s')) q = word_at (mem (mm s)) q"
    "heap_start (mm s') = heap_start (mm s)" "index_capacity (mm s') = index_capacity (mm s)"
    "\<And>i. i < 1024 \<Longrightarrow> physical_at (mm s') i = physical_at (mm s) i"
proof -
  note r = runningD [OF run] and sp = space_okD [OF runningD(1) [OF run]]
  show res: "resized (mm s) (mm s')" by (rule resized_store [OF resized_refl(1) m'])
  have "R \<inter> manager_bytes (mm s) = {}" using R by fastforce
  note k = running_kept [OF run res same this]
  show "running f (mm s')" "\<And>i. i < 1024 \<Longrightarrow> table_at (mm s') i = table_at (mm s) i" "\<And>p. p < 1048576 \<Longrightarrow> pte (mm s') p = pte (mm s) p"
    by (fact k)+
  have "x < 0x0F000000" if "x \<in> R" for x using R [OF that] sp(3,5) r(4) by linarith
  then show "heap_inv (mm s') bs" using heap_inv_payloads [OF inv _ r(6,5) m' same] by blast
  show "word_at (mem (mm s')) q = word_at (mem (mm s)) q" if "unat (bs_base (frames (mm s))) \<le> q" "q + 4 \<le> 4294967296" for q
    by (rule same_outside_word [OF same _ that(2)]) (use R that(1) in \<open>fastforce simp: disjoint_iff\<close>)
  show "heap_start (mm s') = heap_start (mm s)" "index_capacity (mm s') = index_capacity (mm s)"
    using resized_frame [OF res] by simp_all
  show "physical_at (mm s') i = physical_at (mm s) i" if "i < 1024" for i
    using space_okD(8) [OF runningD(1) [OF k(1)] that] sp(8) [OF that] k(2) [OF that] by simp
qed

lemma roomy_cong: "heap_start m' = heap_start m \<Longrightarrow> roomy h N m' bs = roomy h N m bs"
  by (simp add: roomy_def)

lemma task_place:
  assumes "unat (tasks_addr s) + 19456 \<le> B" "B < 4294967296" "unat pid < 256"
  obtains T where "task_ptr s pid = of_nat T" "T = unat (tasks_addr s) + 76 * unat pid" "T + 76 \<le> unat (tasks_addr s) + 19456"
    "T + 76 \<le> B" "unat (task_ptr s pid) = T"
proof -
  let ?T = "unat (tasks_addr s) + 76 * unat pid"
  have eq: "task_ptr s pid = of_nat ?T" by (simp add: task_ptr_def sizeof_task_def)
  have "unat (of_nat ?T :: u32) = ?T" by (rule unat_of_nat32) (use assms in linarith)
  then show ?thesis using that [OF eq refl] assms eq by simp
qed

lemma task_create_ok:
  fixes s :: "'a kernel_state_scheme"
  assumes ready: "task_ready f bs img s" and pid: "unat pid < 256" "\<not> alive s pid" "\<forall>q < pid. alive s q"
  obtains s' P Q1 Q2 bs' where "task_create (Suc d) img sz s = Inr (pid, s')"
    "running (f + 2) (mm s')" "heap_inv (mm s') bs'"
    "kload s' (task_directory (task_ptr s pid)) = of_nat P"
    "\<forall>i < 1024. word_at (mem (mm s')) (P + 4 * i) = (if i = 64 then of_nat Q1 else if i = 128 then of_nat Q2 else of_nat (table_at (mm s) i))"
    "word_at (mem (mm s')) Q1 = mapped_to f" "word_at (mem (mm s')) Q2 = mapped_to (Suc f)"
    "page_present (pte (mm s') 983040)" "page_address (pte (mm s') 983040) = of_nat f"
    "\<forall>k < 4096. physical s' (of_nat (4096 * f) + of_nat k) = mem (mm s) (img + of_nat k)"
    "\<forall>x. x \<notin> bytes (of_nat (4096 * f)) 4096 \<longrightarrow> physical s' x = physical s x"
    "tasks_addr s' = tasks_addr s"
    "\<forall>x. unat x < unat (bs_base (frames (mm s))) \<longrightarrow> x \<notin> bytes (task_ptr s pid) 76 \<longrightarrow> mem (mm s') x = mem (mm s) x"
    "kload s' (task_alive (task_ptr s pid)) = 1" "kload s' (task_pid (task_ptr s pid)) = pid"
    "kload s' (saved_eip (task_ptr s pid)) = TASK_IMAGE_BASE" "kload s' (saved_esp (task_ptr s pid)) = 0xF0000FFC"
    "kload s' (saved_cs (task_ptr s pid)) = 0x1B" "kload s' (saved_ds (task_ptr s pid)) = 0x23"
    "kload s' (saved_ss (task_ptr s pid)) = 0x23"
    "\<forall>i < 1024. table_at (mm s') i = table_at (mm s) i" "kernel_directory (mm s') = kernel_directory (mm s)"
    "P + 8204 \<le> Q1" "Q1 + 4104 \<le> Q2" "Q2 + 4096 \<le> 0x0F400000" "0x0F000000 \<le> P"
proof -
  define B where "B = unat (bs_base (frames (mm s)))"
  let ?cd = "current_directory (mm s)"
  have f0: "0 < f" using ready by (simp add: task_ready_def)
  obtain h N where t: "running f (mm s)" "heap_inv (mm s) bs" "vacant bs + 2 < index_capacity (mm s)" "f + 1 < frame_capacity (mm s)"
    "roomy h N (mm s) bs" "29000 < N" "unat ?cd + 8196 \<le> h" "heap_start (mm s) \<le> unat ?cd" "translation s = ?cd"
    "shares_kernel ?cd (mm s)" "\<forall>i < 1024. kload s (dir_table_physical ?cd (of_nat i)) = physical_at (mm s) i"
    "unat (tasks_addr s) + 19456 \<le> B" "unat img + 4096 \<le> B"
    "unat img + 4096 \<le> unat (tasks_addr s) \<or> unat (tasks_addr s) + 19456 \<le> unat img"
    using ready unfolding task_ready_def B_def by blast
  note r = runningD [OF t(1)] and sp = space_okD [OF runningD(1) [OF t(1)]]
  have h: "heap_start (mm s) \<le> h" "h + N \<le> heap_end (mm s)" using t(5) heap_invD(2) [OF t(2)] by (auto simp: roomy_def)
  have top: "h + N \<le> 0x0F400000" using h r(7) by simp
  have B: "B < 4294967296" "B \<le> 0x0F000000" using sp(3,5) r(4) unfolding B_def by linarith+
  obtain T where T: "task_ptr s pid = of_nat T" "T = unat (tasks_addr s) + 76 * unat pid" "T + 76 \<le> unat (tasks_addr s) + 19456"
    "T + 76 \<le> B" "unat (task_ptr s pid) = T"
    by (rule task_place [OF t(12) B(1) pid(1)])
  have ptr: "task_ptr s'' pid = of_nat T" if "tasks_addr s'' = tasks_addr s" for s'' :: "'a kernel_state_scheme"
    using T(1) that by (simp add: task_ptr_def)
  have tdir: "task_directory (of_nat T) = of_nat (T + 8)" by (simp add: task_directory_def)
  define s1 where "s1 = update_mem (new_task pid (of_nat T)) s"
  have m1: "mem (mm s1) = new_task pid (of_nat T) (mem (mm s))" by (simp add: s1_def)
  have "T + 76 \<le> 4294967296" using T(4) B(1) by simp
  note entry = new_task_entry [OF this m1]
  have mm1: "mm s1 = (mm s)\<lparr>mem := mem (mm s1)\<rparr>" by (simp add: s1_def)
  have lowT: "x < unat (bs_base (frames (mm s)))" if "x \<in> {T..<T + 76}" for x using that T(4) unfolding B_def by auto
  note w1 = low_write [OF t(1,2) mm1 entry(1) lowT]
  have cd1: "current_directory (mm s1) = ?cd" "kernel_directory (mm s1) = kernel_directory (mm s)" "frames (mm s1) = frames (mm s)"
    by (simp_all add: s1_def)
  have word1: "load32 (mem (mm s1)) (a + of_nat j) = kload s (a + of_nat j)"
    if "B \<le> unat a" "unat a + j + 4 \<le> 4294967296" for a j
    using w1(6) [of "unat a + j"] that unfolding B_def by (simp add: word_at_def)
  have cdB: "B \<le> unat ?cd" "unat ?cd + 8196 \<le> 4294967296" using t(7,8) r(6) B(2) top by linarith+
  have kdB: "B \<le> unat (kernel_directory (mm s))" "unat (kernel_directory (mm s)) + 8196 \<le> 4294967296"
    using sp(3,5) r(4) unfolding B_def by linarith+
  have shares1: "shares_kernel ?cd (mm s1)"
    using t(10) word1 [OF cdB(1), of "4 * i" for i] word1 [OF kdB(1), of "4 * i" for i] cdB(2) kdB(2)
    by (simp add: shares_kernel_def dir_table_def cd1)
  have phys1: "\<forall>i < 1024. kload s1 (dir_table_physical ?cd (of_nat i)) = physical_at (mm s1) i"
    using t(11) word1 [OF cdB(1), of "4096 + 4 * i" for i] cdB(2) w1(9)
    by (simp add: dir_table_physical_def add.assoc)
  have roomy1: "roomy h N (mm s1) bs" using t(5) roomy_cong [OF w1(7)] by simp
  have len1: "12352 < N" and cap1: "vacant bs < index_capacity (mm s1)" using t(3,6) w1(8) by simp_all
  have src1: "unat ?cd + 8196 \<le> 0x0F000000 \<or> heap_start (mm s1) \<le> unat ?cd \<and> unat ?cd + 8196 \<le> h" using t(7,8) w1(7) by simp
  obtain P m2 bs2 where c: "clone_directory (Suc d) ?cd s1 = Inr (of_nat P, s1\<lparr>mm := m2\<rparr>)"
    "P mod 4096 = 0" "h + 12 \<le> P" "P < h + 4129"
    "heap_inv m2 bs2" "roomy (P + 8204) (h + N - (P + 8204)) m2 bs2" "vacant bs2 \<le> Suc (vacant bs)"
    "set (payloads (heap_start (mm s1)) bs) \<subseteq> set (payloads (heap_start m2) bs2)"
    "(P, 8196) \<in> set (payloads (heap_start m2) bs2)" "resized (mm s1) m2" "running f m2"
    "\<forall>i < 1024. word_at (mem m2) (P + 4 * i) = of_nat (table_at (mm s1) i)"
    "\<forall>i < 1024. word_at (mem m2) (P + 4096 + 4 * i) = physical_at (mm s1) i"
    "word_at (mem m2) (P + 8192) = page_address (pte (mm s1) (P div 4096)) * 4096 + 4096"
    "same_outside (index_bytes (mm s1) \<union> {h..<h + N}) (mem (mm s1)) (mem m2)"
    "\<forall>i < 1024. table_at m2 i = table_at (mm s1) i" "\<forall>p < 1048576. pte m2 p = pte (mm s1) p"
    "carved h N 8216 (mm s1) bs bs2"
    by (rule clone_running [where d = d, OF w1(1,2) roomy1 len1 cap1 shares1 phys1 src1])
  define s2 where "s2 = s1\<lparr>mm := m2\<rparr>"
  have mm2: "mm s2 = m2" by (simp add: s2_def)
  have fr2: "frames m2 = frames (mm s)" using resized_fields(1) [OF c(10)] cd1(3) by simp
  define s3 where "s3 = update_mem (\<lambda>m. store32 m (of_nat (T + 8)) (of_nat P)) s2"
  have mem3: "mem (mm s3) = put_at (mem (mm s2)) (T + 8) (of_nat P)" by (simp add: s3_def put_at_def)
  have mm3: "mm s3 = (mm s2)\<lparr>mem := mem (mm s3)\<rparr>" by (simp add: s3_def)
  have same3: "same_outside {T + 8..<T + 12} (mem (mm s2)) (mem (mm s3))"
    unfolding mem3 using T(4) B(1) by (intro same_outside_put_at) auto
  have low3: "x < unat (bs_base (frames (mm s2)))" if "x \<in> {T + 8..<T + 12}" for x
    using that T(4) fr2 unfolding B_def mm2 by auto
  have run2: "running f (mm s2)" and inv2: "heap_inv (mm s2) bs2" using c(5,11) mm2 by simp_all
  note w3 = low_write [OF run2 inv2 mm3 same3 low3]
  have "frames (mm s3) = frames (mm s2)" by (subst mm3) simp
  then have fr3: "frames (mm s3) = frames (mm s)" using fr2 mm2 by simp
  have PB: "B \<le> P" using c(3) h(1) r(6) B(2) by linarith
  have start: "heap_start m2 = heap_start (mm s)" "index_capacity m2 = index_capacity (mm s)" "index_bytes m2 = index_bytes (mm s)"
    using resized_frame [OF c(10)] resized_frame [OF w1(3)] by simp_all
  have tab3: "table_at (mm s3) i = table_at (mm s) i" if "i < 1024" for i
    using w3(4) c(16) w1(4) that mm2 by simp
  have pte3: "pte (mm s3) p = pte (mm s) p" if "p < 1048576" for p
    using w3(5) c(17) w1(5) that mm2 by simp
  have tables3: "\<forall>i < 1024. word_at (mem (mm s3)) (P + 4 * i) = of_nat (table_at (mm s3) i)"
  proof (intro allI impI)
    fix i :: nat assume i: "i < 1024"
    have "word_at (mem (mm s3)) (P + 4 * i) = word_at (mem (mm s2)) (P + 4 * i)"
      by (rule w3(6)) (use PB fr2 c(4) i top t(6) in \<open>simp_all add: mm2 B_def\<close>)
    then show "word_at (mem (mm s3)) (P + 4 * i) = of_nat (table_at (mm s3) i)"
      using c(12) w1(4) tab3 i mm2 by simp
  qed
  have roomy3: "roomy (P + 8204) (h + N - (P + 8204)) (mm s3) bs2"
    using c(6) roomy_cong [OF w3(7)] mm2 by simp
  have len3: "16600 < h + N - (P + 8204)" using c(4) t(6) by linarith
  have cap3: "Suc (vacant bs2) < index_capacity (mm s3)" using w3(8) mm2 start(2) c(7) t(3) by simp
  have cap3': "Suc f < frame_capacity (mm s3)" using t(4) by (simp add: frame_capacity_def fr3)
  have pay3: "(P, 8196) \<in> set (payloads (heap_start (mm s3)) bs2)" using c(9) w3(7) mm2 by simp
  obtain Q1 Q2 m4 m6 bs6 where g:
    "task_page (Suc d) TASK_IMAGE_BASE (of_nat P) s3 = Inr (of_nat Q1, s3\<lparr>mm := m4\<rparr>)"
    "task_page (Suc d) TASK_USER_STACK_BOTTOM (of_nat P) (s3\<lparr>mm := m4\<rparr>) = Inr (cloning_buffer_page (mm s3), s3\<lparr>mm := m4\<rparr>)"
    "task_page (Suc d) TASK_KERNEL_STACK_BOTTOM (of_nat P) (s3\<lparr>mm := m4\<rparr>) = Inr (of_nat Q2, s3\<lparr>mm := m6\<rparr>)"
    "running (Suc (Suc f)) m6" "heap_inv m6 bs6" "resized (mm s3) m6"
    "\<forall>i < 1024. word_at (mem m6) (P + 4 * i) = (if i = 64 then of_nat Q1 else if i = 128 then of_nat Q2 else of_nat (table_at (mm s3) i))"
    "word_at (mem m6) Q1 = mapped_to f" "word_at (mem m6) Q2 = mapped_to (Suc f)"
    "P + 8204 \<le> Q1" "Q1 + 4104 \<le> Q2" "Q2 + 4104 \<le> P + 8204 + (h + N - (P + 8204))"
    "same_outside (index_bytes (mm s3) \<union> {P..<P + 8196} \<union> {P + 8204..<P + 8204 + (h + N - (P + 8204))} \<union> frame_bytes (mm s3)) (mem (mm s3)) (mem m4)"
    "same_outside (index_bytes (mm s3) \<union> {P..<P + 8196} \<union> {P + 8204..<P + 8204 + (h + N - (P + 8204))} \<union> frame_bytes (mm s3)) (mem (mm s3)) (mem m6)"
    "\<forall>p < 1048576. pte m6 p = pte (mm s3) p"
    by (rule task_pages [where d = d, OF w3(1,2) roomy3 len3 cap3 cap3' c(2) order_refl pay3 tables3])
  let ?R = "index_bytes (mm s3) \<union> {P..<P + 8196} \<union> {P + 8204..<P + 8204 + (h + N - (P + 8204))} \<union> frame_bytes (mm s3)"
  have idx3: "index_bytes (mm s3) = index_bytes (mm s)" using resized_frame(1) [OF w3(3)] mm2 start(3) by simp
  have fb3: "frame_bytes (mm s3) = frame_bytes (mm s)" by (simp add: frame_bytes_def fr3)
  have frame_low: "B \<le> x" "x < unat (kernel_directory (mm s))" "x < 0x0F000000" if "x \<in> frame_bytes (mm s)" for x
    using that sp(3,5) r(4) unfolding B_def by (auto simp: frame_bytes_def)
  have R_low: "B \<le> x" if "x \<in> ?R" for x
    using that r(5) B(2) PB frame_low(1) unfolding idx3 fb3 by fastforce
  have low6: "word_at (mem m) q = word_at (mem (mm s3)) q" if "q + 4 \<le> B" "same_outside ?R (mem (mm s3)) (mem m)" for q m
    by (rule same_outside_word [OF that(2)]) (use that(1) R_low B(1) in \<open>fastforce simp: disjoint_iff\<close>)+
  have entry3: "word_at (mem (mm s3)) (T + 8) = of_nat P" by (simp add: mem3)
  define s4 where "s4 = s3\<lparr>mm := m4\<rparr>"
  define s6 where "s6 = s3\<lparr>mm := m6\<rparr>"
  have dir: "kload s3 (of_nat (T + 8)) = of_nat P" "kload s4 (of_nat (T + 8)) = of_nat P"
    using entry3 low6 [OF _ g(13), of "T + 8"] T(4) by (simp_all add: word_at_def s4_def)
  have "kload s6 (of_nat Q1) = mapped_to f" using g(8) by (simp add: word_at_def s6_def)
  moreover have f20: "f < 1048576" using sp(2) t(4) by simp
  moreover have uf: "unat (of_nat f :: u32) = f" by (rule unat_of_nat32) (use f20 in simp)
  ultimately have img: "page_address (kload s6 (of_nat Q1)) = of_nat f"
    by (simp add: page_filled_fields take_bit_20_small)
  define dest where "dest = (of_nat f :: u32) * 0x1000"
  have dest: "dest = of_nat (4096 * f)" by (simp add: dest_def)
  then have udest: "unat dest = 4096 * f" by (simp only: dest) (rule unat_of_nat32, use f20 in simp)
  have dest_frame: "dest div PAGE_SIZE = of_nat f"
    by (rule word_unat_eq_iff [THEN iffD2]) (simp add: PAGE_SIZE_def unat_div udest uf)
  have used6: "used_frames m6 = {..<Suc (Suc f)}" using runningD(2) [OF g(4)] .
  have kd3: "kernel_directory (mm s3) = kernel_directory (mm s)" "mem_first_unused (mm s3) = mem_first_unused (mm s)"
    "current_directory (mm s3) = ?cd"
    using resized_fields [OF w3(3)] resized_fields [OF c(10)] resized_fields [OF w1(3)] mm2 by simp_all
  have kd6: "kernel_directory m6 = kernel_directory (mm s)" using resized_fields(2) [OF g(6)] kd3 by simp
  have "?R \<inter> {unat (kernel_directory (mm s3))..<unat (mem_first_unused (mm s3))} = {}"
    using r(4,5) PB h(1) r(6) c(3) frame_low(2) unfolding idx3 fb3 kd3 by (fastforce simp: disjoint_iff)
  note run6 = running_frames [OF w3(1) g(6) used6 g(14) this]
  have tab6: "table_at m6 i = table_at (mm s) i" if "i < 1024" for i using run6(2) tab3 that by simp
  have cd_word: "word_at (mem m6) (unat ?cd + 4 * i) = word_at (mem (mm s)) (unat ?cd + 4 * i)" if i: "i < 1024" for i
  proof -
    let ?q = "unat ?cd + 4 * i"
    have q: "heap_start (mm s) \<le> ?q" "?q + 4 \<le> h" "?q + 4 \<le> 4294967296" "B \<le> ?q" using t(7,8) i cdB by auto
    have apart: "x \<notin> index_bytes (mm s)" "x \<notin> frame_bytes (mm s)" "x < h" if "?q \<le> x" "x < ?q + 4" for x
      using that q index_below [OF t(2), of x] frame_low(3) [of x] r(6) by fastforce+
    have "word_at (mem m6) ?q = word_at (mem (mm s3)) ?q"
      by (rule same_outside_word [OF g(14) _ q(3)]) (use apart c(3) in \<open>fastforce simp: disjoint_iff idx3 fb3\<close>)
    also have "\<dots> = word_at (mem (mm s2)) ?q" by (rule w3(6)) (use q fr2 in \<open>simp_all add: mm2 B_def\<close>)
    also have "\<dots> = word_at (mem (mm s1)) ?q" unfolding mm2
      by (rule same_outside_word [OF c(15) _ q(3)])
         (use apart resized_frame(1) [OF w1(3)] in \<open>fastforce simp: disjoint_iff\<close>)
    also have "\<dots> = word_at (mem (mm s)) ?q" by (rule w1(6)) (use q in \<open>simp_all add: B_def\<close>)
    finally show ?thesis .
  qed
  have "shares_kernel ?cd m6"
    unfolding shares_kernel_def
  proof (intro allI impI)
    fix i :: nat assume i: "i < 1024"
    have "load32 (mem m6) (dir_table ?cd (of_nat i)) = kload s (dir_table ?cd (of_nat i))"
      using cd_word [OF i] by (simp add: word_at_def dir_table_def)
    also have "\<dots> = kload s (dir_table (kernel_directory (mm s)) (of_nat i))" using t(10) i by (simp add: shares_kernel_def)
    also have "\<dots> = load32 (mem m6) (dir_table (kernel_directory m6) (of_nat i))"
      using tab6 [OF i] by (simp add: table_at_def word_at_def dir_table_def kd6 word_unat_eq_iff)
    finally show "load32 (mem m6) (dir_table ?cd (of_nat i)) = load32 (mem m6) (dir_table (kernel_directory m6) (of_nat i))" .
  qed
  moreover have trans6: "translation s6 = ?cd" "mm s6 = m6" "tasks_addr s6 = tasks_addr s" "physical s6 = physical s"
    using t(9) by (simp_all add: s6_def s3_def s2_def s1_def update_mem_def)
  ultimately have shared6: "table_of s6 (translation s6) a = table_of s6 (kernel_directory (mm s6)) a" for a
  proof -
    have "a div PAGE_SIZE div PAGES_PER_TABLE = of_nat (unat (a div PAGE_SIZE div PAGES_PER_TABLE))" by simp
    moreover note table_index_bound [of a]
    ultimately show ?thesis using \<open>shares_kernel ?cd m6\<close> unfolding table_of_def trans6 shares_kernel_def by metis
  qed
  let ?a = "pte_addr m6 983040"
  have win6: "cloning_buffer_page m6 = of_nat ?a" by (rule runningD(11) [OF g(4)])
  have a960: "(983040 :: nat) < 1048576" "table_at m6 (983040 div 1024) \<noteq> 0" using runningD(9) [OF g(4)] by simp_all
  note ab = pte_addr_bounds [OF runningD(1) [OF g(4)] a960]
  have ab': "unat (kernel_directory (mm s)) + 12288 \<le> ?a" "?a + 4 \<le> 0x0F000000" using ab(1,2) runningD(4) [OF g(4)] unfolding kd6 by linarith+
  have ua: "unat (of_nat ?a :: u32) = ?a" by (rule unat_of_nat32) (use ab(3) in linarith)
  have kb: "kernel_byte s6 (img + of_nat k)" if k: "k < unat (0x1000 :: u32)" for k
  proof -
    have k': "k < 4096" using k by simp
    have ux: "unat (img + of_nat k) = unat img + k"
      using t(13) B(1) k' by (simp add: unat_add32 unat_of_nat32)
    have "\<not> in_window (img + of_nat k)"
    proof
      assume "in_window (img + of_nat k)"
      then have "unat ((img + of_nat k) div PAGE_SIZE) = unat (PAGE_CLONING_BUFFER div PAGE_SIZE)" by (simp add: in_window_def)
      then have "(unat img + k) div 4096 = 983040" unfolding unat_div ux by (simp add: PAGE_SIZE_def PAGE_CLONING_BUFFER_def)
      then show False using t(13) B(2) k' by linarith
    qed
    moreover have "img + of_nat k \<notin> bytes (cloning_buffer_page (mm s6)) 4"
      using bytes_no_wrap [of "of_nat ?a" 4 "img + of_nat k"] ab' t(13) k' kdB(1)
      by (simp add: trans6 win6 ua ux del: in_bytes)
    moreover have "bytes (dir_table dir ((img + of_nat k) div PAGE_SIZE div PAGES_PER_TABLE)) 4 \<inter> bytes (cloning_buffer_page (mm s6)) 4 = {}"
      if dir: "dir \<in> {translation s6, kernel_directory (mm s6)}" for dir
    proof -
      define i where "i = unat ((img + of_nat k) div PAGE_SIZE div PAGES_PER_TABLE)"
      have i: "i < 1024" unfolding i_def by (rule table_index_bound)
      have "dir_table dir ((img + of_nat k) div PAGE_SIZE div PAGES_PER_TABLE) = of_nat (unat dir + 4 * i)"
        by (simp add: dir_table_def i_def)
      moreover have "bytes (of_nat (unat dir + 4 * i)) 4 \<inter> bytes (of_nat ?a) 4 = ({} :: u32 set)"
      proof (rule bytes_disjoint_nat)
        show "unat dir + 4 * i + 4 \<le> ?a \<or> ?a + 4 \<le> unat dir + 4 * i"
          using dir ab' i t(8) r(6) unfolding trans6 kd6 by auto
        show "unat dir + 4 * i + 4 \<le> 4294967296" using dir i cdB(2) kdB(2) unfolding trans6 kd6 by auto
        show "?a + 4 \<le> 4294967296" using ab' by simp
      qed
      ultimately show ?thesis unfolding trans6 win6 by simp
    qed
    ultimately show ?thesis using shared6 unfolding kernel_byte_def by blast
  qed
  have win_nz: "cloning_buffer_page (mm s6) \<noteq> 0" using ab'(1) ua unfolding trans6 win6 by (metis add_is_0 le_zero_eq unat_0 zero_neq_numeral)
  have fit: "unat dest mod 4096 + unat (0x1000 :: u32) \<le> 4096" by (simp add: udest)
  obtain s7 w where s7: "mm_memcpy_physical dest img 0x1000 s6 = Inr s7"
    "\<forall>x. physical s7 x = (if x \<in> bytes dest (unat (0x1000 :: u32)) then mem (mm s6) (img + (x - dest)) else physical s6 x)"
    "mm s7 = (mm s6)\<lparr>mem := store32 (mem (mm s6)) (cloning_buffer_page (mm s6)) w\<rparr>"
    "page_present w" "page_address w = dest div PAGE_SIZE" "s7 = s6\<lparr>mm := mm s7, physical := physical s7\<rparr>"
    using mm_memcpy_physical_ok [OF win_nz fit, of img] kb by blast
  have run: "task_create (Suc d) img sz s = Inr (pid, s7)"
    unfolding task_create_def available_first [OF pid] bind_res_Inr Let_def T(1) s1_def [symmetric] cd1(1) c(1) prod.case
      s2_def [symmetric] tdir s3_def [symmetric] dir(1) g(1) s4_def [symmetric] dir(2) g(2) [folded s4_def] g(3) [folded s4_def]
      s6_def [symmetric] img dest_def [symmetric] s7(1) by (rule refl)
  have wf: "page_address w \<noteq> 0" using s7(5) dest_frame uf f0 by (metis neq0_conv unat_0)
  note W = window_write [OF g(4,5) s7(3) [unfolded trans6] wf]
  have word7: "word_at (mem (mm s7)) q = word_at (mem m6) q" if "q + 4 \<le> B \<or> 0x0F000000 \<le> q" "q + 4 \<le> 4294967296" for q
    by (rule same_outside_word [OF W(5) _ that(2)]) (use that(1) ab' kdB(1) in auto)
  have low7: "word_at (mem (mm s7)) q = word_at (mem (mm s3)) q" if "q + 4 \<le> B" for q
    using word7 [of q] low6 [OF that g(14)] that B(1) by simp
  have low_s3: "word_at (mem (mm s3)) q = word_at (mem (mm s1)) q" if "q + 4 \<le> B" "q + 4 \<le> T + 8 \<or> T + 12 \<le> q" for q
  proof -
    have "word_at (mem (mm s3)) q = word_at (mem (mm s2)) q"
      by (rule same_outside_word [OF same3]) (use that B(1) in auto)
    also have "\<dots> = word_at (mem (mm s1)) q" unfolding mm2
      by (rule same_outside_word [OF c(15)])
         (use that(1) B h(1) r(5,6) resized_frame(1) [OF w1(3)] in \<open>fastforce simp: disjoint_iff\<close>)+
    finally show ?thesis .
  qed
  have byte7: "mem (mm s7) x = mem (mm s) x" if x: "unat x < B" "unat x \<notin> {T..<T + 76}" for x
  proof -
    have "mem (mm s7) x = mem m6 x" by (rule same_outside_byte [OF W(5)]) (use x ab' kdB(1) in auto)
    also have "\<dots> = mem (mm s3) x" by (rule same_outside_byte [OF g(14)]) (use x(1) R_low [of "unat x"] in force)
    also have "\<dots> = mem (mm s2) x" by (rule same_outside_byte [OF same3]) (use x(2) in auto)
    also have "\<dots> = mem (mm s1) x" unfolding mm2
      by (rule same_outside_byte [OF c(15)]) (use x(1) B h(1) r(5,6) resized_frame(1) [OF w1(3)] in fastforce)
    also have "\<dots> = mem (mm s) x" by (rule same_outside_byte [OF entry(1) x(2)])
    finally show ?thesis .
  qed
  have fieldsT: "word_at (mem (mm s7)) (T + j) = word_at (mem (mm s1)) (T + j)" if "j \<in> {0, 4, 12, 28, 56, 60, 72}" for j
    using that low7 [of "T + j"] low_s3 [of "T + j"] T(4) by auto
  have word: "kload s7 (of_nat q) = word_at (mem (mm s7)) q" for q by (simp add: word_at_def)
  have t_fields: "task_alive (of_nat T) = of_nat (T + 4)" "task_pid (of_nat T) = of_nat T"
    "saved_eip (of_nat T) = of_nat (T + 56)" "saved_esp (of_nat T) = of_nat (T + 28)" "saved_cs (of_nat T) = of_nat (T + 60)"
    "saved_ds (of_nat T) = of_nat (T + 12)" "saved_ss (of_nat T) = of_nat (T + 72)"
    by (simp_all add: task_alive_def task_pid_def saved_state_def saved_cs_def saved_eip_def saved_ds_def saved_ss_def saved_esp_def)
  have P_top: "Q2 + 4104 \<le> h + N" "0x0F000000 \<le> P" using g(12) c(3,4) t(6) h(1) r(6) by linarith+
  have fr7: "kernel_directory (mm s7) = kernel_directory (mm s)" using kd6 by (simp add: s7(3) trans6)
  have "tasks_addr s7 = tasks_addr s6" by (subst s7(6)) simp
  then have addr7: "tasks_addr s7 = tasks_addr s" by (simp add: trans6)
  have phys7: "physical s7 (of_nat (4096 * f) + of_nat k) = mem (mm s) (img + of_nat k)" if k: "k < 4096" for k
  proof -
    have in_dest: "dest + of_nat k \<in> bytes dest 4096" using k by (simp add: unat_of_nat32)
    have ux: "unat (img + of_nat k) = unat img + k" using t(13) B(1) k by (simp add: unat_add32 unat_of_nat32)
    have "mem m6 (img + of_nat k) = mem (mm s7) (img + of_nat k)"
      by (rule same_outside_byte [OF W(5), symmetric]) (use t(13) k ux ab' kdB(1) in auto)
    also have "\<dots> = mem (mm s) (img + of_nat k)"
      by (rule byte7) (use t(13,14) k ux T(2,3) in auto)
    finally show ?thesis using s7(2) in_dest unfolding dest [symmetric] by (simp add: trans6)
  qed
  have inT: "x \<in> bytes (of_nat T) 76 \<longleftrightarrow> unat x \<in> {T..<T + 76}" for x :: u32
    using bytes_no_wrap [of "of_nat T" 76 x] T(4) B(1) T(5) by (simp add: T(1) del: in_bytes)
  show ?thesis
  proof (rule that [OF run _ W(2)])
    show "running (f + 2) (mm s7)" using W(1) by simp
    show "kload s7 (task_directory (task_ptr s pid)) = of_nat P"
      unfolding T(1) tdir word using low7 [of "T + 8"] T(4) entry3 by simp
    show "\<forall>i < 1024. word_at (mem (mm s7)) (P + 4 * i) = (if i = 64 then of_nat Q1 else if i = 128 then of_nat Q2 else of_nat (table_at (mm s) i))"
      using word7 g(7) tab3 P_top g(10,11) top by simp
    show "word_at (mem (mm s7)) Q1 = mapped_to f" "word_at (mem (mm s7)) Q2 = mapped_to (Suc f)"
      using word7 g(8,9) P_top g(10,11) top by simp_all
    show "page_present (pte (mm s7) 983040)" "page_address (pte (mm s7) 983040) = of_nat f"
      using W(3) s7(4,5) dest_frame by simp_all
    show "\<forall>k < 4096. physical s7 (of_nat (4096 * f) + of_nat k) = mem (mm s) (img + of_nat k)" using phys7 by blast
    show "\<forall>x. x \<notin> bytes (of_nat (4096 * f)) 4096 \<longrightarrow> physical s7 x = physical s x"
      using s7(2) unfolding dest by (simp add: trans6 del: in_bytes)
    show "\<forall>x. unat x < unat (bs_base (frames (mm s))) \<longrightarrow> x \<notin> bytes (task_ptr s pid) 76 \<longrightarrow> mem (mm s7) x = mem (mm s) x"
      using byte7 unfolding T(1) inT B_def by blast
    show "kload s7 (task_alive (task_ptr s pid)) = 1" "kload s7 (task_pid (task_ptr s pid)) = pid"
      "kload s7 (saved_eip (task_ptr s pid)) = TASK_IMAGE_BASE" "kload s7 (saved_esp (task_ptr s pid)) = 0xF0000FFC"
      "kload s7 (saved_cs (task_ptr s pid)) = 0x1B" "kload s7 (saved_ds (task_ptr s pid)) = 0x23"
      "kload s7 (saved_ss (task_ptr s pid)) = 0x23"
      unfolding T(1) t_fields word using fieldsT [of 0] fieldsT [of 4] fieldsT [of 12] fieldsT [of 28] fieldsT [of 56]
        fieldsT [of 60] fieldsT [of 72] entry(2-8) by simp_all
    show "\<forall>i < 1024. table_at (mm s7) i = table_at (mm s) i" using W(4) tab6 by simp
    show "Q2 + 4096 \<le> 0x0F400000" using P_top top by simp
  qed (rule addr7, rule fr7, rule g(10), rule g(11), rule P_top(2))
qed

section \<open>What the processor reads through a task's directory\<close>

text \<open>The byte \<open>k\<close> of the page \<open>p\<close>, in the page's frame.\<close>

lemma page_byte:
  assumes "p < 1048576" "k < 4096"
  shows "(of_nat (4096 * p) + of_nat k :: u32) div PAGE_SIZE = of_nat p" "(of_nat (4096 * p) + of_nat k :: u32) mod PAGE_SIZE = of_nat k"
proof -
  have u: "unat (of_nat (4096 * p) + of_nat k :: u32) = 4096 * p + k"
    using unat_of_nat32 [of "4096 * p + k"] assms by simp
  have v: "unat (of_nat p :: u32) = p" "unat (of_nat k :: u32) = k" by (rule unat_of_nat32; use assms in linarith)+
  have "(4096 * p + k) div 4096 = p" "(4096 * p + k) mod 4096 = k" using assms(2) by simp_all
  then show "(of_nat (4096 * p) + of_nat k :: u32) div PAGE_SIZE = of_nat p" "(of_nat (4096 * p) + of_nat k :: u32) mod PAGE_SIZE = of_nat k"
    by (simp_all only: word_unat_eq_iff unat_div unat_mod u v) (simp_all add: PAGE_SIZE_def)
qed

lemma virtual_mapped:
  assumes "p < 1048576" "k < 4096" "f < 1048576" "p \<noteq> 983040"
    and "kload s (dir_table (translation s) (of_nat (p div 1024))) = t" "t \<noteq> 0"
    and "t \<noteq> kload s (dir_table (kernel_directory (mm s)) (of_nat (p div 1024)))"
    and "kload s (page_entry t (of_nat (p mod 1024))) = mapped_to f"
  shows "virtual_byte s (of_nat (4096 * p) + of_nat k) = Inr (physical s (of_nat (4096 * f) + of_nat k))"
proof -
  have "unat (of_nat p :: u32) = p" by (rule unat_of_nat32) (use assms(1) in simp)
  then have win: "\<not> in_window (of_nat (4096 * p) + of_nat k)"
    unfolding in_window_def page_byte(1) [OF assms(1,2)] using assms(4)
    by (simp add: word_unat_eq_iff PAGE_CLONING_BUFFER_def PAGE_SIZE_def)
  have uf: "unat (of_nat f :: u32) = f" by (rule unat_of_nat32) (use assms(3) in simp)
  then have "take_bit 20 (of_nat f :: u32) = of_nat f" using assms(3) by (simp add: take_bit_20_small)
  then have behind: "frame_behind (mapped_to f) (of_nat (4096 * p) + of_nat k) = of_nat (4096 * f) + of_nat k"
    unfolding frame_behind_def page_byte(2) [OF assms(1,2)] by (simp add: page_filled_fields PAGE_SIZE_def)
  let ?a = "of_nat (4096 * p) + of_nat k :: u32"
  have "table_of s dir ?a = kload s (dir_table dir (of_nat (p div 1024)))" for dir
    unfolding table_of_def page_byte(1) [OF assms(1,2)] page_number(2) [OF assms(1)] by (rule refl)
  moreover have "?a div PAGE_SIZE mod PAGES_PER_TABLE = of_nat (p mod 1024)"
    unfolding page_byte(1) [OF assms(1,2)] by (rule page_number(3) [OF assms(1)])
  ultimately show ?thesis
    using win assms(5-7) behind unfolding virtual_byte_def Let_def by (simp only: assms(8) page_filled_fields if_True if_False)
qed

text \<open>The window reads the frame that it was pointed at last.\<close>

lemma virtual_window:
  assumes "k < 4096" "kload s (cloning_buffer_page (mm s)) = e" "page_address e = of_nat f"
  shows "virtual_byte s (TASK_USER_STACK_BOTTOM + of_nat k) = Inr (physical s (of_nat (4096 * f) + of_nat k))"
proof -
  have eq: "TASK_USER_STACK_BOTTOM + of_nat k = of_nat (4096 * 983040) + of_nat k" by (simp add: TASK_USER_STACK_BOTTOM_def)
  have p: "(983040 :: nat) < 1048576" by simp
  have "in_window (of_nat (4096 * 983040) + of_nat k)"
    unfolding in_window_def page_byte(1) [OF p assms(1)] by (simp add: PAGE_SIZE_def PAGE_CLONING_BUFFER_def)
  moreover have "frame_behind e (of_nat (4096 * 983040) + of_nat k) = of_nat (4096 * f) + of_nat k"
    unfolding frame_behind_def page_byte(2) [OF p assms(1)] assms(3) by (simp add: PAGE_SIZE_def)
  ultimately show ?thesis unfolding eq virtual_byte_def Let_def assms(2) by (simp only: if_True)
qed

lemma virtual_kernel:
  assumes "\<not> in_window a" "kload s (dir_table (translation s) (a div PAGE_SIZE div PAGES_PER_TABLE))
      = kload s (dir_table (kernel_directory (mm s)) (a div PAGE_SIZE div PAGES_PER_TABLE))"
  shows "virtual_byte s a = Inr (mem (mm s) a)"
  using assms by (simp add: virtual_byte_def table_of_def Let_def)

text \<open>The entries of other tasks are apart from the new one.\<close>

lemma task_ptr_apart:
  fixes s :: "'a kernel_state_scheme"
  assumes "unat (tasks_addr s) + 19456 \<le> B" "B < 4294967296" "unat pid < 256" "unat q < 256" "q \<noteq> pid" "j < 76"
  shows "unat (task_ptr s q + of_nat j) < B" "task_ptr s q + of_nat j \<notin> bytes (task_ptr s pid) 76"
proof -
  have place: "unat (task_ptr s r) = unat (tasks_addr s) + 76 * unat r" if r: "unat r < 256" for r
    by (rule task_place [OF assms(1,2) r, of thesis for thesis]) simp
  note p = place [OF assms(3)] and q = place [OF assms(4)]
  have at: "unat (task_ptr s q + of_nat j) = unat (tasks_addr s) + 76 * unat q + j"
    using assms(1,2,4,6) q by (simp add: unat_add32 unat_of_nat32)
  then show "unat (task_ptr s q + of_nat j) < B" using assms(1,4,6) by linarith
  have "unat q \<noteq> unat pid" using assms(5) by (simp add: word_unat_eq_iff)
  then have "76 * unat q + 76 \<le> 76 * unat pid \<or> 76 * unat pid + 76 \<le> 76 * unat q" by linarith
  then have "\<not> (unat (task_ptr s pid) \<le> unat (task_ptr s q + of_nat j) \<and> unat (task_ptr s q + of_nat j) < unat (task_ptr s pid) + 76)"
    unfolding at p using assms(6) by linarith
  moreover have "unat (task_ptr s pid) + 76 \<le> 4294967296" unfolding p using assms(1-3) by linarith
  ultimately show "task_ptr s q + of_nat j \<notin> bytes (task_ptr s pid) 76"
    by (simp add: bytes_no_wrap del: in_bytes)
qed

text \<open>The same for a directory \<open>P\<close> with two tables of its own.\<close>

lemma private_tables_bytes:
  fixes s :: "'a vm_state_scheme"
  assumes run: "running n (mm s)" and dir: "translation s = of_nat P"
    and tables: "\<forall>i < 1024. word_at (mem (mm s)) (P + 4 * i) = (if i = 64 then of_nat Q1 else if i = 128 then of_nat Q2 else of_nat (table_at (mm s) i))"
    and pages: "word_at (mem (mm s)) Q1 = mapped_to f" "word_at (mem (mm s)) Q2 = mapped_to g" "f < 1048576" "g < 1048576"
    and Q: "0 < Q1" "0 < Q2" "Q1 < 4294967296" "Q2 < 4294967296"
  shows "k < 4096 \<Longrightarrow> virtual_byte s (TASK_IMAGE_BASE + of_nat k) = Inr (physical s (of_nat (4096 * f) + of_nat k))"
    "k < 4096 \<Longrightarrow> virtual_byte s (TASK_KERNEL_STACK_BOTTOM + of_nat k) = Inr (physical s (of_nat (4096 * g) + of_nat k))"
    "\<lbrakk>\<not> in_window a; unat a div 0x400000 \<noteq> 64; unat a div 0x400000 \<noteq> 128\<rbrakk> \<Longrightarrow> virtual_byte s a = Inr (mem (mm s) a)"
proof -
  have own: "kload s (dir_table (translation s) (of_nat i))
      = (if i = 64 then of_nat Q1 else if i = 128 then of_nat Q2 else of_nat (table_at (mm s) i))" if "i < 1024" for i
    using tables that by (simp add: dir dir_table_def word_at_def)
  have kernel: "kload s (dir_table (kernel_directory (mm s)) (of_nat i)) = of_nat (table_at (mm s) i)" for i
    by (simp add: table_at_def word_at_def dir_table_def)
  have none: "table_at (mm s) 64 = 0" "table_at (mm s) 128 = 0"
    using runningD(10) [OF run, of 64] runningD(10) [OF run, of 128] by auto
  have u: "unat (of_nat Q1 :: u32) = Q1" "unat (of_nat Q2 :: u32) = Q2" by (rule unat_of_nat32, rule Q)+
  then have nz: "(of_nat Q1 :: u32) \<noteq> 0" "(of_nat Q2 :: u32) \<noteq> 0" using Q(1,2) by (metis neq0_conv unat_0)+
  show "virtual_byte s (TASK_IMAGE_BASE + of_nat k) = Inr (physical s (of_nat (4096 * f) + of_nat k))" if "k < 4096"
  proof -
    have "virtual_byte s (of_nat (4096 * 65536) + of_nat k) = Inr (physical s (of_nat (4096 * f) + of_nat k))"
      by (rule virtual_mapped [where t = "of_nat Q1"])
         (use that pages own [of 64] kernel [of 64] none nz in \<open>simp_all add: page_entry_def word_at_def\<close>)
    then show ?thesis by (simp add: TASK_IMAGE_BASE_def)
  qed
  show "virtual_byte s (TASK_KERNEL_STACK_BOTTOM + of_nat k) = Inr (physical s (of_nat (4096 * g) + of_nat k))" if "k < 4096"
  proof -
    have "virtual_byte s (of_nat (4096 * 131072) + of_nat k) = Inr (physical s (of_nat (4096 * g) + of_nat k))"
      by (rule virtual_mapped [where t = "of_nat Q2"])
         (use that pages own [of 128] kernel [of 128] none nz in \<open>simp_all add: page_entry_def word_at_def\<close>)
    then show ?thesis by (simp add: TASK_KERNEL_STACK_BOTTOM_def)
  qed
  show "virtual_byte s a = Inr (mem (mm s) a)"
    if "\<not> in_window a" "unat a div 0x400000 \<noteq> 64" "unat a div 0x400000 \<noteq> 128"
  proof (rule virtual_kernel [OF that(1)])
    define i where "i = unat (a div PAGE_SIZE div PAGES_PER_TABLE)"
    have ix: "a div PAGE_SIZE div PAGES_PER_TABLE = of_nat i" by (simp add: i_def)
    have "i = unat a div 4096 div 1024" by (simp add: i_def PAGE_SIZE_def PAGES_PER_TABLE_def unat_div)
    then have "i = unat a div 0x400000" by (simp add: div_mult2_eq [symmetric])
    moreover have "i < 1024" unfolding i_def by (rule table_index_bound)
    ultimately show "kload s (dir_table (translation s) (a div PAGE_SIZE div PAGES_PER_TABLE))
        = kload s (dir_table (kernel_directory (mm s)) (a div PAGE_SIZE div PAGES_PER_TABLE))"
      unfolding ix kernel using own that(2,3) by simp
  qed
qed

section \<open>Properties\<close>


text \<open>
  The machine of \<open>sample_boot\<close>, with the task table at \<open>0x8000\<close>, after \<open>init_paging\<close> and with the
  table cleared.
\<close>

definition sample_start :: kernel_state where
  "sample_start = vm_state.extend sample_boot \<lparr>tasks_addr = 0x8000, current_task = - 1, eflags = 2, cpu = None\<rparr>"

lemma sample_ready:
  obtains s :: kernel_state and f where "task_ready f [(4084, Lost), (8216, Used), (45044, Hole)] 0x1000 s" "\<not> alive s 0"
proof -
  have fields: "mm sample_start = sample_unpaged" "interrupt_handlers sample_start = replicate 256 None"
    by (simp_all add: sample_start_def sample_boot_def vm_state.extend_def blank_vm_def idt_state.extend_def blank_idt_def gdt_state.extend_def)
  have mem0: "mem sample_unpaged = (\<lambda>_. 0)" and frames0: "frames sample_unpaged = \<lparr>bs_base = 0x10000, bs_size = 64\<rparr>"
    by (simp_all add: sample_unpaged_def sample_frames_def)
  have cond: "unpaged 0x100000 (mm sample_start)" "14 < length (interrupt_handlers sample_start)"
    "word_at (mem (mm sample_start)) 0x0F00FFF8 \<noteq> KHEAP_MAGIC"
    using sample_unpaged by (simp_all add: fields mem0 word_at_def KHEAP_MAGIC_def)
  obtain s k where s: "init_paging (Suc 0) sample_start = Some (Inr s)" "kernel_space k (mm s)"
    "heap_inv (mm s) [(4084, Lost), (8216, Used), (45044, Hole)]" "kernel_heap (mm s) \<noteq> 0"
    "heap_start (mm s) = 0x0F002000" "heap_end (mm s) = 0x0F010000" "index_capacity (mm s) = 2048"
    "max_addr (heap_obj (mm s)) = KHEAP_MAX_ADDRESS"
    "pages_user_mode (heap_obj (mm s)) = 0" "pages_writeable (heap_obj (mm s)) = 1"
    "unat (kernel_directory (mm s)) = 0x100000"
    "interrupt_handlers s = (interrupt_handlers sample_start)[14 := Some Page_Fault_Handler]"
    "translation s = 0x0F003000" "current_directory (mm s) = 0x0F003000" "bit (cr0 s) 31"
    "cr3 s = of_nat (4096 * (k + 4))"
    "\<forall>i < 1024. kload s (dir_table 0x0F003000 (of_nat i)) = of_nat (table_at (mm s) i)"
    "\<forall>i < 1024. kload s (dir_table_physical 0x0F003000 (of_nat i)) = physical_at (mm s) i"
    "k \<le> 0x100000 div 4096 + 68" "frames (mm s) = frames (mm sample_start)" "index_bytes (mm s) = {0x0F000000..<0x0F002000}"
    by (rule init_paging_ok [OF cond, of 0])
  define s1 where "s1 = update_mem (\<lambda>m. memset m 0x8000 0 19456) (s\<lparr>tasks_addr := 0x8000\<rparr>)"
  have frames: "frames (mm s) = \<lparr>bs_base = 0x10000, bs_size = 64\<rparr>" using s(20) by (simp add: fields frames0)
  have run: "running (k + 17) (mm s)" by (rule space_running [OF s(2,4,5) _ s(21)]) (simp add: s(6))
  have same: "same_outside {0x8000..<0x8000 + 19456} (mem (mm s)) (mem (mm s1))"
    using memset_outside [of "0x8000" 19456 "mem (mm s)" 0] by (simp add: s1_def)
  have "mm s1 = (mm s)\<lparr>mem := mem (mm s1)\<rparr>" by (simp add: s1_def)
  note w = low_write [OF run s(3) this same]
  have low: "\<And>x. x \<in> {0x8000..<0x8000 + 19456} \<Longrightarrow> x < unat (bs_base (frames (mm s)))" by (simp add: frames)
  note w = w [OF low]
  have kept: "heap_start (mm s1) = 0x0F002000" "index_capacity (mm s1) = 2048"
    unfolding s(5,7) [symmetric] by (rule w(7), assumption) (rule w(8), assumption)
  have cd: "current_directory (mm s1) = 0x0F003000" "translation s1 = 0x0F003000" "tasks_addr s1 = 0x8000"
    "kernel_directory (mm s1) = kernel_directory (mm s)" "frames (mm s1) = frames (mm s)"
    using s(13,14) by (simp_all add: s1_def update_mem_def)
  have high: "word_at (mem (mm s1)) q = word_at (mem (mm s)) q" if "0x10000 \<le> q" "q + 4 \<le> 4294967296" for q
    by (rule w(6)) (use that in \<open>simp_all add: frames\<close>)
  have word: "kload s' (of_nat q) = word_at (mem (mm s')) q" for s' :: kernel_state and q by (simp add: word_at_def)
  have slots: "dir_table 0x0F003000 (of_nat i) = of_nat (0x0F003000 + 4 * i)"
    "dir_table_physical 0x0F003000 (of_nat i) = of_nat (0x0F004000 + 4 * i)" for i
    by (simp_all add: dir_table_def dir_table_physical_def)
  have own: "kload s1 (dir_table 0x0F003000 (of_nat i)) = of_nat (table_at (mm s) i)"
    "kload s1 (dir_table_physical 0x0F003000 (of_nat i)) = physical_at (mm s) i" if "i < 1024" for i
    using s(17,18) that high [of "0x0F003000 + 4 * i"] high [of "0x0F004000 + 4 * i"] unfolding slots word by simp_all
  have "kload s1 (dir_table (kernel_directory (mm s)) (of_nat i)) = of_nat (table_at (mm s1) i)" for i
    by (simp add: table_at_def word_at_def dir_table_def cd)
  then have shares: "shares_kernel 0x0F003000 (mm s1)"
    using own(1) w(4) by (simp add: shares_kernel_def cd)
  have "roomy (0x0F002000 + 12300) 45044 (mm s1) [(4084, Lost), (8216, Used), (45044, Hole)]"
    unfolding roomy_def by (rule exI [of _ "[(4084, Lost), (8216, Used)]"], rule exI [of _ Hole], rule exI [of _ "[]"]) (simp add: kept)
  moreover have "frame_capacity (mm s1) = 2048" by (simp add: frame_capacity_def bs_capacity_def cd frames)
  moreover have "unat (0x1000 :: u32) + 4096 \<le> unat (0x8000 :: u32)" by simp
  ultimately have "task_ready (k + 17) [(4084, Lost), (8216, Used), (45044, Hole)] 0x1000 s1"
    using w(1,2,9) own(2) shares s(19) unfolding task_ready_def cd frames
    by (intro conjI exI [of _ "0x0F002000 + 12300"] exI [of _ 45044]) (simp_all add: vacant_def kept)
  moreover have "\<not> alive s1 0"
  proof -
    have "bytes 0x8004 4 \<subseteq> bytes 0x8000 (unat (19456 :: u32))" by (auto simp: bytes_no_wrap simp del: in_bytes)
    then have "kload s1 0x8004 = 0" by (simp add: s1_def load32_memset_zero)
    then show ?thesis by (simp add: alive_def task_ptr_def task_alive_def cd)
  qed
  ultimately show ?thesis by (rule that)
qed


end
