(* ===== verification/Tlb.thy ===== *)
theory Tlb
  imports Paging
begin

text \<open>
  Cached translations, and \<open>invalidate_page\<close> of \<open>src/src/mm/paging.c\<close>: why the rest of the
  development may take every translation from the page tables.
\<close>

section \<open>The cache\<close>

text \<open>The entries the processor has read, by page number.\<close>

type_synonym tlb = "u32 \<Rightarrow> u32 option"

definition invlpg :: "u32 \<Rightarrow> tlb \<Rightarrow> tlb" where
  "invlpg a t = t(a div PAGE_SIZE := None)"

definition reload_cr3 :: "tlb \<Rightarrow> tlb" where
  "reload_cr3 t = (\<lambda>_. None)"

text \<open>
  The operand of \<open>invlpg\<close> is a memory operand that holds \<open>address\<close>, so the instruction is given the
  place \<open>slot\<close> of that operand on the stack, not the address in it.
\<close>

definition invalidate_page :: "u32 \<Rightarrow> u32 \<Rightarrow> tlb \<Rightarrow> tlb" where
  "invalidate_page slot address t = reload_cr3 (invlpg slot t)"

section \<open>Accesses through the cache\<close>

text \<open>
  The entry of the page of \<open>a\<close>.  The kernel's own pages are \<open>mem\<close> at their virtual addresses,
  so only the window and the pages of private tables are \<open>walked\<close>.
\<close>

definition entry_of :: "'a vm_state_scheme \<Rightarrow> u32 \<Rightarrow> u32" where
  "entry_of s a = (if in_window a then kload s (cloning_buffer_page (mm s))
     else kload s (page_entry (table_of s (translation s) a) (a div PAGE_SIZE mod PAGES_PER_TABLE)))"

definition walked :: "'a vm_state_scheme \<Rightarrow> u32 \<Rightarrow> bool" where
  "walked s a \<longleftrightarrow> in_window a \<or> table_of s (translation s) a \<noteq> table_of s (kernel_directory (mm s)) a"

definition cached_byte :: "u32 \<Rightarrow> tlb \<times> 'a vm_state_scheme \<Rightarrow> (u8 \<times> tlb) res" where
  "cached_byte a = (\<lambda>(t, s). case t (a div PAGE_SIZE) of
       Some e \<Rightarrow> Inr (physical s (frame_behind e a), t)
     | None \<Rightarrow> bind_res (virtual_byte s a) (\<lambda>b.
         Inr (b, if walked s a then t(a div PAGE_SIZE := Some (entry_of s a)) else t)))"

definition cached_store :: "u32 \<Rightarrow> u8 \<Rightarrow> tlb \<times> 'a vm_state_scheme \<Rightarrow> tlb \<times> 'a vm_state_scheme" where
  "cached_store off b = (\<lambda>(t, s). let p = PAGE_CLONING_BUFFER div PAGE_SIZE;
       e = (case t p of Some e \<Rightarrow> e | None \<Rightarrow> kload s (cloning_buffer_page (mm s)))
     in (t(p := Some e), s\<lparr>physical := (physical s)(page_address e * PAGE_SIZE + off := b)\<rparr>))"

fun cached_copy :: "nat \<Rightarrow> u32 \<Rightarrow> u32 \<Rightarrow> tlb \<times> 'a vm_state_scheme \<Rightarrow> (tlb \<times> 'a vm_state_scheme) res" where
  "cached_copy 0 off src c = Inr c"
| "cached_copy (Suc n) off src c =
     (if off \<ge> PAGE_SIZE then Inl OutOfBounds
      else bind_res (cached_byte src c) (\<lambda>(b, t).
           cached_copy n (off + 1) (src + 1) (cached_store off b (t, snd c))))"

text \<open>The window is pointed at a frame, invalidated, written through, and invalidated again.\<close>

definition through_window :: "u32 \<Rightarrow> u32 \<Rightarrow> nat \<Rightarrow> u32 \<Rightarrow> u32 \<Rightarrow> tlb \<times> 'a vm_state_scheme \<Rightarrow> (tlb \<times> 'a vm_state_scheme) res" where
  "through_window slot dest_physical n off src = (\<lambda>(t, s).
     bind_res (map_window dest_physical s) (\<lambda>s1.
     bind_res (cached_copy n off src (invalidate_page slot PAGE_CLONING_BUFFER t, s1)) (\<lambda>(t2, s2).
       Inr (invalidate_page slot PAGE_CLONING_BUFFER t2, s2))))"

definition clone_page_cached :: "u32 \<Rightarrow> u32 \<Rightarrow> u32 \<Rightarrow> tlb \<times> 'a vm_state_scheme \<Rightarrow> (tlb \<times> 'a vm_state_scheme) res" where
  "clone_page_cached slot src_virtual dest_physical = through_window slot dest_physical (unat PAGE_SIZE) 0 src_virtual"

definition mm_memcpy_cached :: "u32 \<Rightarrow> u32 \<Rightarrow> u32 \<Rightarrow> u32 \<Rightarrow> tlb \<times> 'a vm_state_scheme \<Rightarrow> (tlb \<times> 'a vm_state_scheme) res" where
  "mm_memcpy_cached slot dest_physical src sz c =
     (if (dest_physical AND 0x0FFF) + sz > 0x1000
      then Inl (Panic ''mm_memcpy_physical() has not been implemented properly'')
      else through_window slot dest_physical (unat sz) (dest_physical AND 0x0FFF) src c)"

section \<open>A cache that agrees with the tables\<close>

definition coherent :: "tlb \<Rightarrow> 'a vm_state_scheme \<Rightarrow> bool" where
  "coherent t s \<longleftrightarrow> (\<forall>a e. t (a div PAGE_SIZE) = Some e \<longrightarrow> walked s a \<and> e = entry_of s a
     \<and> (in_window a \<or> table_of s (translation s) a \<noteq> 0 \<and> page_present e))"

lemma coherent_empty: "coherent (\<lambda>_. None) s"
  by (simp add: coherent_def)

lemma coherent_physical: "coherent t (s\<lparr>physical := f\<rparr>) = coherent t s"
  by (simp add: coherent_def walked_def entry_of_def table_of_def)

text \<open>An entry that was walked for one byte is the entry of all bytes of the page.\<close>

lemma coherent_fill:
  assumes "coherent t s" "walked s a" "in_window a \<or> table_of s (translation s) a \<noteq> 0 \<and> page_present (entry_of s a)"
  shows "coherent (t(a div PAGE_SIZE := Some (entry_of s a))) s"
proof -
  have same: "in_window b = in_window a" "table_of s d b = table_of s d a" "entry_of s b = entry_of s a" "walked s b = walked s a"
    if "b div PAGE_SIZE = a div PAGE_SIZE" for b d
    unfolding in_window_def table_of_def entry_of_def walked_def that by (rule refl)+
  show ?thesis
    unfolding coherent_def
  proof (intro allI impI)
    fix b e assume e: "(t(a div PAGE_SIZE := Some (entry_of s a))) (b div PAGE_SIZE) = Some e"
    show "walked s b \<and> e = entry_of s b \<and> (in_window b \<or> table_of s (translation s) b \<noteq> 0 \<and> page_present e)"
    proof (cases "b div PAGE_SIZE = a div PAGE_SIZE")
      case True
      then show ?thesis using e assms(2,3) unfolding same [OF True] by simp
    next
      case False
      then show ?thesis using e assms(1) by (simp add: coherent_def)
    qed
  qed
qed

lemma cached_byte_coherent:
  assumes "coherent t s"
  obtains t' where "cached_byte a (t, s) = bind_res (virtual_byte s a) (\<lambda>b. Inr (b, t'))" "coherent t' s"
proof (cases "t (a div PAGE_SIZE)")
  case (Some e)
  then have "walked s a" "e = entry_of s a" "in_window a \<or> table_of s (translation s) a \<noteq> 0 \<and> page_present e"
    using assms by (simp_all add: coherent_def)
  then have "virtual_byte s a = Inr (physical s (frame_behind e a))"
    by (auto simp: virtual_byte_def walked_def entry_of_def Let_def split: if_splits)
  then show ?thesis using Some assms that [of t] by (simp add: cached_byte_def)
next
  case None
  show ?thesis
  proof (cases "virtual_byte s a")
    case (Inl e)
    then show ?thesis using None assms that [of t] by (simp add: cached_byte_def)
  next
    case (Inr b)
    have "coherent (if walked s a then t(a div PAGE_SIZE := Some (entry_of s a)) else t) s"
    proof (cases "walked s a")
      case True
      then have "in_window a \<or> table_of s (translation s) a \<noteq> 0 \<and> page_present (entry_of s a)"
        using Inr by (auto simp: virtual_byte_def walked_def entry_of_def Let_def split: if_splits)
      then show ?thesis using coherent_fill [OF assms True] True by simp
    qed (use assms in simp)
    then show ?thesis using None Inr that by (simp add: cached_byte_def)
  qed
qed

lemma cached_store_coherent:
  assumes "coherent t s"
  obtains t' where "cached_store off b (t, s)
      = (t', s\<lparr>physical := (physical s)(page_address (kload s (cloning_buffer_page (mm s))) * PAGE_SIZE + off := b)\<rparr>)" "coherent t' s"
proof -
  let ?a = PAGE_CLONING_BUFFER and ?e = "kload s (cloning_buffer_page (mm s))"
  have win: "in_window ?a" by (simp add: in_window_def)
  then have e: "entry_of s ?a = ?e" "walked s ?a" by (simp_all add: entry_of_def walked_def)
  then have cached: "(case t (?a div PAGE_SIZE) of Some e \<Rightarrow> e | None \<Rightarrow> ?e) = ?e"
    using assms by (auto simp: coherent_def split: option.split)
  have "coherent (t(?a div PAGE_SIZE := Some ?e)) s"
    using coherent_fill [OF assms e(2)] win unfolding e(1) by simp
  then show ?thesis using that by (simp add: cached_store_def cached Let_def)
qed

lemma cached_copy_coherent:
  "coherent t s \<Longrightarrow> \<exists>t'. cached_copy n off src (t, s) = bind_res (window_copy n off src s) (\<lambda>s'. Inr (t', s'))"
proof (induction n arbitrary: off src t s)
  case 0
  then show ?case by simp
next
  case (Suc n)
  obtain t1 where t1: "cached_byte src (t, s) = bind_res (virtual_byte s src) (\<lambda>b. Inr (b, t1))" "coherent t1 s"
    by (rule cached_byte_coherent [OF Suc.prems])
  show ?case
  proof (cases "off \<ge> PAGE_SIZE \<or> (\<exists>e. virtual_byte s src = Inl e)")
    case True
    then show ?thesis using t1(1) by auto
  next
    case False
    then obtain b where b: "virtual_byte s src = Inr b" by (cases "virtual_byte s src") auto
    let ?s = "s\<lparr>physical := (physical s)(page_address (kload s (cloning_buffer_page (mm s))) * PAGE_SIZE + off := b)\<rparr>"
    obtain t2 where t2: "cached_store off b (t1, s) = (t2, ?s)" "coherent t2 s"
      by (rule cached_store_coherent [OF t1(2)])
    have "coherent t2 ?s" using t2(2) by (simp only: coherent_physical)
    from Suc.IH [OF this] obtain t' where
      "cached_copy n (off + 1) (src + 1) (t2, ?s) = bind_res (window_copy n (off + 1) (src + 1) ?s) (\<lambda>s'. Inr (t', s'))"
      by blast
    then show ?thesis using False t1(1) t2(1) b by (intro exI [of _ t']) simp
  qed
qed

lemma through_window_coherent:
  "through_window slot dest n off src (t, s)
     = bind_res (bind_res (map_window dest s) (window_copy n off src)) (\<lambda>s'. Inr (\<lambda>_. None, s'))"
proof (cases "map_window dest s")
  case (Inr s1)
  obtain t' where "cached_copy n off src (\<lambda>_. None, s1) = bind_res (window_copy n off src s1) (\<lambda>s'. Inr (t', s'))"
    using cached_copy_coherent [OF coherent_empty] by blast
  then show ?thesis
    by (cases "window_copy n off src s1") (simp_all add: through_window_def Inr invalidate_page_def reload_cr3_def)
qed (simp add: through_window_def)

section \<open>Properties\<close>

text \<open>
  C32.  The copies through the window with the processor's cache of translations, whatever it holds
  before: stale entries of the window and of other pages do no harm, the result is that of the model
  without a cache, and the cache is left empty.  It is the reload of \<open>cr3\<close> that does it:
  \<open>invlpg\<close>, applied to the stack slot of its operand, leaves a stale entry of the window in place, and
  behind it alone a byte would go to the frame that the window had before.
\<close>

theorem window_copies_uncached:
  "mm_memcpy_cached slot dest src sz (t, s) = bind_res (mm_memcpy_physical dest src sz s) (\<lambda>s'. Inr (\<lambda>_. None, s'))
   \<and> clone_page_cached slot src dest (t, s) = bind_res (clone_page_to_physical src dest s) (\<lambda>s'. Inr (\<lambda>_. None, s'))
   \<and> (slot div PAGE_SIZE \<noteq> PAGE_CLONING_BUFFER div PAGE_SIZE \<and> t (PAGE_CLONING_BUFFER div PAGE_SIZE) = Some e \<longrightarrow>
        cached_store off b (invlpg slot t, s) = (invlpg slot t, s\<lparr>physical := (physical s)(page_address e * PAGE_SIZE + off := b)\<rparr>))"
proof (intro conjI impI)
  show "mm_memcpy_cached slot dest src sz (t, s) = bind_res (mm_memcpy_physical dest src sz s) (\<lambda>s'. Inr (\<lambda>_. None, s'))"
    "clone_page_cached slot src dest (t, s) = bind_res (clone_page_to_physical src dest s) (\<lambda>s'. Inr (\<lambda>_. None, s'))"
    unfolding mm_memcpy_cached_def mm_memcpy_physical_def clone_page_cached_def clone_page_to_physical_def through_window_coherent
    by simp_all
  assume "slot div PAGE_SIZE \<noteq> PAGE_CLONING_BUFFER div PAGE_SIZE \<and> t (PAGE_CLONING_BUFFER div PAGE_SIZE) = Some e"
  then have "invlpg slot t (PAGE_CLONING_BUFFER div PAGE_SIZE) = Some e" by (auto simp: invlpg_def)
  then show "cached_store off b (invlpg slot t, s) = (invlpg slot t, s\<lparr>physical := (physical s)(page_address e * PAGE_SIZE + off := b)\<rparr>)"
    by (auto simp: cached_store_def Let_def fun_upd_idem)
qed

theorem window_copies_uncached_witness:
  "physical (snd (cached_store 4 7 (invlpg 0x9000 (\<lambda>_. Some 0x5001), blank_vm))) 0x5004 = 7"
proof -
  have "(0x9000 :: u32) div PAGE_SIZE \<noteq> PAGE_CLONING_BUFFER div PAGE_SIZE"
    by (simp add: PAGE_SIZE_def PAGE_CLONING_BUFFER_def)
  moreover have "page_address 0x5001 * PAGE_SIZE + 4 = 0x5004" by (simp add: page_address_def PAGE_SIZE_def)
  ultimately show ?thesis
    using window_copies_uncached [of "0x9000" 0 0 0 "\<lambda>_. Some 0x5001" blank_vm "0x5001" 4 7] by simp
qed

end
