(* ===== verification/Spec2Isabelle.thy ===== *)
theory Spec2Isabelle
  imports Main_Kernel Kernel_Run TaskCreate Tlb
begin

text \<open>
  A verification library of the evos kernel, the C program under \<open>src/src\<close>.

  \<^bold>\<open>The program.\<close>  evos is a small kernel for 32-bit x86.  \<open>kmain\<close> reads the boot loader's
  symbol tables (\<open>panic.c\<close>) and its memory map (\<open>mm/mem.c\<close>), starts the frame allocator
  (\<open>mm/frame.c\<close>), paging (\<open>mm/paging.c\<close>) and the heap (\<open>kheap.c\<close>, \<open>kmalloc.c\<close>), then the
  descriptor tables and interrupts (\<open>gdt.c\<close>, \<open>idt.c\<close>, \<open>isr.c\<close>), the timer, the system calls and the
  tasks.  The frame allocator keeps a bit set and the heap an index of its holes, an ordered array
  (\<open>datastructs\<close>).  Everything is printed through \<open>printk\<close>, \<open>vsprintf\<close> and the text monitor.
  \<open>kmalloc\<close>, \<open>heap_alloc\<close>, \<open>expand\<close>, \<open>get_page\<close> and \<open>kmalloc_ap\<close> call each other: the heap grows by
  mapping pages, and mapping a page may need a page table from the heap.

  \<^bold>\<open>Memory and numbers.\<close>  Machine integers are words of their width, memory is a function from
  32-bit addresses to bytes, and every structure the C code reaches through a pointer (block
  headers, the index's array, page tables, the task table, the multiboot and ELF tables) is read and
  written in it, so aliasing is the machine's.  A C structure of which there is one object (\<open>heap_t\<close>,
  the bit set of frames, the descriptor tables) is a record of the state.  Effects pass the state
  explicitly.  An operation that can stop the kernel has a result of type \<open>'a res\<close>: \<open>Inl\<close> of the
  reason (a panic, a failed assertion, a null pointer, an access behind an array, a division by zero,
  the stack used up) or \<open>Inr\<close> of the value.

  \<^bold>\<open>State.\<close>  The records extend each other in the order of the components, and an operation is
  polymorphic in the fields that come later: \<open>ports\<close> (the trace of port writes), \<open>monitor\<close> (frame
  buffer and cursor), \<open>gdt_state\<close>, \<open>idt_state\<close>, \<open>vm_state\<close> (the memory manager's \<open>mm_state\<close>, the
  memory behind private pages, the control registers), \<open>kernel_state\<close> (the task variables and the
  processor) and \<open>debug_state\<close> (the symbol tables).

  \<^bold>\<open>Theories, and the files they model.\<close>
  \<^item> \<open>Prelude\<close>: the types, results, and facts on words, lists and bits; \<open>Memory\<close>: bytes, 32-bit
    reads and writes and the frame rules; both are used by every other theory.
  \<^item> \<open>Strings\<close>: the byte and string routines of \<open>string.c\<close>.  \<open>Printf\<close>: \<open>append_number\<close> and
    \<open>vsprintf\<close> as loops over memory; \<open>Format\<close>: the same output as a function from a format and its
    arguments to characters, and the proof that the two agree.
  \<^item> \<open>Bitset\<close>, \<open>OrderedArray\<close>: \<open>datastructs/bitset.c\<close> and \<open>datastructs/ordered_array.c\<close>.
  \<^item> \<open>Machine\<close>: the memory manager's state and page arithmetic.  \<open>Frames\<close>: \<open>mm/frame.c\<close>.
    \<open>Pages\<close>: \<open>page_alloc\<close>, \<open>page_free\<close> and \<open>get_page\<close> of \<open>mm/paging.c\<close>.
  \<^item> \<open>Kheap\<close>: \<open>kheap.c\<close> as written.  \<open>KheapLayout\<close>: the heap as a list of blocks and the invariant
    that ties it to memory and to the index; \<open>KheapIndex\<close>: the index; \<open>KheapAlloc\<close>, \<open>KheapAlign\<close> and
    \<open>KheapFree\<close>: one allocation, a page-aligned one, one release; \<open>KheapSpec\<close>: both as operations on
    the list of blocks; \<open>KheapGrow\<close>: the allocation that no hole fits, for which \<open>expand\<close> maps new
    pages at the end of the heap; \<open>KheapRun\<close>: any sequence of client requests, growing ones among
    them; \<open>KheapSamples\<close>: the heaps on which these theorems are applied.
  \<^item> \<open>Allocator\<close>: the contract of an allocator, as locales.  \<open>Kmalloc\<close>: \<open>kmalloc.c\<close>, with the
    operations of other files that allocate (\<open>bitset_create\<close>, \<open>init_frames\<close>,
    \<open>ordered_array_create\<close>, \<open>heap_create\<close>), and its interpretations before and after the heap is up.
  \<^item> \<open>Monitor\<close>: \<open>monitor.c\<close> and \<open>outb\<close>.  \<open>Printk\<close>: \<open>printk.c\<close>.
  \<^item> \<open>Gdt\<close>: \<open>gdt.c\<close>.  \<open>Idt\<close>: \<open>idt.c\<close> and \<open>isr.c\<close>.
  \<^item> \<open>Paging\<close>: the rest of \<open>mm/paging.c\<close>: address spaces, the copying window, \<open>clone_directory\<close>,
    \<open>init_paging\<close> and the page-fault handler.  \<open>Tlb\<close>: the cache of translations and
    \<open>invalidate_page\<close>.  \<open>AddressSpace\<close>: the kernel's tables as a function from
    pages to entries, and what \<open>map_kernel\<close> maps.  \<open>Running\<close>: the
    memory manager in service, the aligned blocks that \<open>kmalloc_ap\<close> cuts for directories and tables,
    private page tables, and a clone with its place in the heap.  \<open>Boot\<close>: \<open>init_paging\<close> from its first
    statement to its last.  \<open>Mem\<close>: \<open>mm/mem.c\<close>.
  \<^item> \<open>Task\<close>: \<open>task/task.c\<close>, with its inline assembly.  \<open>TaskCreate\<close>: \<open>task_create\<close> as a whole, on
    the kernel that \<open>init_paging\<close> leaves, and the address space it builds.  \<open>Timer\<close>: \<open>timer.c\<close>.  \<open>Syscall\<close>: \<open>syscall.c\<close>.
  \<^item> \<open>Interrupts\<close>: the stubs of \<open>idt_asm.s\<close>, the calls of the registered handlers, and the
    programs' side of a system call (\<open>usermode\<close>).  \<open>Kernel_Run\<close>: the kernel in service, a
    transition system whose steps are interrupts, system calls and what programs do in between.
    \<open>Panic\<close>: \<open>panic.c\<close>.  \<open>Main_Kernel\<close>: \<open>main.c\<close>.

  \<^bold>\<open>What is shown.\<close>
  \<^item> The heap: an invariant (blocks back to back, each with its header and footer, the index holding
    exactly the holes, by size) that \<open>heap_create\<close> establishes and \<open>heap_alloc\<close> and \<open>heap_free\<close> keep;
    which hole is taken, which bytes change, that live blocks stay apart and keep their contents over
    any run, that a freed block joins its neighbours, and that the kernel's own test of its heap ends
    with DONE.  For a page-aligned request, what the code leaves in front of the block, and
    the sizes on which it panics.  For a heap that grows: the pages mapped, the
    one hole the new bytes become part of, the error when the heap is at its limit, and the
    recursion without end when a page table is missing.
  \<^item> Memory management: the data structures against sets and sorted lists, frames and pages, the
    walk over the memory map, and the copy through the window, whatever translations are cached.  The set-up of paging as a whole: the
    identity map ends although its bound moves, exactly the pages of used memory, of the heap and
    of the window are mapped, the heap is up, and the clone that is switched to has the kernel's tables;
    and the overlap of the bit set of frames with the directory on a machine of 256 MiB.
  \<^item> Output: the digits of numbers, \<open>vsprintf\<close> against the text of a format, the monitor
    against a terminal made of lines, and \<open>printk\<close> as their composition.
  \<^item> Interrupts and tasks: the bytes and fields of the descriptor tables, the gates and masks after
    \<open>init_idt\<close>, the rate of the timer, a system call from the program's registers to the screen and
    back, the round-robin order of tasks, and the processor's state after a switch.  A new task: its
    entry, its two frames and tables, the copy of its image, and what it reads through its
    directory, where the page of the user stack is the page of the image.  Over any run of
    the kernel in service: the tick counter counts the timer interrupts, the tables stay as they
    are, and every task whose page directory is live is chosen within one round of ticks.
  \<^item> Panics: the search for a symbol against a search in the list of symbols, and the trace of a
    chain of frames.
\<close>

text \<open>
  \<^bold>\<open>Interfaces.\<close>  \<open>slot_store\<close> is what the frame allocator needs of the bit set;
  \<open>keyed_comparator\<close> is what the ordered array needs of its comparator, given by the comparison of
  addresses and by the heap's comparison of sizes; \<open>block_allocator\<close> and \<open>freeing_allocator\<close> are what
  the kernel needs of \<open>kmalloc\<close>, given by the heap, by the linear allocator, and by \<open>kmalloc\<close> in both
  of its phases.

  \<^bold>\<open>Bounds and fuel.\<close>
  \<^item> \<open>kmalloc_impl\<close> takes the number of nested calls it may make.  A request that fits a hole needs
    one; a result other than \<open>StackExhausted\<close> is the same for every larger number, which is proved.
  \<^item> Loops over a count recurse on it.  \<open>scan_sections\<close> takes the largest value of its \<open>int\<close>
    counter.  The digit loops stop after 64 and 32 rounds because their buffers do.
  \<^item> Loops that follow data to its end (strings, the chain of stack frames, the multiboot
    memory map, the identity map whose end moves) are partial functions with an option as their
    result.  \<open>None\<close> is not returning; the theorems about them prove that a value is returned.
  \<^item> The theorems on the heap are for heaps below \<open>0x80000000\<close>, as the kernel's is.

  \<^bold>\<open>Not modelled.\<close>
  \<^item> Interrupts from outside in the middle of kernel code: \<open>kmain\<close> is the sequence without them, and
    \<open>irq_stub_run\<close> is one taken between instructions.  The change of stacks in \<open>kmain\<close> and the contents
    of the kernel's stack are not visible to the C code.
  \<^item> Cached translations, but for the copies through the window, the one page whose entry changes
    while it is present; and kernel accesses to pages that are not mapped,
    other than those that go through \<open>virtual_byte\<close>.
  \<^item> The addresses the linker chooses (\<open>__end\<close>, the entry stubs, string literals, the buffer of
    \<open>printk\<close>): parameters or fields of the state.
  \<^item> \<open>inb\<close> and \<open>inw\<close>, which nothing calls; \<open>boot.s\<close>, the link script and the build files; the
    fields and constants of \<open>multiboot.h\<close> that nothing reads.
\<close>

end
